(* ===== verification/Salus_Prelude.thy ===== *)
theory Salus_Prelude
  imports Main "HOL-Library.Word"
begin

text \<open>
  Shared vocabulary of the development: the machine integers of the target
  (riscv64, so \<open>usize\<close> is 64 bits wide), the outcome of a Rust function
  (\<open>Ok\<close>, \<open>Err\<close> or a panic), the checked arithmetic of \<open>core\<close>, the mask
  arithmetic that every alignment computation of the program uses, and generic
  lemmas on lists that stand for \<open>Vec\<close>/\<open>ArrayVec\<close>.
\<close>

unbundle bit_operations_syntax

type_synonym u8 = "8 word"
type_synonym u16 = "16 word"
type_synonym u32 = "32 word"
type_synonym u64 = "64 word"

named_theorems result_simps \<open>unfolding the outcome combinators\<close>
named_theorems align_simps \<open>alignment arithmetic moved to natural numbers\<close>

section \<open>Outcomes\<close>

text \<open>
  \<open>Result<T, E>\<close> with one more constructor: \<open>Panic\<close> is a failed \<open>unwrap\<close>,
  \<open>expect\<close>, \<open>assert!\<close> or slice index, after which the hypervisor stops.
\<close>

datatype ('e, 'a) result = Ok 'a | Err 'e | Panic

fun result_bind :: "('e, 'a) result \<Rightarrow> ('a \<Rightarrow> ('e, 'b) result) \<Rightarrow> ('e, 'b) result" where
  "result_bind (Ok a) f = f a"
| "result_bind (Err e) f = Err e"
| "result_bind Panic f = Panic"

fun map_err :: "('e \<Rightarrow> 'f) \<Rightarrow> ('e, 'a) result \<Rightarrow> ('f, 'a) result" where
  "map_err f (Ok a) = Ok a"
| "map_err f (Err e) = Err (f e)"
| "map_err f Panic = Panic"

fun unwrap :: "('e, 'a) result \<Rightarrow> ('f, 'a) result" where
  "unwrap (Ok a) = Ok a"
| "unwrap (Err e) = Panic"
| "unwrap Panic = Panic"

fun ok_or :: "'a option \<Rightarrow> 'e \<Rightarrow> ('e, 'a) result" where
  "ok_or (Some a) e = Ok a"
| "ok_or None e = Err e"

fun unwrap_option :: "'a option \<Rightarrow> ('e, 'a) result" where
  "unwrap_option (Some a) = Ok a"
| "unwrap_option None = Panic"

lemma result_bind_Ok [result_simps]:
  "(result_bind m f = Ok b) = (\<exists>a. m = Ok a \<and> f a = Ok b)"
  by (cases m) auto

lemma ok_or_Ok [simp]: "(ok_or x e = Ok a) = (x = Some a)"
  by (cases x) auto

lemma ok_or_Err [simp]: "(ok_or x e = Err e') = (x = None \<and> e = e')"
  by (cases x) auto

lemma ok_or_Panic [simp]: "ok_or x e \<noteq> Panic"
  by (cases x) auto

lemma unwrap_option_Ok [simp]: "(unwrap_option x = Ok a) = (x = Some a)"
  by (cases x) auto

text \<open>A function of the source that returns no \<open>Result\<close> can panic but has no error to return.\<close>

named_theorems infallible_intros \<open>outcomes that are never an error\<close>

definition infallible :: "('e, 'a) result \<Rightarrow> bool" where
  "infallible r \<longleftrightarrow> (\<forall>e. r \<noteq> Err e)"

lemma infallible_simps [simp]: "infallible (Ok a)" "infallible Panic" "\<not> infallible (Err e)"
  by (simp_all add: infallible_def)

lemma infallible_bind [infallible_intros]:
  "infallible m \<Longrightarrow> (\<And>a. m = Ok a \<Longrightarrow> infallible (f a)) \<Longrightarrow> infallible (result_bind m f)"
  by (cases m) simp_all

lemma infallible_unwrap [simp]: "infallible (unwrap r)"
  by (cases r) simp_all

lemma infallible_unwrap_option [simp]: "infallible (unwrap_option r)"
  by (cases r) simp_all

section \<open>Checked arithmetic on 64-bit words\<close>

definition checked_add :: "u64 \<Rightarrow> u64 \<Rightarrow> u64 option" where
  "checked_add a b = (if unat a + unat b < 2 ^ 64 then Some (a + b) else None)"

definition checked_sub :: "u64 \<Rightarrow> u64 \<Rightarrow> u64 option" where
  "checked_sub a b = (if b \<le> a then Some (a - b) else None)"

definition checked_mul :: "u64 \<Rightarrow> u64 \<Rightarrow> u64 option" where
  "checked_mul a b = (if unat a * unat b < 2 ^ 64 then Some (a * b) else None)"

lemma unat_u64_less [simp]: "unat (x :: u64) < 2 ^ 64"
  using unsigned_less [of x] by simp

lemma unat_of_nat_u64: "n < 2 ^ 64 \<Longrightarrow> unat (word_of_nat n :: u64) = n"
  by (simp only: unat_of_nat) simp

lemma unat_add_u64: "unat a + unat b < 2 ^ 64 \<Longrightarrow> unat ((a :: u64) + b) = unat a + unat b"
  by (simp add: unat_word_ariths)

lemma unat_mult_u64: "unat a * unat b < 2 ^ 64 \<Longrightarrow> unat ((a :: u64) * b) = unat a * unat b"
  by (simp add: unat_word_ariths)

lemma unat_sub_u64: "b \<le> a \<Longrightarrow> unat ((a :: u64) - b) = unat a - unat b"
  by (simp add: unat_sub)

lemma checked_add_Some:
  "(checked_add a b = Some c) = (unat c = unat a + unat b)"
proof
  assume "checked_add a b = Some c"
  then show "unat c = unat a + unat b"
    by (auto simp: checked_add_def unat_add_u64 split: if_splits)
next
  assume h: "unat c = unat a + unat b"
  then have lt: "unat a + unat b < 2 ^ 64"
    using unat_u64_less [of c] by simp
  then have "unat (a + b) = unat c"
    using h by (simp add: unat_add_u64)
  then show "checked_add a b = Some c"
    using lt by (simp add: checked_add_def word_unat_eq_iff)
qed

lemma checked_add_None: "(checked_add a b = None) = (2 ^ 64 \<le> unat a + unat b)"
  by (simp add: checked_add_def not_less)

lemma checked_sub_Some:
  "(checked_sub a b = Some c) = (unat b \<le> unat a \<and> unat c = unat a - unat b)"
proof -
  have "b \<le> a \<Longrightarrow> (a - b = c) = (unat c = unat a - unat b)"
    using unat_sub_u64 [of b a] by (metis word_unat_eq_iff)
  then show ?thesis
    by (auto simp: checked_sub_def word_le_nat_alt split: if_splits)
qed

lemma checked_mul_Some:
  "(checked_mul a b = Some c) = (unat c = unat a * unat b)"
proof
  assume "checked_mul a b = Some c"
  then show "unat c = unat a * unat b"
    by (auto simp: checked_mul_def unat_mult_u64 split: if_splits)
next
  assume h: "unat c = unat a * unat b"
  then have lt: "unat a * unat b < 2 ^ 64"
    using unat_u64_less [of c] by simp
  then have "unat (a * b) = unat c"
    using h by (simp add: unat_mult_u64)
  then show "checked_mul a b = Some c"
    using lt by (simp add: checked_mul_def word_unat_eq_iff)
qed

section \<open>Mask arithmetic\<close>

text \<open>
  \<open>PageSize\<close> and \<open>HwMemMap\<close> align with the same three bit tricks, on a size
  that is a power of two.
\<close>

definition bits_is_aligned :: "u64 \<Rightarrow> u64 \<Rightarrow> bool" where
  "bits_is_aligned sz val = (val AND (sz - 1) = 0)"

definition bits_round_up :: "u64 \<Rightarrow> u64 \<Rightarrow> u64" where
  "bits_round_up sz val = (val + sz - 1) AND NOT (sz - 1)"

definition bits_round_down :: "u64 \<Rightarrow> u64 \<Rightarrow> u64" where
  "bits_round_down sz val = val AND NOT (sz - 1)"

lemma and_exp_minus_1: "unat (x AND (2 ^ k - 1) :: u64) = unat x mod 2 ^ k"
proof -
  have "x AND (2 ^ k - 1) = take_bit k x"
    by (simp add: take_bit_eq_mask mask_eq_exp_minus_1)
  then have "unat (x AND (2 ^ k - 1)) = take_bit k (unat x)"
    by (simp only: unsigned_take_bit_eq)
  then show ?thesis
    by (simp only: take_bit_eq_mod)
qed

lemma and_not_eq_minus: "(x :: u64) AND NOT y = x - (x AND y)"
proof -
  have "(x AND NOT y) + (x AND y) = (x AND NOT y) OR (x AND y)"
    by (rule disjunctive_add) (auto simp: bit_simps)
  also have "\<dots> = x"
    by (rule bit_eqI) (auto simp: bit_simps)
  finally show ?thesis
    by (simp add: algebra_simps)
qed

text \<open>The contract of an alignment: the size is a power of two below the word size.\<close>

locale pow2_size =
  fixes sz :: u64 and k :: nat
  assumes sz_eq: "sz = 2 ^ k" and k_less: "k < 64"
begin

lemma unat_sz: "unat sz = 2 ^ k"
proof -
  have "unat (of_nat (2 ^ k) :: u64) = 2 ^ k mod 2 ^ 64"
    by (simp only: unat_of_nat) simp
  moreover have "(2 :: nat) ^ k < 2 ^ 64"
    using k_less by (rule power_strict_increasing) simp
  ultimately show ?thesis
    by (simp add: sz_eq)
qed

lemma sz_pos: "0 < unat sz"
  by (simp add: unat_sz)

lemma is_aligned_iff: "bits_is_aligned sz x = (unat sz dvd unat x)"
proof -
  have "(x AND (2 ^ k - 1) = 0) = (unat (x AND (2 ^ k - 1)) = 0)"
    by (metis unat_eq_zero)
  then show ?thesis
    by (simp add: bits_is_aligned_def sz_eq and_exp_minus_1 unat_sz [unfolded sz_eq]
        dvd_eq_mod_eq_0)
qed

lemma unat_round_down: "unat (bits_round_down sz x) = unat x div unat sz * unat sz"
proof -
  have le: "x AND (2 ^ k - 1) \<le> x"
    by (rule word_and_le2)
  have "unat (bits_round_down sz x) = unat x - unat x mod 2 ^ k"
    using le by (simp add: bits_round_down_def sz_eq and_not_eq_minus unat_sub and_exp_minus_1)
  then show ?thesis
    by (simp add: unat_sz minus_mod_eq_div_mult)
qed

lemma round_down_aligned: "bits_is_aligned sz (bits_round_down sz x)"
  by (simp add: is_aligned_iff unat_round_down)

lemma round_down_le: "bits_round_down sz x \<le> x"
  by (simp add: word_le_nat_alt unat_round_down)

lemma round_down_greatest:
  assumes "bits_is_aligned sz y" and "y \<le> x"
  shows "y \<le> bits_round_down sz x"
proof -
  from assms(1) obtain q where q: "unat y = unat sz * q"
    by (auto simp: is_aligned_iff dvd_def)
  with assms(2) have "q \<le> unat x div unat sz"
    by (simp add: word_le_nat_alt less_eq_div_iff_mult_less_eq sz_pos mult.commute)
  then show ?thesis
    by (simp add: word_le_nat_alt unat_round_down q mult.commute)
qed

lemma round_down_id: "bits_is_aligned sz x \<Longrightarrow> bits_round_down sz x = x"
  by (simp add: word_unat_eq_iff unat_round_down is_aligned_iff)

lemma round_up_eq: "bits_round_up sz x = bits_round_down sz (x + (sz - 1))"
  by (simp add: bits_round_up_def bits_round_down_def algebra_simps)

lemma unat_sz_minus_1: "unat (sz - 1) = unat sz - 1"
  using sz_pos by (simp add: unat_sub word_le_nat_alt Suc_le_eq)

lemma unat_round_up:
  assumes "unat x + unat sz - 1 < 2 ^ 64"
  shows "unat (bits_round_up sz x) = (unat x + unat sz - 1) div unat sz * unat sz"
proof -
  have "unat (x + (sz - 1)) = unat x + unat sz - 1"
    using assms sz_pos by (subst unat_add_u64) (auto simp: unat_sz_minus_1)
  then show ?thesis
    by (simp add: round_up_eq unat_round_down)
qed

lemma round_up_aligned: "bits_is_aligned sz (bits_round_up sz x)"
  by (simp add: round_up_eq round_down_aligned)

lemma round_up_ge:
  assumes "unat x + unat sz - 1 < 2 ^ 64"
  shows "x \<le> bits_round_up sz x"
proof -
  have "unat x + unat sz - 1 < unat sz + (unat x + unat sz - 1) div unat sz * unat sz"
    using dividend_less_div_times [OF sz_pos, of "unat x + unat sz - 1"] by simp
  then show ?thesis
    by (simp add: word_le_nat_alt unat_round_up [OF assms])
qed

lemma round_up_least:
  assumes "unat x + unat sz - 1 < 2 ^ 64" and "bits_is_aligned sz y" and "x \<le> y"
  shows "bits_round_up sz x \<le> y"
proof -
  from assms(2) obtain q where q: "unat y = unat sz * q"
    by (auto simp: is_aligned_iff dvd_def)
  with assms(3) have "unat x + unat sz - 1 < unat sz * Suc q"
    using sz_pos by (simp add: word_le_nat_alt)
  then have "(unat x + unat sz - 1) div unat sz < Suc q"
    by (simp add: div_less_iff_less_mult sz_pos mult.commute)
  then show ?thesis
    by (simp add: word_le_nat_alt unat_round_up [OF assms(1)] q mult.commute)
qed

lemma round_up_overflow:
  assumes "2 ^ 64 \<le> unat x + unat sz - 1"
  shows "bits_round_up sz x = 0"
proof -
  have x: "unat x < 2 ^ 64" and s: "unat sz < 2 ^ 64"
    by (rule unat_u64_less)+
  have "unat (x + (sz - 1)) = (unat x + (unat sz - 1)) mod 2 ^ 64"
    by (simp add: unat_word_ariths unat_sz_minus_1)
  also have "\<dots> = unat x + (unat sz - 1) - 2 ^ 64"
    using assms x s by (simp add: mod_if)
  finally have "unat (x + (sz - 1)) < unat sz"
    using x sz_pos assms by linarith
  then have "unat (bits_round_up sz x) = 0"
    by (simp add: round_up_eq unat_round_down)
  then show ?thesis
    by (simp add: unat_eq_zero)
qed

end

end
