(* ===== verification/Riscv_Pages.thy ===== *)
theory Riscv_Pages
  imports Salus_Prelude
begin

text \<open>
  The crate \<open>riscv-pages\<close>: page sizes, owner identifiers, address spaces, raw and
  page-aligned addresses, page frame numbers, address iterators and ranges
  (\<open>page.rs\<close>, \<open>page_owner_id.rs\<close>, \<open>memory_type.rs\<close>). Addresses are polymorphic in
  their address space, as in the source, so supervisor and guest addresses do
  not mix. \<open>u64\<close> arithmetic without a check wraps, as in the release build.
\<close>

section \<open>Page sizes\<close>

datatype page_size = Size4k | Size2M | Size1G | Size512G

fun page_size_bytes :: "page_size \<Rightarrow> u64" where
  "page_size_bytes Size4k = 4 * 1024"
| "page_size_bytes Size2M = 2 * 1024 * 1024"
| "page_size_bytes Size1G = 1024 * 1024 * 1024"
| "page_size_bytes Size512G = 512 * 1024 * 1024 * 1024"

definition num_4k_pages :: "u64 \<Rightarrow> u64" where
  "num_4k_pages val = (val + page_size_bytes Size4k - 1) div page_size_bytes Size4k"

definition page_size_is_aligned :: "page_size \<Rightarrow> u64 \<Rightarrow> bool" where
  "page_size_is_aligned s val = bits_is_aligned (page_size_bytes s) val"

definition page_size_round_up :: "page_size \<Rightarrow> u64 \<Rightarrow> u64" where
  "page_size_round_up s val = bits_round_up (page_size_bytes s) val"

definition page_size_round_down :: "page_size \<Rightarrow> u64 \<Rightarrow> u64" where
  "page_size_round_down s val = bits_round_down (page_size_bytes s) val"

definition is_huge :: "page_size \<Rightarrow> bool" where
  "is_huge s = (s \<noteq> Size4k)"

fun page_size_shift :: "page_size \<Rightarrow> nat" where
  "page_size_shift Size4k = 12"
| "page_size_shift Size2M = 21"
| "page_size_shift Size1G = 30"
| "page_size_shift Size512G = 39"

interpretation ps: pow2_size "page_size_bytes s" "page_size_shift s" for s
  by unfold_locales (cases s; simp)+

section \<open>Owners and memory types\<close>

datatype page_owner_id = PageOwnerId (owner_raw: u64)

definition HOST :: u64 where "HOST = 0"

definition HYPERVISOR :: u64 where "HYPERVISOR = 1"

definition page_owner_id_new :: "u64 \<Rightarrow> page_owner_id option" where
  "page_owner_id_new i = (if i = HOST \<or> i = HYPERVISOR then None else Some (PageOwnerId i))"

definition owner_host :: page_owner_id where
  "owner_host = PageOwnerId HOST"

definition owner_hypervisor :: page_owner_id where
  "owner_hypervisor = PageOwnerId HYPERVISOR"

definition is_host :: "page_owner_id \<Rightarrow> bool" where
  "is_host i = (owner_raw i = HOST)"

datatype device_mem_type = Imsic | PciConfig | PciBar | Uart | Reset

datatype mem_type = Ram | Mmio device_mem_type

section \<open>Address spaces and raw addresses\<close>

datatype supervisor_phys = SupervisorPhys

datatype supervisor_virt = SupervisorVirt

datatype guest_phys = GuestPhys page_owner_id

datatype guest_virt = GuestVirt page_owner_id

definition supervisor_phys_id :: "supervisor_phys \<Rightarrow> page_owner_id" where
  "supervisor_phys_id s = owner_hypervisor"

fun guest_phys_id :: "guest_phys \<Rightarrow> page_owner_id" where
  "guest_phys_id (GuestPhys i) = i"

definition guest_phys_new :: "page_owner_id \<Rightarrow> ('e, guest_phys) result" where
  "guest_phys_new i = (if i \<noteq> owner_hypervisor then Ok (GuestPhys i) else Panic)"

datatype 'as raw_addr = RawAddr (raw_bits: u64) (raw_space: 'as)

definition raw_supervisor :: "u64 \<Rightarrow> supervisor_phys raw_addr" where
  "raw_supervisor a = RawAddr a SupervisorPhys"

definition raw_supervisor_virt :: "u64 \<Rightarrow> supervisor_virt raw_addr" where
  "raw_supervisor_virt a = RawAddr a SupervisorVirt"

definition raw_guest :: "u64 \<Rightarrow> page_owner_id \<Rightarrow> ('e, guest_phys raw_addr) result" where
  "raw_guest a i = result_bind (guest_phys_new i) (\<lambda>g. Ok (RawAddr a g))"

definition raw_checked_increment :: "'as raw_addr \<Rightarrow> u64 \<Rightarrow> 'as raw_addr option" where
  "raw_checked_increment a inc =
     (case checked_add (raw_bits a) inc of
        None \<Rightarrow> None
      | Some b \<Rightarrow> Some (RawAddr b (raw_space a)))"

section \<open>Page frame numbers and page addresses\<close>

definition PFN_SHIFT :: nat where "PFN_SHIFT = 12"

definition PFN_BITS :: nat where "PFN_BITS = 44"

definition PFN_MASK :: u64 where "PFN_MASK = push_bit PFN_BITS 1 - 1"

datatype 'as pfn = Pfn (pfn_bits: u64) (pfn_space: 'as)

definition pfn_supervisor :: "u64 \<Rightarrow> supervisor_phys pfn" where
  "pfn_supervisor b = Pfn b SupervisorPhys"

datatype 'as page_addr = PageAddr (page_addr_raw: "'as raw_addr")

type_synonym supervisor_page_addr = "supervisor_phys page_addr"
type_synonym guest_page_addr = "guest_phys page_addr"

definition page_addr_bits :: "'as page_addr \<Rightarrow> u64" where
  "page_addr_bits a = raw_bits (page_addr_raw a)"

definition page_addr_with_alignment :: "'as raw_addr \<Rightarrow> page_size \<Rightarrow> 'as page_addr option" where
  "page_addr_with_alignment a s =
     (if page_size_is_aligned s (raw_bits a) then Some (PageAddr a) else None)"

definition page_addr_new :: "'as raw_addr \<Rightarrow> 'as page_addr option" where
  "page_addr_new a = page_addr_with_alignment a Size4k"

definition page_addr_from_pfn :: "'as pfn \<Rightarrow> page_size \<Rightarrow> 'as page_addr option" where
  "page_addr_from_pfn p s =
     page_addr_with_alignment (RawAddr (push_bit PFN_SHIFT (pfn_bits p)) (pfn_space p)) s"

definition page_addr_with_round_up :: "'as raw_addr \<Rightarrow> page_size \<Rightarrow> 'as page_addr" where
  "page_addr_with_round_up a s =
     PageAddr (RawAddr (page_size_round_up s (raw_bits a)) (raw_space a))"

definition page_addr_with_round_down :: "'as raw_addr \<Rightarrow> page_size \<Rightarrow> 'as page_addr" where
  "page_addr_with_round_down a s =
     PageAddr (RawAddr (page_size_round_down s (raw_bits a)) (raw_space a))"

definition page_addr_is_aligned :: "'as page_addr \<Rightarrow> page_size \<Rightarrow> bool" where
  "page_addr_is_aligned a s = page_size_is_aligned s (page_addr_bits a)"

definition page_addr_pfn :: "'as page_addr \<Rightarrow> 'as pfn" where
  "page_addr_pfn a =
     Pfn (drop_bit PFN_SHIFT (page_addr_bits a) AND PFN_MASK) (raw_space (page_addr_raw a))"

text \<open>\<open>impl From<PageAddr> for Pfn\<close>, which does not mask.\<close>

definition pfn_from_page_addr :: "'as page_addr \<Rightarrow> 'as pfn" where
  "pfn_from_page_addr a =
     Pfn (drop_bit PFN_SHIFT (page_addr_bits a)) (raw_space (page_addr_raw a))"

definition checked_add_pages_with_size ::
    "'as page_addr \<Rightarrow> u64 \<Rightarrow> page_size \<Rightarrow> 'as page_addr option" where
  "checked_add_pages_with_size a n s =
     Option.bind (checked_mul n (page_size_bytes s))
       (\<lambda>inc. Option.bind (raw_checked_increment (page_addr_raw a) inc)
         (\<lambda>b. page_addr_with_alignment b s))"

definition checked_add_pages :: "'as page_addr \<Rightarrow> u64 \<Rightarrow> 'as page_addr option" where
  "checked_add_pages a n = checked_add_pages_with_size a n Size4k"

definition page_addr_index :: "'as page_addr \<Rightarrow> nat" where
  "page_addr_index a = unat (pfn_bits (page_addr_pfn a))"

text \<open>\<open>PartialOrd\<close> on addresses compares the bits only.\<close>

definition page_addr_lt :: "'as page_addr \<Rightarrow> 'as page_addr \<Rightarrow> bool" where
  "page_addr_lt a b = (page_addr_bits a < page_addr_bits b)"

definition page_addr_le :: "'as page_addr \<Rightarrow> 'as page_addr \<Rightarrow> bool" where
  "page_addr_le a b = (page_addr_bits a \<le> page_addr_bits b)"

text \<open>The promise of the type: a page address is aligned to 4kB.\<close>

definition page_addr_wf :: "'as page_addr \<Rightarrow> bool" where
  "page_addr_wf a = page_addr_is_aligned a Size4k"

section \<open>Iterators over page addresses\<close>

record 'as page_addr_iter =
  iter_next :: "'as page_addr option"
  iter_increment :: page_size

definition page_addr_iter_new :: "'as page_addr \<Rightarrow> page_size \<Rightarrow> 'as page_addr_iter option" where
  "page_addr_iter_new start inc =
     (case page_addr_with_alignment (page_addr_raw start) inc of
        None \<Rightarrow> None
      | Some n \<Rightarrow> Some \<lparr>iter_next = Some n, iter_increment = inc\<rparr>)"

definition page_addr_iter_step ::
    "'as page_addr_iter \<Rightarrow> 'as page_addr option \<times> 'as page_addr_iter" where
  "page_addr_iter_step it =
     (iter_next it,
      case iter_next it of
        None \<Rightarrow> it
      | Some n \<Rightarrow> it\<lparr>iter_next := checked_add_pages_with_size n 1 (iter_increment it)\<rparr>)"

text \<open>\<open>iter.take(n)\<close>, collected: it stops early when the iterator is exhausted.\<close>

fun page_addr_iter_take :: "nat \<Rightarrow> 'as page_addr_iter \<Rightarrow> 'as page_addr list" where
  "page_addr_iter_take 0 it = []"
| "page_addr_iter_take (Suc n) it =
     (case page_addr_iter_step it of
        (None, _) \<Rightarrow> []
      | (Some a, it') \<Rightarrow> a # page_addr_iter_take n it')"

definition page_addr_iter_from :: "'as page_addr \<Rightarrow> ('e, 'as page_addr_iter) result" where
  "page_addr_iter_from a = unwrap_option (page_addr_iter_new a Size4k)"

record 'as page_addr_range =
  range_base :: "'as page_addr"
  range_page_size :: page_size
  range_num_pages :: u64

definition page_addr_range_new :: "'as page_addr \<Rightarrow> u64 \<Rightarrow> 'as page_addr_range" where
  "page_addr_range_new b n = \<lparr>range_base = b, range_page_size = Size4k, range_num_pages = n\<rparr>"

definition page_addr_range_with_size ::
    "'as page_addr \<Rightarrow> u64 \<Rightarrow> page_size \<Rightarrow> 'as page_addr_range option" where
  "page_addr_range_with_size b n s =
     (if \<not> page_addr_is_aligned b s then None
      else Some \<lparr>range_base = b, range_page_size = s, range_num_pages = n\<rparr>)"

definition page_addr_range_length_bytes :: "'as page_addr_range \<Rightarrow> u64" where
  "page_addr_range_length_bytes r = range_num_pages r * page_size_bytes (range_page_size r)"

text \<open>
  \<open>PageAddrRange::next\<close>. The \<open>?\<close> on the increment makes the iterator end before
  a page whose successor overflows the address space.
\<close>

definition page_addr_range_step ::
    "'as page_addr_range \<Rightarrow> 'as page_addr option \<times> 'as page_addr_range" where
  "page_addr_range_step r =
     (if range_num_pages r = 0 then (None, r)
      else (case checked_add_pages_with_size (range_base r) 1 (range_page_size r) of
              None \<Rightarrow> (None, r)
            | Some b \<Rightarrow> (Some (range_base r),
                         r\<lparr>range_base := b, range_num_pages := range_num_pages r - 1\<rparr>)))"

lemma page_addr_range_step_less:
  "page_addr_range_step r = (Some a, r') \<Longrightarrow> unat (range_num_pages r') < unat (range_num_pages r)"
  by (auto simp: page_addr_range_step_def measure_unat split: if_splits option.splits)

function page_addr_range_list :: "'as page_addr_range \<Rightarrow> 'as page_addr list" where
  "page_addr_range_list r =
     (case page_addr_range_step r of
        (None, _) \<Rightarrow> []
      | (Some a, r') \<Rightarrow> a # page_addr_range_list r')"
  by pat_completeness auto
termination
  by (relation "measure (\<lambda>r. unat (range_num_pages r))")
     (auto intro: page_addr_range_step_less sym)

declare page_addr_range_list.simps [simp del]

section \<open>Addresses as natural numbers\<close>

text \<open>
  The proofs read a page address as the natural number of its bits; two addresses
  of one address space with the same number are equal.
\<close>

definition addr_nat :: "'as page_addr \<Rightarrow> nat" where
  "addr_nat a = unat (page_addr_bits a)"

definition addr_space :: "'as page_addr \<Rightarrow> 'as" where
  "addr_space a = raw_space (page_addr_raw a)"

definition bytes_nat :: "page_size \<Rightarrow> nat" where
  "bytes_nat s = unat (page_size_bytes s)"

lemma bytes_nat_simps [simp]:
  "bytes_nat Size4k = 4096" "bytes_nat Size2M = 2097152"
  "bytes_nat Size1G = 1073741824" "bytes_nat Size512G = 549755813888"
  by (simp_all add: bytes_nat_def)

lemma bytes_nat_pos [simp]: "0 < bytes_nat s"
  by (cases s) simp_all

lemma addr_nat_less [simp]: "addr_nat a < 2 ^ 64"
  unfolding addr_nat_def by (rule unat_u64_less)

lemma addr_nat_PageAddr [simp]: "addr_nat (PageAddr r) = unat (raw_bits r)"
  by (simp add: addr_nat_def page_addr_bits_def)

lemma addr_space_PageAddr [simp]: "addr_space (PageAddr r) = raw_space r"
  by (simp add: addr_space_def)

lemma page_addr_eq_iff: "a = b \<longleftrightarrow> addr_nat a = addr_nat b \<and> addr_space a = addr_space b"
proof -
  obtain x s y t where "a = PageAddr (RawAddr x s)" and "b = PageAddr (RawAddr y t)"
    by (metis page_addr.exhaust raw_addr.exhaust)
  then show ?thesis
    by (simp add: word_unat_eq_iff)
qed

lemma supervisor_addr_eq_iff: "(a :: supervisor_page_addr) = b \<longleftrightarrow> addr_nat a = addr_nat b"
  using supervisor_phys.exhaust by (metis page_addr_eq_iff)

lemma page_size_is_aligned_iff [align_simps]:
  "page_size_is_aligned s x = (bytes_nat s dvd unat x)"
  by (simp add: page_size_is_aligned_def ps.is_aligned_iff bytes_nat_def)

lemma page_addr_is_aligned_iff [align_simps]:
  "page_addr_is_aligned a s = (bytes_nat s dvd addr_nat a)"
  by (simp add: page_addr_is_aligned_def page_size_is_aligned_iff addr_nat_def)

lemma page_addr_wf_iff [align_simps]: "page_addr_wf a = (4096 dvd addr_nat a)"
  by (simp add: page_addr_wf_def page_addr_is_aligned_iff)

lemma page_addr_lt_iff [align_simps]: "page_addr_lt a b = (addr_nat a < addr_nat b)"
  by (simp add: page_addr_lt_def addr_nat_def word_less_nat_alt)

lemma page_addr_le_iff [align_simps]: "page_addr_le a b = (addr_nat a \<le> addr_nat b)"
  by (simp add: page_addr_le_def addr_nat_def word_le_nat_alt)

lemma page_size_round_down_dvd: "bytes_nat s dvd unat (page_size_round_down s x)"
  using ps.round_down_aligned [of s x]
  unfolding page_size_round_down_def ps.is_aligned_iff bytes_nat_def .

lemma page_size_round_up_dvd: "bytes_nat s dvd unat (page_size_round_up s x)"
  using ps.round_up_aligned [of s x]
  unfolding page_size_round_up_def ps.is_aligned_iff bytes_nat_def .

lemma size4k_dvd: "4096 dvd bytes_nat s"
  by (cases s) simp_all

lemma aligned_imp_wf: "page_addr_is_aligned a s \<Longrightarrow> page_addr_wf a"
  using size4k_dvd dvd_trans by (auto simp: align_simps)

lemma page_addr_new_Some:
  "(page_addr_new r = Some a) = (4096 dvd unat (raw_bits r) \<and> a = PageAddr r)"
  by (auto simp: page_addr_new_def page_addr_with_alignment_def page_size_is_aligned_iff)

lemma raw_checked_increment_Some:
  "(raw_checked_increment a inc = Some b) =
   (unat (raw_bits b) = unat (raw_bits a) + unat inc \<and> raw_space b = raw_space a)"
proof (cases "checked_add (raw_bits a) inc")
  case None
  then have "2 ^ 64 \<le> unat (raw_bits a) + unat inc"
    by (simp only: checked_add_None)
  then have "unat (raw_bits b) \<noteq> unat (raw_bits a) + unat inc"
    using unat_u64_less [of "raw_bits b"] by linarith
  with None show ?thesis
    by (simp add: raw_checked_increment_def)
next
  case (Some c)
  then have "unat c = unat (raw_bits a) + unat inc"
    by (simp only: checked_add_Some)
  with Some show ?thesis
    by (cases b) (auto simp: raw_checked_increment_def word_unat_eq_iff)
qed

lemma with_alignment_Some:
  "(page_addr_with_alignment r s = Some b) = (page_addr_raw b = r \<and> page_addr_is_aligned b s)"
  by (cases b) (auto simp: page_addr_with_alignment_def page_addr_is_aligned_def page_addr_bits_def)

lemma checked_add_pages_with_size_Some:
  "(checked_add_pages_with_size a n s = Some b) =
   (addr_nat b = addr_nat a + unat n * bytes_nat s \<and> addr_space b = addr_space a
    \<and> page_addr_is_aligned b s)" (is "?L = ?R")
proof
  assume ?L
  then obtain inc where "unat inc = unat n * bytes_nat s"
    and "raw_checked_increment (page_addr_raw a) inc = Some (page_addr_raw b)"
    and "page_addr_is_aligned b s"
    by (auto simp: checked_add_pages_with_size_def Option.bind_eq_Some_conv with_alignment_Some
        checked_mul_Some bytes_nat_def)
  then show ?R
    by (simp add: raw_checked_increment_Some addr_nat_def addr_space_def page_addr_bits_def)
next
  assume r: ?R
  define inc where "inc = (word_of_nat (unat n * bytes_nat s) :: u64)"
  have "unat n * bytes_nat s < 2 ^ 64"
    using r addr_nat_less [of b] by linarith
  then have inc: "unat inc = unat n * bytes_nat s"
    unfolding inc_def by (rule unat_of_nat_u64)
  then have "checked_mul n (page_size_bytes s) = Some inc"
    by (simp add: checked_mul_Some bytes_nat_def)
  moreover have "raw_checked_increment (page_addr_raw a) inc = Some (page_addr_raw b)"
    using r inc by (simp add: raw_checked_increment_Some addr_nat_def addr_space_def
        page_addr_bits_def)
  moreover have "page_addr_with_alignment (page_addr_raw b) s = Some b"
    using r by (simp add: with_alignment_Some)
  ultimately show ?L
    by (simp add: checked_add_pages_with_size_def)
qed

lemma checked_add_pages_with_size_fits:
  assumes "page_addr_is_aligned a s" and "addr_nat a + unat n * bytes_nat s < 2 ^ 64"
  obtains b where "checked_add_pages_with_size a n s = Some b"
    and "addr_nat b = addr_nat a + unat n * bytes_nat s" and "addr_space b = addr_space a"
    and "page_addr_is_aligned b s"
proof -
  define t where "t = addr_nat a + unat n * bytes_nat s"
  define b where "b = PageAddr (RawAddr (word_of_nat t) (addr_space a))"
  have "t < 2 ^ 64"
    unfolding t_def by (rule assms(2))
  then have n: "addr_nat b = t"
    unfolding b_def by (simp only: addr_nat_PageAddr raw_addr.sel unat_of_nat_u64)
  have al: "page_addr_is_aligned b s"
    using assms(1) by (simp add: page_addr_is_aligned_iff n t_def)
  have sp: "addr_space b = addr_space a"
    by (simp add: b_def)
  show ?thesis
    using that [of b] n al sp by (simp add: checked_add_pages_with_size_Some t_def)
qed

lemma checked_add_pages_with_size_None:
  assumes "page_addr_is_aligned a s"
  shows "(checked_add_pages_with_size a n s = None) =
         (2 ^ 64 \<le> addr_nat a + unat n * bytes_nat s)"
proof (cases "addr_nat a + unat n * bytes_nat s < 2 ^ 64")
  case True
  with assms obtain b where "checked_add_pages_with_size a n s = Some b"
    by (rule checked_add_pages_with_size_fits)
  with True show ?thesis
    by simp
next
  case False
  have "checked_add_pages_with_size a n s \<noteq> Some b" for b
    using False addr_nat_less [of b] unfolding checked_add_pages_with_size_Some by linarith
  with False show ?thesis
    by (metis not_less option.exhaust)
qed

section \<open>What the iterators enumerate\<close>

lemma bytes_dvd_2p64: "bytes_nat s dvd 2 ^ 64"
  by (cases s) simp_all

lemma map_upt_Suc_shift: "map f [0..<Suc m] = f 0 # map (\<lambda>i. f (Suc i)) [0..<m]"
  by (simp only: upt_conv_Cons zero_less_Suc map_Suc_upt [symmetric] map_map list.map comp_def)

lemma page_addr_iter_take_None [simp]:
  "iter_next it = None \<Longrightarrow> page_addr_iter_take n it = []"
  by (cases n) (simp_all add: page_addr_iter_step_def)

lemma page_addr_iter_take_Some:
  "page_addr_iter_take (Suc n) \<lparr>iter_next = Some a, iter_increment = s\<rparr> =
   a # page_addr_iter_take n \<lparr>iter_next = checked_add_pages_with_size a 1 s, iter_increment = s\<rparr>"
  by (simp add: page_addr_iter_step_def)

lemma iter_take_addr_nat:
  "page_addr_is_aligned a s \<Longrightarrow>
   map addr_nat (page_addr_iter_take n \<lparr>iter_next = Some a, iter_increment = s\<rparr>) =
   map (\<lambda>i. addr_nat a + i * bytes_nat s)
     [0..<min n ((2 ^ 64 - addr_nat a) div bytes_nat s)]"
proof (induction n arbitrary: a)
  case 0
  then show ?case by simp
next
  case (Suc n)
  let ?d = "2 ^ 64 - addr_nat a"
  have dvd: "bytes_nat s dvd ?d"
    using Suc.prems bytes_dvd_2p64 by (simp only: page_addr_is_aligned_iff dvd_diff_nat)
  have pos: "0 < ?d"
    using addr_nat_less [of a] by linarith
  show ?case
  proof (cases "addr_nat a + bytes_nat s < 2 ^ 64")
    case True
    obtain b where b: "checked_add_pages_with_size a 1 s = Some b"
      "addr_nat b = addr_nat a + bytes_nat s" "page_addr_is_aligned b s"
      using checked_add_pages_with_size_fits [OF Suc.prems, of 1] True by auto
    have "?d div bytes_nat s = Suc ((2 ^ 64 - addr_nat b) div bytes_nat s)"
      using True b(2) by (simp add: div_if)
    moreover note Suc.IH [OF b(3)]
    ultimately show ?thesis
      by (simp only: page_addr_iter_take_Some b(1) list.map min_Suc_Suc map_upt_Suc_shift)
         (simp add: b(2) algebra_simps)
  next
    case False
    then have "checked_add_pages_with_size a 1 s = None"
      using Suc.prems by (simp add: checked_add_pages_with_size_None)
    moreover have "?d = bytes_nat s"
      using dvd_imp_le [OF dvd pos] False by linarith
    ultimately show ?thesis
      by (simp only: page_addr_iter_take_Some) simp
  qed
qed

text \<open>
  C30: the address iterator started at an aligned page yields exactly the
  addresses base, base + size, base + 2 * size, ... in order, and it ends
  exactly where the next address would leave the 64-bit address space: taking
  \<open>n\<close> of them gives the smaller of \<open>n\<close> and the number of pages up to the end.
\<close>

theorem page_addr_iter_enumerates:
  assumes "page_addr_iter_new a s = Some it"
  shows "map addr_nat (page_addr_iter_take n it) =
         map (\<lambda>i. addr_nat a + i * bytes_nat s)
           [0..<min n ((2 ^ 64 - addr_nat a) div bytes_nat s)]"
proof -
  from assms have "page_addr_is_aligned a s"
    and "it = \<lparr>iter_next = Some a, iter_increment = s\<rparr>"
    by (auto simp: page_addr_iter_new_def page_addr_with_alignment_def page_addr_is_aligned_def
        page_addr_bits_def split: option.splits if_splits)
  then show ?thesis
    by (simp only: iter_take_addr_nat)
qed

theorem page_addr_iter_enumerates_witness:
  "page_addr_iter_new (PageAddr (raw_supervisor (- 0x2000))) Size4k
     = Some \<lparr>iter_next = Some (PageAddr (raw_supervisor (- 0x2000))), iter_increment = Size4k\<rparr>
   \<and> map addr_nat (page_addr_iter_take 5
       \<lparr>iter_next = Some (PageAddr (raw_supervisor (- 0x2000))), iter_increment = Size4k\<rparr>)
     = [0xffffffffffffe000, 0xfffffffffffff000]"
proof -
  let ?a = "PageAddr (raw_supervisor (- 0x2000))"
  let ?it = "\<lparr>iter_next = Some ?a, iter_increment = Size4k\<rparr>"
  have h: "page_addr_iter_new ?a Size4k = Some ?it"
    by (simp add: page_addr_iter_new_def page_addr_with_alignment_def raw_supervisor_def
        page_size_is_aligned_iff)
  have "addr_nat ?a = 0xffffffffffffe000"
    by (simp add: raw_supervisor_def)
  then have "map addr_nat (page_addr_iter_take 5 ?it) = [0xffffffffffffe000, 0xfffffffffffff000]"
    using page_addr_iter_enumerates [OF h, of 5] by (simp add: upt_rec)
  with h show ?thesis
    by simp
qed

section \<open>Rounding\<close>

text \<open>
  Rounding to a page size is exact. Rounding down gives the greatest aligned
  value not above the argument; rounding up gives the least aligned value not
  below it whenever that value is representable; and an unaligned value within one page of
  the top of the address space is rounded up to zero, because the addition wraps.
\<close>

theorem page_size_rounding:
  "page_size_is_aligned s (page_size_round_down s x) \<and> page_size_round_down s x \<le> x
   \<and> (\<forall>y. page_size_is_aligned s y \<and> y \<le> x \<longrightarrow> y \<le> page_size_round_down s x)
   \<and> page_size_is_aligned s (page_size_round_up s x)
   \<and> (if unat x + bytes_nat s - 1 < 2 ^ 64
      then x \<le> page_size_round_up s x
           \<and> (\<forall>y. page_size_is_aligned s y \<and> x \<le> y \<longrightarrow> page_size_round_up s x \<le> y)
      else page_size_round_up s x = 0)"
proof (cases "unat x + bytes_nat s - 1 < 2 ^ 64")
  case True
  then show ?thesis
    by (simp add: page_size_is_aligned_def page_size_round_down_def page_size_round_up_def
        ps.round_down_aligned ps.round_down_le ps.round_down_greatest ps.round_up_aligned
        ps.round_up_ge ps.round_up_least bytes_nat_def)
next
  case False
  have "page_size_round_up s x = 0"
    using False by (simp add: page_size_round_up_def bytes_nat_def ps.round_up_overflow)
  moreover have "page_size_is_aligned s 0"
    by (simp add: page_size_is_aligned_iff)
  ultimately show ?thesis
    using False by (simp add: page_size_is_aligned_def page_size_round_down_def
        ps.round_down_aligned ps.round_down_le ps.round_down_greatest)
qed

theorem page_size_rounding_witness:
  "page_size_round_up Size4k 8000 = 8192 \<and> page_size_round_down Size4k 8000 = 4096
   \<and> page_size_round_up Size4k (- 1) = 0 \<and> (8000 :: u64) \<le> page_size_round_up Size4k 8000"
proof -
  have "(8000 :: u64) \<le> page_size_round_up Size4k 8000"
    using page_size_rounding [of Size4k 8000] by simp
  then show ?thesis
    by (simp add: page_size_round_up_def page_size_round_down_def bits_round_up_def
        bits_round_down_def)
qed

section \<open>Frame numbers\<close>

lemma unat_drop_bit_u64: "unat (drop_bit n x :: u64) = unat x div 2 ^ n"
  unfolding unat_drop_bit_eq by (rule drop_bit_eq_div)

lemma PFN_MASK_eq: "PFN_MASK = 2 ^ 44 - 1"
  by (simp add: PFN_MASK_def PFN_BITS_def push_bit_eq_mult)

lemma page_addr_index_eq: "page_addr_index a = addr_nat a div 4096 mod 2 ^ 44"
  by (simp only: page_addr_index_def page_addr_pfn_def pfn.sel PFN_MASK_eq and_exp_minus_1
      unat_drop_bit_u64 PFN_SHIFT_def addr_nat_def) simp

lemma unat_push_bit_u64:
  assumes "unat x * 2 ^ n < 2 ^ 64"
  shows "unat (push_bit n x :: u64) = unat x * 2 ^ n"
proof -
  have "push_bit n x = word_of_nat (unat x * 2 ^ n)"
    by (simp add: push_bit_eq_mult)
  then show ?thesis
    using unat_of_nat_u64 [OF assms] by simp
qed

lemma page_addr_from_pfn_Some:
  assumes "unat (pfn_bits p) < 2 ^ 52"
  shows "(page_addr_from_pfn p s = Some a) =
         (addr_nat a = unat (pfn_bits p) * 4096 \<and> addr_space a = pfn_space p
          \<and> page_addr_is_aligned a s)"
proof -
  have "unat (pfn_bits p) * 2 ^ 12 < 2 ^ 64"
    using assms by simp
  then have "unat (push_bit 12 (pfn_bits p)) = unat (pfn_bits p) * 2 ^ 12"
    by (rule unat_push_bit_u64)
  then have n: "unat (push_bit 12 (pfn_bits p)) = unat (pfn_bits p) * 4096"
    by simp
  obtain x sp where a: "a = PageAddr (RawAddr x sp)"
    by (metis page_addr.exhaust raw_addr.exhaust)
  show ?thesis
    using n by (auto simp: page_addr_from_pfn_def with_alignment_Some a PFN_SHIFT_def
        word_unat_eq_iff)
qed

text \<open>
  A 4kB-aligned address below \<open>2 ^ 56\<close> (the reach of a 44-bit frame number)
  survives the round trip through its frame number, and its index in the page
  map is the address divided by the page size.
\<close>

theorem pfn_roundtrip:
  assumes "page_addr_wf a" and "addr_nat a < 2 ^ 56"
  shows "page_addr_from_pfn (page_addr_pfn a) Size4k = Some a
         \<and> pfn_from_page_addr a = page_addr_pfn a
         \<and> page_addr_index a * 4096 = addr_nat a"
proof -
  have idx: "page_addr_index a = addr_nat a div 4096"
    using assms(2) by (simp add: page_addr_index_eq)
  have bits: "unat (pfn_bits (page_addr_pfn a)) = addr_nat a div 4096"
    using idx by (simp add: page_addr_index_def)
  have mult: "addr_nat a div 4096 * 4096 = addr_nat a"
    using assms(1) by (simp add: align_simps)
  have "pfn_bits (pfn_from_page_addr a) = pfn_bits (page_addr_pfn a)"
    unfolding word_unat_eq_iff bits
    by (simp only: pfn_from_page_addr_def pfn.sel unat_drop_bit_u64 PFN_SHIFT_def addr_nat_def) simp
  then have "pfn_from_page_addr a = page_addr_pfn a"
    by (simp add: pfn_from_page_addr_def page_addr_pfn_def)
  moreover have "unat (pfn_bits (page_addr_pfn a)) < 2 ^ 52"
    using assms(2) by (simp add: bits less_mult_imp_div_less)
  then have "page_addr_from_pfn (page_addr_pfn a) Size4k = Some a"
    using assms(1) mult
    by (simp add: page_addr_from_pfn_Some bits page_addr_wf_def)
       (simp add: page_addr_pfn_def addr_space_def)
  ultimately show ?thesis
    using idx mult by simp
qed

theorem pfn_roundtrip_witness:
  "page_addr_wf (PageAddr (raw_supervisor 0x80200000))
   \<and> page_addr_from_pfn (page_addr_pfn (PageAddr (raw_supervisor 0x80200000))) Size4k
       = Some (PageAddr (raw_supervisor 0x80200000))
   \<and> page_addr_index (PageAddr (raw_supervisor 0x80200000)) = 0x80200"
proof -
  let ?a = "PageAddr (raw_supervisor 0x80200000)"
  have wf: "page_addr_wf ?a" and lt: "addr_nat ?a < 2 ^ 56"
    by (simp_all add: align_simps raw_supervisor_def)
  show ?thesis
    using wf pfn_roundtrip [OF wf lt] by (simp add: raw_supervisor_def)
qed

end
