(* ===== verification/Page_Types.thy ===== *)
theory Page_Types
  imports Riscv_Pages
begin

text \<open>
  Pages of RAM in motion (\<open>state.rs\<close>, and \<open>Page\<close> in \<open>page.rs\<close>): the type-states of a
  page with the traits each implements, physical memory, and the operations that
  read, clean and initialise a page. Memory is a function from the address of an
  aligned 8-byte cell to its value; the contents of a page are its cells. A
  type-state is a field of the model's page, and an operation whose trait bound the
  state does not meet, which the compiler rejects, is \<open>None\<close>.
\<close>

section \<open>Type-states and traits\<close>

datatype measure_requirement = MeasureRequired | MeasureOptional

datatype page_typestate =
    StInvalidated | StConvertedDirty | StConvertedClean | StConvertedInitialized
  | StMappableClean | StMappableInitialized | StInternalClean | StInternalDirty
  | StMappableShared | StShareable

fun trait_mappable :: "measure_requirement \<Rightarrow> page_typestate \<Rightarrow> bool" where
  "trait_mappable MeasureOptional s = (s = StMappableClean \<or> s = StMappableShared)"
| "trait_mappable MeasureRequired s = (s = StMappableInitialized)"

definition trait_converted :: "page_typestate \<Rightarrow> bool" where
  "trait_converted s =
     (s = StConvertedDirty \<or> s = StConvertedClean \<or> s = StConvertedInitialized)"

text \<open>\<open>Assignable<M>\<close> with its associated type \<open>Mappable\<close>.\<close>

fun trait_assignable :: "measure_requirement \<Rightarrow> page_typestate \<Rightarrow> page_typestate option" where
  "trait_assignable MeasureOptional StConvertedClean = Some StMappableClean"
| "trait_assignable MeasureRequired StConvertedInitialized = Some StMappableInitialized"
| "trait_assignable _ _ = None"

definition trait_internal_data :: "page_typestate \<Rightarrow> bool" where
  "trait_internal_data s = (s = StInternalClean \<or> s = StInternalDirty)"

text \<open>\<open>Cleanable\<close> with its associated type \<open>Cleaned\<close>.\<close>

fun trait_cleanable :: "page_typestate \<Rightarrow> page_typestate option" where
  "trait_cleanable StConvertedDirty = Some StConvertedClean"
| "trait_cleanable StInternalDirty = Some StInternalClean"
| "trait_cleanable _ = None"

definition trait_initializable :: "page_typestate \<Rightarrow> bool" where
  "trait_initializable s = (s = StConvertedDirty \<or> s = StConvertedClean)"

text \<open>\<open>ReclaimablePhysPage\<close> and \<open>ShareablePhysPage\<close> with their \<open>MappablePage\<close>.\<close>

fun trait_reclaimable :: "page_typestate \<Rightarrow> page_typestate option" where
  "trait_reclaimable StConvertedClean = Some StMappableClean"
| "trait_reclaimable _ = None"

fun trait_shareable :: "page_typestate \<Rightarrow> page_typestate option" where
  "trait_shareable StShareable = Some StMappableShared"
| "trait_shareable _ = None"

section \<open>Pages and memory\<close>

type_synonym mem = "u64 \<Rightarrow> u64"

record page =
  page_base :: supervisor_page_addr
  page_len :: page_size
  page_typestate :: page_typestate

definition page_new_with_size ::
    "page_typestate \<Rightarrow> supervisor_page_addr \<Rightarrow> page_size \<Rightarrow> ('e, page) result" where
  "page_new_with_size st a s =
     (if page_addr_is_aligned a s
      then Ok \<lparr>page_base = a, page_len = s, page_typestate = st\<rparr> else Panic)"

definition page_new :: "page_typestate \<Rightarrow> supervisor_page_addr \<Rightarrow> ('e, page) result" where
  "page_new st a = page_new_with_size st a Size4k"

definition page_pfn :: "page \<Rightarrow> supervisor_phys pfn" where
  "page_pfn p = page_addr_pfn (page_base p)"

definition page_get_u64 :: "mem \<Rightarrow> page \<Rightarrow> u64 \<Rightarrow> u64 option" where
  "page_get_u64 m p index =
     (let offset = index * 8 in
      if offset \<ge> page_size_bytes (page_len p) then None
      else Some (m (page_addr_bits (page_base p) + offset)))"

text \<open>\<open>U64Iter\<close>: the page and the index of the next word.\<close>

record u64_iter =
  u64_iter_page :: page
  u64_iter_index :: u64

definition page_u64_iter :: "page \<Rightarrow> u64_iter" where
  "page_u64_iter p = \<lparr>u64_iter_page = p, u64_iter_index = 0\<rparr>"

definition u64_iter_next :: "mem \<Rightarrow> u64_iter \<Rightarrow> u64 option \<times> u64_iter" where
  "u64_iter_next m it =
     (page_get_u64 m (u64_iter_page it) (u64_iter_index it),
      it\<lparr>u64_iter_index := u64_iter_index it + 1\<rparr>)"

fun u64_iter_take :: "nat \<Rightarrow> mem \<Rightarrow> u64_iter \<Rightarrow> u64 list" where
  "u64_iter_take 0 m it = []"
| "u64_iter_take (Suc n) m it =
     (case u64_iter_next m it of
        (None, _) \<Rightarrow> []
      | (Some v, it') \<Rightarrow> v # u64_iter_take n m it')"

text \<open>The cells of the byte range \<open>[base, base + len)\<close>.\<close>

definition in_bytes :: "u64 \<Rightarrow> nat \<Rightarrow> u64 \<Rightarrow> bool" where
  "in_bytes base len a = (unat base \<le> unat a \<and> unat a < unat base + len)"

definition page_clean :: "mem \<Rightarrow> page \<Rightarrow> (page \<times> mem) option" where
  "page_clean m p =
     (case trait_cleanable (page_typestate p) of
        None \<Rightarrow> None
      | Some st \<Rightarrow>
          Some (p\<lparr>page_typestate := st\<rparr>,
                \<lambda>a. if in_bytes (page_addr_bits (page_base p))
                         (unat (page_size_bytes (page_len p))) a
                    then 0 else m a))"

text \<open>
  \<open>try_initialize\<close>: the callback gets the cells of the page and returns them with
  its verdict; what it wrote stays in memory in either case.
\<close>

definition page_try_initialize ::
    "((u64 \<Rightarrow> u64) \<Rightarrow> (u64 \<Rightarrow> u64) \<times> ('e, unit) result) \<Rightarrow> mem \<Rightarrow> page
     \<Rightarrow> (('e \<times> page, page) result \<times> mem) option" where
  "page_try_initialize func m p =
     (if \<not> trait_initializable (page_typestate p) then None
      else let (cells, r) = func m;
               m' = (\<lambda>a. if in_bytes (page_addr_bits (page_base p))
                              (unat (page_size_bytes (page_len p))) a
                         then cells a else m a)
           in Some (case r of
                      Ok _ \<Rightarrow> (Ok (p\<lparr>page_typestate := StConvertedInitialized\<rparr>), m')
                    | Err e \<Rightarrow> (Err (e, p\<lparr>page_typestate := StConvertedDirty\<rparr>), m')
                    | Panic \<Rightarrow> (Panic, m')))"

definition page_to_initialized_page :: "page \<Rightarrow> page option" where
  "page_to_initialized_page p =
     (if trait_initializable (page_typestate p)
      then Some (p\<lparr>page_typestate := StConvertedInitialized\<rparr>) else None)"

text \<open>A well-formed page is aligned to its size and lies inside the address space.\<close>

definition page_wf :: "page \<Rightarrow> bool" where
  "page_wf p = page_addr_is_aligned (page_base p) (page_len p)"

lemma page_new_wf: "page_new_with_size st a s = Ok p \<Longrightarrow> page_wf p"
  by (auto simp: page_new_with_size_def page_wf_def split: if_splits)

lemma page_wf_end: "page_wf p \<Longrightarrow> addr_nat (page_base p) + bytes_nat (page_len p) \<le> 2 ^ 64"
proof -
  assume "page_wf p"
  then have "bytes_nat (page_len p) dvd 2 ^ 64 - addr_nat (page_base p)"
    using bytes_dvd_2p64 by (simp only: page_wf_def page_addr_is_aligned_iff dvd_diff_nat)
  moreover have "0 < 2 ^ 64 - addr_nat (page_base p)"
    using addr_nat_less [of "page_base p"] by linarith
  ultimately have "bytes_nat (page_len p) \<le> 2 ^ 64 - addr_nat (page_base p)"
    by (rule dvd_imp_le)
  then show ?thesis
    using addr_nat_less [of "page_base p"] by linarith
qed

lemma page_get_u64_Some:
  assumes "page_wf p" and "i < bytes_nat (page_len p) div 8"
  shows "page_get_u64 m p (word_of_nat i) =
           Some (m (page_addr_bits (page_base p) + word_of_nat (i * 8)))"
    and "in_bytes (page_addr_bits (page_base p)) (bytes_nat (page_len p))
           (page_addr_bits (page_base p) + word_of_nat (i * 8))"
proof -
  have i8: "i * 8 < bytes_nat (page_len p)"
    using assms(2) by (cases "page_len p") auto
  have lt: "addr_nat (page_base p) + i * 8 < 2 ^ 64"
    using i8 page_wf_end [OF assms(1)] by linarith
  have off: "unat (word_of_nat (i * 8) :: u64) = i * 8"
    by (rule unat_of_nat_u64) (use lt in linarith)
  then have "word_of_nat (i * 8) < page_size_bytes (page_len p)"
    using i8 by (simp add: word_less_nat_alt bytes_nat_def)
  then show "page_get_u64 m p (word_of_nat i) =
           Some (m (page_addr_bits (page_base p) + word_of_nat (i * 8)))"
    by (simp add: page_get_u64_def Let_def mult.commute not_le [symmetric])
  have "unat (page_addr_bits (page_base p) + word_of_nat (i * 8)) = addr_nat (page_base p) + i * 8"
    using lt off by (subst unat_add_u64) (simp_all add: addr_nat_def)
  then show "in_bytes (page_addr_bits (page_base p)) (bytes_nat (page_len p))
           (page_addr_bits (page_base p) + word_of_nat (i * 8))"
    using i8 by (simp add: in_bytes_def addr_nat_def)
qed

text \<open>
  Cleaning a page leaves every word of it zero, changes no cell outside it,
  and moves the page to the clean type-state of its kind (converted or internal).
\<close>

theorem page_clean_zeroes:
  assumes "page_clean m p = Some (p', m')" and "page_wf p"
  shows "(\<forall>i < bytes_nat (page_len p) div 8. page_get_u64 m' p' (word_of_nat i) = Some 0)
         \<and> (\<forall>a. \<not> in_bytes (page_addr_bits (page_base p)) (bytes_nat (page_len p)) a
               \<longrightarrow> m' a = m a)
         \<and> page_base p' = page_base p \<and> page_len p' = page_len p
         \<and> page_typestate p' \<in> {StConvertedClean, StInternalClean}"
proof -
  from assms(1) obtain st where st: "trait_cleanable (page_typestate p) = Some st"
    and p': "p' = p\<lparr>page_typestate := st\<rparr>"
    and m': "m' = (\<lambda>a. if in_bytes (page_addr_bits (page_base p)) (bytes_nat (page_len p)) a
                       then 0 else m a)"
    by (auto simp: page_clean_def bytes_nat_def split: option.splits)
  have "page_get_u64 m' p' (word_of_nat i) = Some 0" if "i < bytes_nat (page_len p) div 8" for i
  proof -
    have wf: "page_wf p'" and i: "i < bytes_nat (page_len p') div 8"
      using assms(2) that by (simp_all add: p' page_wf_def)
    show ?thesis
      using page_get_u64_Some [OF wf i] by (simp add: p' m')
  qed
  moreover have "st \<in> {StConvertedClean, StInternalClean}"
    using st by (cases "page_typestate p") auto
  ultimately show ?thesis
    by (simp add: m' p')
qed

theorem page_clean_zeroes_witness:
  "page_wf \<lparr>page_base = PageAddr (raw_supervisor 0x1000), page_len = Size4k,
            page_typestate = StConvertedDirty\<rparr>
   \<and> (\<exists>p' m'. page_clean (\<lambda>a. 7)
        \<lparr>page_base = PageAddr (raw_supervisor 0x1000), page_len = Size4k,
         page_typestate = StConvertedDirty\<rparr> = Some (p', m')
      \<and> page_get_u64 m' p' (word_of_nat 511) = Some 0 \<and> m' 0x2000 = 7)"
proof -
  let ?p = "\<lparr>page_base = PageAddr (raw_supervisor 0x1000), page_len = Size4k,
             page_typestate = StConvertedDirty\<rparr>"
  have wf: "page_wf ?p"
    by (simp add: page_wf_def align_simps raw_supervisor_def)
  obtain p' m' where c: "page_clean (\<lambda>a. 7) ?p = Some (p', m')"
    by (auto simp: page_clean_def)
  have out: "\<not> in_bytes (page_addr_bits (page_base ?p)) (bytes_nat (page_len ?p)) 0x2000"
    by (simp add: in_bytes_def page_addr_bits_def raw_supervisor_def)
  have "page_get_u64 m' p' (word_of_nat 511) = Some 0" and "m' 0x2000 = 7"
    using page_clean_zeroes [OF c wf] out by (simp_all del: of_nat_numeral)
  with wf c show ?thesis
    by blast
qed

end
