(* ===== verification/Sequential_Pages.thy ===== *)
theory Sequential_Pages
  imports Page_Types
begin

text \<open>
  \<open>SequentialPages\<close> (\<open>riscv-pages/src/sequential_pages.rs\<close>): a run of consecutive
  pages of one size and type-state, its construction from an iterator of pages or
  from a range, and the iterators that take it apart again.
\<close>

record seq_pages =
  seq_addr :: supervisor_page_addr
  seq_page_size :: page_size
  seq_count :: u64
  seq_state :: page_typestate

text \<open>
  The errors carry the iterator that gives the pages back: what was already
  collected, the offending page, and the rest.
\<close>

datatype seq_error =
    SeqEmpty
  | NonContiguous seq_pages page "page list"
  | NonUniformSize seq_pages page "page list"
  | SeqOverflow seq_pages page "page list"

datatype unaligned_pages = UnalignedPages

fun from_pages_loop ::
    "supervisor_page_addr \<Rightarrow> seq_pages \<Rightarrow> page list \<Rightarrow> (seq_error, seq_pages) result" where
  "from_pages_loop last_addr sq [] = Ok sq"
| "from_pages_loop last_addr sq (p # ps) =
     (if page_len p \<noteq> seq_page_size sq then Err (NonUniformSize sq p ps)
      else case checked_add_pages_with_size last_addr 1 (seq_page_size sq) of
             None \<Rightarrow> Err (SeqOverflow sq p ps)
           | Some next_addr \<Rightarrow>
               if page_base p \<noteq> next_addr then Err (NonContiguous sq p ps)
               else from_pages_loop (page_base p) (sq\<lparr>seq_count := seq_count sq + 1\<rparr>) ps)"

fun seq_from_pages :: "page list \<Rightarrow> (seq_error, seq_pages) result" where
  "seq_from_pages [] = Err SeqEmpty"
| "seq_from_pages (p # ps) =
     from_pages_loop (page_base p)
       \<lparr>seq_addr = page_base p, seq_page_size = page_len p, seq_count = 1,
        seq_state = page_typestate p\<rparr> ps"

definition seq_is_empty :: "seq_pages \<Rightarrow> bool" where
  "seq_is_empty sq = (seq_count sq = 0)"

definition seq_length_bytes :: "seq_pages \<Rightarrow> u64" where
  "seq_length_bytes sq = page_size_bytes (seq_page_size sq) * seq_count sq"

definition seq_from_mem_range ::
    "page_typestate \<Rightarrow> supervisor_page_addr \<Rightarrow> page_size \<Rightarrow> u64
     \<Rightarrow> (unaligned_pages, seq_pages) result" where
  "seq_from_mem_range st a s n =
     (if \<not> page_addr_is_aligned a s then Err UnalignedPages
      else Ok \<lparr>seq_addr = a, seq_page_size = s, seq_count = n, seq_state = st\<rparr>)"

definition seq_from_page_range ::
    "page_typestate \<Rightarrow> supervisor_page_addr \<Rightarrow> supervisor_page_addr \<Rightarrow> page_size
     \<Rightarrow> (unaligned_pages, seq_pages) result" where
  "seq_from_page_range st a e s =
     (if \<not> page_addr_is_aligned a s \<or> \<not> page_addr_is_aligned e s then Err UnalignedPages
      else case checked_sub (page_addr_bits e) (page_addr_bits a) of
             None \<Rightarrow> Panic
           | Some len \<Rightarrow>
               Ok \<lparr>seq_addr = a, seq_page_size = s, seq_count = len div page_size_bytes s,
                   seq_state = st\<rparr>)"

text \<open>\<open>page_addrs\<close> steps by 4kB whatever the page size of the sequence is.\<close>

definition seq_page_addrs :: "seq_pages \<Rightarrow> ('e, supervisor_page_addr list) result" where
  "seq_page_addrs sq =
     result_bind (page_addr_iter_from (seq_addr sq))
       (\<lambda>it. Ok (page_addr_iter_take (unat (seq_count sq)) it))"

definition seq_from_page :: "page \<Rightarrow> seq_pages" where
  "seq_from_page p =
     \<lparr>seq_addr = page_base p, seq_page_size = page_len p, seq_count = 1,
      seq_state = page_typestate p\<rparr>"

text \<open>
  \<open>SeqPageIter::next\<close>. The successor address is computed, and unwrapped, before the
  page is returned.
\<close>

definition seq_iter_next :: "seq_pages \<Rightarrow> ('e, (page \<times> seq_pages) option) result" where
  "seq_iter_next sq =
     (if seq_count sq = 0 then Ok None
      else case checked_add_pages_with_size (seq_addr sq) 1 (seq_page_size sq) of
             None \<Rightarrow> Panic
           | Some next_addr \<Rightarrow>
               result_bind (page_new_with_size (seq_state sq) (seq_addr sq) (seq_page_size sq))
                 (\<lambda>p. Ok (Some (p, sq\<lparr>seq_addr := next_addr, seq_count := seq_count sq - 1\<rparr>))))"

lemma seq_iter_next_less:
  "seq_iter_next sq = Ok (Some (p, sq')) \<Longrightarrow> unat (seq_count sq') < unat (seq_count sq)"
  by (auto simp: seq_iter_next_def measure_unat result_simps split: if_splits option.splits)

function seq_into_list :: "seq_pages \<Rightarrow> ('e, page list) result" where
  "seq_into_list sq =
     (case seq_iter_next sq of
        Ok None \<Rightarrow> Ok []
      | Ok (Some (p, sq')) \<Rightarrow> result_bind (seq_into_list sq') (\<lambda>ps. Ok (p # ps))
      | Err e \<Rightarrow> Err e
      | Panic \<Rightarrow> Panic)"
  by pat_completeness auto
termination
  by (relation "measure (\<lambda>sq. unat (seq_count sq))") (auto intro: seq_iter_next_less)

declare seq_into_list.simps [simp del]

fun clean_all :: "mem \<Rightarrow> page list \<Rightarrow> (page list \<times> mem) option" where
  "clean_all m [] = Some ([], m)"
| "clean_all m (p # ps) =
     (case page_clean m p of
        None \<Rightarrow> None
      | Some (p', m') \<Rightarrow>
          (case clean_all m' ps of
             None \<Rightarrow> None
           | Some (ps', m'') \<Rightarrow> Some (p' # ps', m'')))"

text \<open>\<open>SequentialPages::clean\<close>: takes the run apart, cleans each page, collects it again.\<close>

definition seq_clean :: "mem \<Rightarrow> seq_pages \<Rightarrow> ('e, (seq_pages \<times> mem) option) result" where
  "seq_clean m sq =
     result_bind (seq_into_list sq)
       (\<lambda>ps. case clean_all m ps of
               None \<Rightarrow> Ok None
             | Some (ps', m') \<Rightarrow>
                 result_bind (unwrap (seq_from_pages ps')) (\<lambda>sq'. Ok (Some (sq', m'))))"

record seq_chunk_iter =
  chunk_size :: u64
  chunk_addr :: "supervisor_page_addr option"
  chunk_page_size :: page_size
  chunk_count :: u64
  chunk_state :: page_typestate

definition seq_into_chunks_iter :: "seq_pages \<Rightarrow> u64 \<Rightarrow> seq_chunk_iter" where
  "seq_into_chunks_iter sq cs =
     \<lparr>chunk_size = cs, chunk_addr = (if seq_count sq > 0 then Some (seq_addr sq) else None),
      chunk_page_size = seq_page_size sq, chunk_count = seq_count sq,
      chunk_state = seq_state sq\<rparr>"

definition seq_chunk_next ::
    "seq_chunk_iter \<Rightarrow> ('e, (seq_pages \<times> seq_chunk_iter) option) result" where
  "seq_chunk_next it =
     (if chunk_count it = 0 then Ok None
      else case chunk_addr it of
             None \<Rightarrow> Panic
           | Some a \<Rightarrow>
               let to_remove = min (chunk_count it) (chunk_size it);
                   count' = chunk_count it - to_remove
               in result_bind
                    (if count' > 0
                     then result_bind
                            (unwrap_option
                               (checked_add_pages_with_size a to_remove (chunk_page_size it)))
                            (\<lambda>b. Ok (Some b))
                     else Ok None)
                    (\<lambda>addr'.
                       result_bind
                         (unwrap (seq_from_mem_range (chunk_state it) a (chunk_page_size it) to_remove))
                         (\<lambda>sq. Ok (Some (sq, it\<lparr>chunk_addr := addr', chunk_count := count'\<rparr>)))))"

text \<open>The chunks of a run, collected from the iterator (at most \<open>n\<close> of them).\<close>

fun seq_chunk_take :: "nat \<Rightarrow> seq_chunk_iter \<Rightarrow> ('e, seq_pages list) result" where
  "seq_chunk_take 0 it = Ok []"
| "seq_chunk_take (Suc n) it =
     (case seq_chunk_next it of
        Ok None \<Rightarrow> Ok []
      | Ok (Some (sq, it')) \<Rightarrow> result_bind (seq_chunk_take n it') (\<lambda>sqs. Ok (sq # sqs))
      | Err e \<Rightarrow> Err e
      | Panic \<Rightarrow> Panic)"

section \<open>Runs of pages\<close>

fun is_run :: "page_typestate \<Rightarrow> page_size \<Rightarrow> nat \<Rightarrow> page list \<Rightarrow> bool" where
  "is_run st s b [] = True"
| "is_run st s b (p # ps) =
     (addr_nat (page_base p) = b \<and> page_len p = s \<and> page_typestate p = st
      \<and> is_run st s (b + bytes_nat s) ps)"

lemma is_run_append:
  "is_run st s b (ps @ qs) = (is_run st s b ps \<and> is_run st s (b + length ps * bytes_nat s) qs)"
  by (induction ps arbitrary: b) (auto simp: algebra_simps)

lemma is_run_unique:
  "is_run st s b ps \<Longrightarrow> is_run st s b qs \<Longrightarrow> length ps = length qs \<Longrightarrow> ps = qs"
proof (induction ps arbitrary: b qs)
  case Nil
  then show ?case by simp
next
  case (Cons p ps)
  then obtain q qs' where qs: "qs = q # qs'"
    by (cases qs) auto
  then have "page_base p = page_base q"
    using Cons.prems by (simp add: supervisor_addr_eq_iff)
  then have "p = q"
    using Cons.prems qs by (cases p; cases q) simp
  moreover have "ps = qs'"
    using Cons.IH [of "b + bytes_nat s" qs'] Cons.prems qs by simp
  ultimately show ?case
    using qs by simp
qed

text \<open>A run read off its base address: what the iterator of a sequence must yield.\<close>

definition seq_wf :: "seq_pages \<Rightarrow> bool" where
  "seq_wf sq = page_addr_is_aligned (seq_addr sq) (seq_page_size sq)"

definition seq_end :: "seq_pages \<Rightarrow> nat" where
  "seq_end sq = addr_nat (seq_addr sq) + unat (seq_count sq) * bytes_nat (seq_page_size sq)"

lemma seq_into_list_run:
  assumes "seq_wf sq" and "seq_end sq < 2 ^ 64"
  shows "\<exists>ps. (seq_into_list sq :: ('e, page list) result) = Ok ps \<and> length ps = unat (seq_count sq)
           \<and> is_run (seq_state sq) (seq_page_size sq) (addr_nat (seq_addr sq)) ps"
  using assms
proof (induction "unat (seq_count sq)" arbitrary: sq)
  case 0
  then have "seq_count sq = 0"
    by (simp add: unat_eq_zero)
  then show ?case
    by (simp add: seq_into_list.simps [of sq] seq_iter_next_def)
next
  case (Suc n)
  let ?s = "seq_page_size sq"
  from Suc.hyps(2) have c: "seq_count sq \<noteq> 0"
    by auto
  then have n: "unat (seq_count sq - 1) = n"
    using Suc.hyps(2) by (simp add: unat_minus_one)
  have e: "seq_end sq = addr_nat (seq_addr sq) + bytes_nat ?s + n * bytes_nat ?s"
    using Suc.hyps(2) by (simp add: seq_end_def flip: Suc.hyps(2))
  have al: "page_addr_is_aligned (seq_addr sq) ?s"
    using Suc.prems(1) by (simp add: seq_wf_def)
  obtain b where b: "checked_add_pages_with_size (seq_addr sq) 1 ?s = Some b"
    and bn: "addr_nat b = addr_nat (seq_addr sq) + bytes_nat ?s" and "page_addr_is_aligned b ?s"
    using checked_add_pages_with_size_fits [OF al, of 1] Suc.prems(2) e by force
  define sq' where "sq' = sq\<lparr>seq_addr := b, seq_count := seq_count sq - 1\<rparr>"
  have "seq_wf sq'" and "seq_end sq' < 2 ^ 64" and "n = unat (seq_count sq')"
    using \<open>page_addr_is_aligned b ?s\<close> Suc.prems(2) e n bn
    by (simp_all add: sq'_def seq_wf_def seq_end_def)
  with Suc.hyps(1) obtain ps where ps: "(seq_into_list sq' :: ('e, page list) result) = Ok ps" "length ps = n"
    "is_run (seq_state sq') (seq_page_size sq') (addr_nat (seq_addr sq')) ps"
    by metis
  have "(seq_iter_next sq :: ('e, (page \<times> seq_pages) option) result) =
      Ok (Some (\<lparr>page_base = seq_addr sq, page_len = ?s, page_typestate = seq_state sq\<rparr>, sq'))"
    using c b al by (simp add: seq_iter_next_def page_new_with_size_def sq'_def)
  then have "(seq_into_list sq :: ('e, page list) result) =
      Ok (\<lparr>page_base = seq_addr sq, page_len = ?s, page_typestate = seq_state sq\<rparr> # ps)"
    using ps(1) by (simp add: seq_into_list.simps [of sq])
  moreover have "is_run (seq_state sq) ?s (addr_nat (seq_addr sq))
      (\<lparr>page_base = seq_addr sq, page_len = ?s, page_typestate = seq_state sq\<rparr> # ps)"
    using ps(3) bn by (simp add: sq'_def)
  ultimately show ?case
    using ps(2) Suc.hyps(2) by auto
qed

lemma seq_into_list_panic:
  assumes "seq_wf sq" and "2 ^ 64 \<le> seq_end sq"
  shows "(seq_into_list sq :: ('e, page list) result) = Panic"
  using assms
proof (induction "unat (seq_count sq)" arbitrary: sq)
  case 0
  then show ?case
    using addr_nat_less [of "seq_addr sq"] by (simp add: seq_end_def)
next
  case (Suc n)
  let ?s = "seq_page_size sq"
  from Suc.hyps(2) have c: "seq_count sq \<noteq> 0"
    by auto
  then have n: "unat (seq_count sq - 1) = n"
    using Suc.hyps(2) by (simp add: unat_minus_one)
  have e: "seq_end sq = addr_nat (seq_addr sq) + bytes_nat ?s + n * bytes_nat ?s"
    using Suc.hyps(2) by (simp add: seq_end_def flip: Suc.hyps(2))
  have al: "page_addr_is_aligned (seq_addr sq) ?s"
    using Suc.prems(1) by (simp add: seq_wf_def)
  show ?case
  proof (cases "addr_nat (seq_addr sq) + bytes_nat ?s < 2 ^ 64")
    case True
    obtain b where b: "checked_add_pages_with_size (seq_addr sq) 1 ?s = Some b"
      and bn: "addr_nat b = addr_nat (seq_addr sq) + bytes_nat ?s" and "page_addr_is_aligned b ?s"
      using checked_add_pages_with_size_fits [OF al, of 1] True by force
    define sq' where "sq' = sq\<lparr>seq_addr := b, seq_count := seq_count sq - 1\<rparr>"
    have "seq_wf sq'" and "2 ^ 64 \<le> seq_end sq'" and "n = unat (seq_count sq')"
      using \<open>page_addr_is_aligned b ?s\<close> Suc.prems(2) e n bn
      by (simp_all add: sq'_def seq_wf_def seq_end_def)
    with Suc.hyps(1) have "(seq_into_list sq' :: ('e, page list) result) = Panic"
      by blast
    then show ?thesis
      using c b al
      by (simp add: seq_into_list.simps [of sq] seq_iter_next_def page_new_with_size_def sq'_def)
  next
    case False
    then have "checked_add_pages_with_size (seq_addr sq) 1 ?s = None"
      using al by (simp add: checked_add_pages_with_size_None)
    then show ?thesis
      using c by (simp add: seq_into_list.simps [of sq] seq_iter_next_def)
  qed
qed

section \<open>Collecting pages\<close>

lemma from_pages_loop_Ok:
  assumes "\<forall>p \<in> set ps. page_wf p \<and> page_typestate p = st"
  shows "(from_pages_loop l sq ps = Ok sq') =
         (is_run st (seq_page_size sq) (addr_nat l + bytes_nat (seq_page_size sq)) ps
          \<and> sq' = sq\<lparr>seq_count := seq_count sq + word_of_nat (length ps)\<rparr>)"
  using assms
proof (induction ps arbitrary: l sq)
  case Nil
  then show ?case by auto
next
  case (Cons p ps)
  let ?s = "seq_page_size sq"
  show ?case
  proof (cases "page_len p = ?s \<and> addr_nat (page_base p) = addr_nat l + bytes_nat ?s")
    case True
    then have "page_addr_is_aligned (page_base p) ?s"
      using Cons.prems by (auto simp: page_wf_def)
    then have "checked_add_pages_with_size l 1 ?s = Some (page_base p)"
      using True by (simp add: checked_add_pages_with_size_Some) (metis supervisor_phys.exhaust)
    then show ?thesis
      using True Cons.IH [of "page_base p" "sq\<lparr>seq_count := seq_count sq + 1\<rparr>"] Cons.prems
      by (simp add: algebra_simps)
  next
    case False
    then show ?thesis
      by (auto simp: checked_add_pages_with_size_Some split: option.splits)
  qed
qed

lemma seq_from_pages_Ok:
  assumes "\<forall>p \<in> set ps. page_wf p \<and> page_typestate p = st"
  shows "(seq_from_pages ps = Ok sq) =
         (ps \<noteq> [] \<and> is_run st (page_len (hd ps)) (addr_nat (page_base (hd ps))) ps
          \<and> sq = \<lparr>seq_addr = page_base (hd ps), seq_page_size = page_len (hd ps),
                  seq_count = word_of_nat (length ps), seq_state = st\<rparr>)"
proof (cases ps)
  case Nil
  then show ?thesis by simp
next
  case (Cons p qs)
  then have "\<forall>q \<in> set qs. page_wf q \<and> page_typestate q = st" and "page_typestate p = st"
    using assms by auto
  then show ?thesis
    using Cons from_pages_loop_Ok [of qs st] by simp
qed

lemma is_run_last:
  "is_run st s b ps \<Longrightarrow> ps \<noteq> [] \<Longrightarrow>
   addr_nat (page_base (last ps)) + bytes_nat (page_len (last ps)) = b + length ps * bytes_nat s"
  by (induction ps arbitrary: b) auto

text \<open>
  C31: \<open>SequentialPages::from_pages\<close> accepts a non-empty list of pages exactly when
  they form a run (one size, each page one page after the previous), and taking
  the sequence apart again gives back the same pages in the same order, as long
  as the run ends below the top of the address space.
\<close>

theorem seq_from_pages_roundtrip:
  assumes pages: "\<forall>p \<in> set ps. page_wf p \<and> page_typestate p = st"
    and len: "length ps < 2 ^ 64"
  shows "((\<exists>sq. seq_from_pages ps = Ok sq)
            = (ps \<noteq> [] \<and> is_run st (page_len (hd ps)) (addr_nat (page_base (hd ps))) ps))
         \<and> (\<forall>sq. seq_from_pages ps = Ok sq
              \<and> addr_nat (page_base (last ps)) + bytes_nat (page_len (last ps)) < 2 ^ 64
              \<longrightarrow> (seq_into_list sq :: ('e, page list) result) = Ok ps)"
proof -
  have "(seq_into_list sq :: ('e, page list) result) = Ok ps"
    if ok: "seq_from_pages ps = Ok sq"
      and fits: "addr_nat (page_base (last ps)) + bytes_nat (page_len (last ps)) < 2 ^ 64" for sq
  proof -
    from ok have ne: "ps \<noteq> []"
      and run: "is_run st (page_len (hd ps)) (addr_nat (page_base (hd ps))) ps"
      and sq: "sq = \<lparr>seq_addr = page_base (hd ps), seq_page_size = page_len (hd ps),
                  seq_count = word_of_nat (length ps), seq_state = st\<rparr>"
      unfolding seq_from_pages_Ok [OF pages] by auto
    have cnt: "unat (seq_count sq) = length ps"
      using len by (simp only: sq seq_pages.simps unat_of_nat_u64)
    have "seq_wf sq"
      using pages ne by (simp add: sq seq_wf_def page_wf_def)
    moreover have "seq_end sq < 2 ^ 64"
      using is_run_last [OF run ne] fits cnt by (simp add: seq_end_def sq)
    ultimately obtain qs where qs: "(seq_into_list sq :: ('e, page list) result) = Ok qs"
      "length qs = length ps" "is_run st (page_len (hd ps)) (addr_nat (page_base (hd ps))) qs"
      using seq_into_list_run [of sq] cnt by (auto simp: sq)
    then show ?thesis
      using is_run_unique [OF run qs(3)] by simp
  qed
  then show ?thesis
    using seq_from_pages_Ok [OF pages] by blast
qed

theorem seq_from_pages_roundtrip_witness:
  "let ps = [\<lparr>page_base = PageAddr (raw_supervisor 0x1000), page_len = Size4k,
              page_typestate = StConvertedDirty\<rparr>,
             \<lparr>page_base = PageAddr (raw_supervisor 0x2000), page_len = Size4k,
              page_typestate = StConvertedDirty\<rparr>]
   in \<exists>sq. seq_from_pages ps = Ok sq \<and> (seq_into_list sq :: (nat, page list) result) = Ok ps"
proof -
  let ?ps = "[\<lparr>page_base = PageAddr (raw_supervisor 0x1000), page_len = Size4k,
               page_typestate = StConvertedDirty\<rparr>,
              \<lparr>page_base = PageAddr (raw_supervisor 0x2000), page_len = Size4k,
               page_typestate = StConvertedDirty\<rparr>]"
  have wf: "\<forall>p \<in> set ?ps. page_wf p \<and> page_typestate p = StConvertedDirty"
    and len: "length ?ps < 2 ^ 64"
    by (simp_all add: page_wf_def align_simps raw_supervisor_def)
  have "is_run StConvertedDirty (page_len (hd ?ps)) (addr_nat (page_base (hd ?ps))) ?ps"
    by (simp add: raw_supervisor_def)
  moreover have "addr_nat (page_base (last ?ps)) + bytes_nat (page_len (last ?ps)) < 2 ^ 64"
    by (simp add: raw_supervisor_def)
  ultimately show ?thesis
    using seq_from_pages_roundtrip [OF wf len] unfolding Let_def by blast
qed

text \<open>
  The loop's invariant: \<open>ds\<close> are the pages collected so far in \<open>sq\<close>, and \<open>l\<close> is the
  address of the last of them.
\<close>

definition collected ::
    "page_typestate \<Rightarrow> page list \<Rightarrow> seq_pages \<Rightarrow> supervisor_page_addr \<Rightarrow> bool" where
  "collected st ds sq l =
     (is_run st (seq_page_size sq) (addr_nat (seq_addr sq)) ds \<and> seq_state sq = st \<and> seq_wf sq
      \<and> unat (seq_count sq) = length ds \<and> page_addr_is_aligned l (seq_page_size sq)
      \<and> addr_nat l + bytes_nat (seq_page_size sq) = seq_end sq)"

lemma collected_run:
  "collected st ds sq l \<Longrightarrow> is_run st (seq_page_size sq) (addr_nat (seq_addr sq)) ds"
  by (simp add: collected_def)

lemma collected_into_list:
  assumes "collected st ds sq l" and "seq_end sq < 2 ^ 64"
  shows "(seq_into_list sq :: ('e, page list) result) = Ok ds"
proof -
  obtain qs where "(seq_into_list sq :: ('e, page list) result) = Ok qs"
    "length qs = length ds" "is_run st (seq_page_size sq) (addr_nat (seq_addr sq)) qs"
    using seq_into_list_run [of sq] assms by (auto simp: collected_def)
  moreover from this have "qs = ds"
    using assms(1) is_run_unique by (auto simp: collected_def)
  ultimately show ?thesis
    by simp
qed

lemma collected_panic:
  assumes "collected st ds sq l" and "2 ^ 64 \<le> seq_end sq"
  shows "(seq_into_list sq :: ('e, page list) result) = Panic"
  using assms seq_into_list_panic by (auto simp: collected_def)

lemma collected_snoc:
  assumes "collected st ds sq l" and "page_len p = seq_page_size sq" and "page_wf p"
    and "page_typestate p = st" and "addr_nat (page_base p) = seq_end sq"
    and "Suc (length ds) < 2 ^ 64"
  shows "collected st (ds @ [p]) (sq\<lparr>seq_count := seq_count sq + 1\<rparr>) (page_base p)"
proof -
  have c: "unat (seq_count sq) = length ds"
    using assms(1) by (simp add: collected_def)
  then have c': "unat (seq_count sq + 1) = Suc (length ds)"
    using assms(6) by (subst unat_add_u64) simp_all
  have "is_run st (seq_page_size sq) (addr_nat (seq_addr sq)) (ds @ [p])"
    using assms c by (simp add: is_run_append collected_def seq_end_def)
  then show ?thesis
    using assms c c' by (simp add: collected_def seq_end_def seq_wf_def page_wf_def)
qed

definition loop_outcome ::
    "page_typestate \<Rightarrow> page list \<Rightarrow> (seq_error, seq_pages) result \<Rightarrow> bool" where
  "loop_outcome st pages r =
     (case r of
        Err (NonContiguous sq p rest) \<Rightarrow>
          (\<exists>ds l. collected st ds sq l \<and> ds @ p # rest = pages \<and> seq_end sq < 2 ^ 64)
      | Err (SeqOverflow sq p rest) \<Rightarrow> (\<exists>ds l. collected st ds sq l \<and> 2 ^ 64 \<le> seq_end sq)
      | Err (NonUniformSize sq p rest) \<Rightarrow>
          (\<exists>ds l. collected st ds sq l \<and> ds @ p # rest = pages \<and> page_len p \<noteq> seq_page_size sq)
      | Err SeqEmpty \<Rightarrow> False
      | Ok sq \<Rightarrow> True
      | Panic \<Rightarrow> False)"

lemma from_pages_loop_outcome:
  assumes "collected st ds sq l" and "\<forall>p \<in> set ps. page_wf p \<and> page_typestate p = st"
    and "length ds + length ps < 2 ^ 64"
  shows "loop_outcome st (ds @ ps) (from_pages_loop l sq ps)"
  using assms
proof (induction ps arbitrary: ds sq l)
  case Nil
  then show ?case by (simp add: loop_outcome_def)
next
  case (Cons p ps)
  have al: "page_addr_is_aligned l (seq_page_size sq)"
    and e: "addr_nat l + bytes_nat (seq_page_size sq) = seq_end sq"
    using Cons.prems(1) by (simp_all add: collected_def)
  show ?case
  proof (cases "page_len p = seq_page_size sq")
    case False
    then show ?thesis
      using Cons.prems(1) by (auto simp: loop_outcome_def)
  next
    case len: True
    show ?thesis
    proof (cases "checked_add_pages_with_size l 1 (seq_page_size sq)")
      case None
      then have "2 ^ 64 \<le> seq_end sq"
        using checked_add_pages_with_size_None [OF al, of 1] e by simp
      then show ?thesis
        using None len Cons.prems(1) by (auto simp: loop_outcome_def)
    next
      case (Some a)
      then have a: "addr_nat a = seq_end sq"
        using e by (simp add: checked_add_pages_with_size_Some)
      then have lt: "seq_end sq < 2 ^ 64"
        by (metis addr_nat_less)
      show ?thesis
      proof (cases "page_base p = a")
        case False
        then show ?thesis
          using Some len lt Cons.prems(1) by (auto simp: loop_outcome_def)
      next
        case True
        then have "collected st (ds @ [p]) (sq\<lparr>seq_count := seq_count sq + 1\<rparr>) (page_base p)"
          using collected_snoc [OF Cons.prems(1) len] Cons.prems(2,3) a by simp
        from Cons.IH [OF this] show ?thesis
          using Some len True Cons.prems by simp
      qed
    qed
  qed
qed



section \<open>Chunks\<close>

lemma seq_chunk_next_eq:
  assumes "seq_wf sq" and "seq_end sq < 2 ^ 64" and "seq_count sq \<noteq> 0"
  shows "\<exists>b. seq_chunk_next (seq_into_chunks_iter sq cs) =
            Ok (Some (sq\<lparr>seq_count := min (seq_count sq) cs\<rparr>,
                  seq_into_chunks_iter
                    (sq\<lparr>seq_addr := b, seq_count := seq_count sq - min (seq_count sq) cs\<rparr>) cs))
          \<and> seq_wf (sq\<lparr>seq_addr := b\<rparr>)
          \<and> (seq_count sq - min (seq_count sq) cs = 0
             \<or> addr_nat b = addr_nat (seq_addr sq)
                   + unat (min (seq_count sq) cs) * bytes_nat (seq_page_size sq))"
proof (cases "seq_count sq \<le> cs")
  case True
  then have "min (seq_count sq) cs = seq_count sq"
    by simp
  then show ?thesis
    using assms True
    by (intro exI [of _ "seq_addr sq"])
       (simp add: seq_chunk_next_def seq_into_chunks_iter_def seq_from_mem_range_def seq_wf_def
         Let_def word_gt_0)
next
  case False
  then have m: "min (seq_count sq) cs = cs" and lt: "cs < seq_count sq"
    by simp_all
  have al: "page_addr_is_aligned (seq_addr sq) (seq_page_size sq)"
    using assms(1) by (simp add: seq_wf_def)
  have "unat cs * bytes_nat (seq_page_size sq) \<le> unat (seq_count sq) * bytes_nat (seq_page_size sq)"
    using lt by (simp add: word_less_nat_alt)
  then have fits: "addr_nat (seq_addr sq) + unat cs * bytes_nat (seq_page_size sq) < 2 ^ 64"
    using assms(2) unfolding seq_end_def by linarith
  obtain b where b: "checked_add_pages_with_size (seq_addr sq) cs (seq_page_size sq) = Some b"
    "addr_nat b = addr_nat (seq_addr sq) + unat cs * bytes_nat (seq_page_size sq)"
    "page_addr_is_aligned b (seq_page_size sq)"
    using checked_add_pages_with_size_fits [OF al fits] by blast
  have "0 < seq_count sq - cs"
    using lt by (simp add: word_gt_0)
  with b m al assms(3) show ?thesis
    by (intro exI [of _ b])
       (simp add: seq_chunk_next_def seq_into_chunks_iter_def seq_from_mem_range_def seq_wf_def
         Let_def word_gt_0)
qed

lemma seq_into_list_join:
  assumes "seq_wf sq" and "seq_end sq < 2 ^ 64" and "r \<le> seq_count sq"
    and "seq_wf (sq\<lparr>seq_addr := b\<rparr>)"
    and "seq_count sq - r = 0
         \<or> addr_nat b = addr_nat (seq_addr sq) + unat r * bytes_nat (seq_page_size sq)"
  shows "\<exists>ps qs. (seq_into_list (sq\<lparr>seq_count := r\<rparr>) :: ('e, _) result) = Ok ps
           \<and> (seq_into_list (sq\<lparr>seq_addr := b, seq_count := seq_count sq - r\<rparr>) :: ('e, _) result)
               = Ok qs
           \<and> (seq_into_list sq :: ('e, _) result) = Ok (ps @ qs)"
proof -
  let ?s = "seq_page_size sq" and ?st = "seq_state sq" and ?a = "addr_nat (seq_addr sq)"
  let ?c = "sq\<lparr>seq_count := r\<rparr>" and ?d = "sq\<lparr>seq_addr := b, seq_count := seq_count sq - r\<rparr>"
  have split: "unat (seq_count sq - r) + unat r = unat (seq_count sq)"
    using assms(3) by (simp add: unat_sub word_le_nat_alt)
  then have mult: "unat (seq_count sq) * bytes_nat ?s
      = unat (seq_count sq - r) * bytes_nat ?s + unat r * bytes_nat ?s"
    by (metis add_mult_distrib)
  have ec: "seq_end ?c < 2 ^ 64"
    using assms(2) mult by (simp add: seq_end_def)
  have wf: "seq_wf ?c" "seq_wf ?d"
    using assms(1,4) by (simp_all add: seq_wf_def)
  have ed: "seq_end ?d < 2 ^ 64"
    using assms(2,5) mult addr_nat_less [of b] by (auto simp: seq_end_def)
  obtain ps where ps: "(seq_into_list ?c :: ('e, _) result) = Ok ps" "length ps = unat r"
    "is_run ?st ?s ?a ps"
    using seq_into_list_run [OF wf(1) ec, where 'e = 'e] by auto
  obtain qs where qs: "(seq_into_list ?d :: ('e, _) result) = Ok qs"
    "length qs = unat (seq_count sq - r)" "is_run ?st ?s (addr_nat b) qs"
    using seq_into_list_run [OF wf(2) ed, where 'e = 'e] by auto
  have "is_run ?st ?s (?a + length ps * bytes_nat ?s) qs"
    using assms(5) ps(2) qs by auto
  then have run: "is_run ?st ?s ?a (ps @ qs)"
    using ps(3) by (simp add: is_run_append)
  obtain us where us: "(seq_into_list sq :: ('e, _) result) = Ok us" "length us = unat (seq_count sq)"
    "is_run ?st ?s ?a us"
    using seq_into_list_run [OF assms(1,2), where 'e = 'e] by auto
  have "us = ps @ qs"
    using is_run_unique [OF us(3) run] us(2) ps(2) qs(2) split by simp
  with us(1) ps(1) qs(1) show ?thesis
    by simp
qed

text \<open>
  C33: cutting a run into chunks loses no page and repeats none: the chunks are
  non-empty, hold at most the requested number of pages (all but the last exactly
  that many), and their pages, one chunk after the other, are the pages of the
  run. Asking for as many chunks as there are pages is always enough.
\<close>

theorem seq_chunks_partition:
  assumes "seq_wf sq" and "seq_end sq < 2 ^ 64" and "cs \<noteq> 0" and "unat (seq_count sq) \<le> n"
  shows "\<exists>sqs pss. seq_chunk_take (Suc n) (seq_into_chunks_iter sq cs) = (Ok sqs :: ('e, _) result)
           \<and> map seq_into_list sqs = map (Ok :: _ \<Rightarrow> ('e, _) result) pss
           \<and> (seq_into_list sq :: ('e, _) result) = Ok (concat pss)
           \<and> (\<forall>c \<in> set sqs. 0 < seq_count c \<and> seq_count c \<le> cs)
           \<and> (\<forall>c \<in> set (butlast sqs). seq_count c = cs)"
  using assms
proof (induction n arbitrary: sq)
  case 0
  then have "seq_count sq = 0"
    by (simp add: unat_eq_zero)
  then show ?case
    by (intro exI [of _ "[]"])
       (simp add: seq_chunk_next_def seq_into_chunks_iter_def seq_into_list.simps [of sq]
         seq_iter_next_def)
next
  case (Suc n)
  show ?case
  proof (cases "seq_count sq = 0")
    case True
    then show ?thesis
      by (intro exI [of _ "[]"])
         (simp add: seq_chunk_next_def seq_into_chunks_iter_def seq_into_list.simps [of sq]
           seq_iter_next_def)
  next
    case False
    define r where "r = min (seq_count sq) cs"
    have r: "r \<le> seq_count sq" "r \<le> cs" "0 < r"
      using False Suc.prems(3) by (auto simp: r_def word_gt_0 min_def)
    obtain b where nxt: "seq_chunk_next (seq_into_chunks_iter sq cs) =
        (Ok (Some (sq\<lparr>seq_count := r\<rparr>,
              seq_into_chunks_iter (sq\<lparr>seq_addr := b, seq_count := seq_count sq - r\<rparr>) cs))
          :: ('e, _) result)"
      and wf: "seq_wf (sq\<lparr>seq_addr := b\<rparr>)"
      and ab: "seq_count sq - r = 0
               \<or> addr_nat b = addr_nat (seq_addr sq) + unat r * bytes_nat (seq_page_size sq)"
      using seq_chunk_next_eq [OF Suc.prems(1,2) False, of cs] unfolding r_def by metis
    let ?d = "sq\<lparr>seq_addr := b, seq_count := seq_count sq - r\<rparr>"
    obtain ps qs where ps: "(seq_into_list (sq\<lparr>seq_count := r\<rparr>) :: ('e, _) result) = Ok ps"
      and qs: "(seq_into_list ?d :: ('e, _) result) = Ok qs"
      and all: "(seq_into_list sq :: ('e, _) result) = Ok (ps @ qs)"
      using seq_into_list_join [OF Suc.prems(1,2) r(1) wf ab] by blast
    have "unat (seq_count ?d) \<le> n"
      using r Suc.prems(4) by (simp add: unat_sub word_le_nat_alt word_less_nat_alt)
    moreover have wfd: "seq_wf ?d"
      using wf by (simp add: seq_wf_def)
    moreover have "seq_end ?d < 2 ^ 64"
    proof (rule ccontr)
      assume "\<not> seq_end ?d < 2 ^ 64"
      then have "(seq_into_list ?d :: ('e, _) result) = Panic"
        by (intro seq_into_list_panic [OF wfd]) (simp only: not_less)
      with qs show False
        by simp
    qed
    ultimately obtain sqs pss
      where IH: "seq_chunk_take (Suc n) (seq_into_chunks_iter ?d cs) = (Ok sqs :: ('e, _) result)"
        "map seq_into_list sqs = map (Ok :: _ \<Rightarrow> ('e, _) result) pss"
        "(seq_into_list ?d :: ('e, _) result) = Ok (concat pss)"
        "\<forall>c \<in> set sqs. 0 < seq_count c \<and> seq_count c \<le> cs"
        "\<forall>c \<in> set (butlast sqs). seq_count c = cs"
      using Suc.IH [of ?d] Suc.prems(3) by blast
    have last: "seq_count sq - r \<noteq> 0" if "sqs \<noteq> []"
    proof
      assume "seq_count sq - r = 0"
      then have "seq_chunk_take (Suc n) (seq_into_chunks_iter ?d cs) = (Ok [] :: ('e, _) result)"
        by (simp add: seq_chunk_next_def seq_into_chunks_iter_def)
      with IH(1) that show False
        by simp
    qed
    have rcs: "r = cs" if "sqs \<noteq> []"
      using last [OF that] by (auto simp: r_def min_def split: if_splits)
    have "seq_chunk_take (Suc (Suc n)) (seq_into_chunks_iter sq cs)
        = (Ok (sq\<lparr>seq_count := r\<rparr> # sqs) :: ('e, _) result)"
      by (subst seq_chunk_take.simps(2)) (simp add: nxt IH(1) del: seq_chunk_take.simps)
    moreover have "(seq_into_list sq :: ('e, _) result) = Ok (concat (ps # pss))"
      using all qs IH(3) by simp
    moreover have "map seq_into_list (sq\<lparr>seq_count := r\<rparr> # sqs)
        = map (Ok :: _ \<Rightarrow> ('e, _) result) (ps # pss)"
      using ps IH(2) by simp
    moreover have "\<forall>c \<in> set (sq\<lparr>seq_count := r\<rparr> # sqs). 0 < seq_count c \<and> seq_count c \<le> cs"
      using IH(4) r by simp
    moreover have "\<forall>c \<in> set (butlast (sq\<lparr>seq_count := r\<rparr> # sqs)). seq_count c = cs"
      using IH(5) rcs by simp
    ultimately show ?thesis
      by blast
  qed
qed

theorem seq_chunks_partition_witness:
  "\<exists>sqs pss. seq_chunk_take 6 (seq_into_chunks_iter
        \<lparr>seq_addr = PageAddr (raw_supervisor 0x1000), seq_page_size = Size4k, seq_count = 5,
         seq_state = StInternalDirty\<rparr> 2) = (Ok sqs :: (nat, _) result)
     \<and> map seq_into_list sqs = map (Ok :: _ \<Rightarrow> (nat, _) result) pss
     \<and> (\<forall>c \<in> set (butlast sqs). seq_count c = 2)"
proof -
  let ?sq = "\<lparr>seq_addr = PageAddr (raw_supervisor 0x1000), seq_page_size = Size4k, seq_count = 5,
              seq_state = StInternalDirty\<rparr>"
  have h: "seq_wf ?sq" "seq_end ?sq < 2 ^ 64" "(2 :: u64) \<noteq> 0" "unat (seq_count ?sq) \<le> 5"
    by (simp_all add: seq_wf_def seq_end_def align_simps raw_supervisor_def)
  have six: "(6 :: nat) = Suc 5"
    by simp
  show ?thesis
    unfolding six using seq_chunks_partition [OF h, where 'e = nat] by blast
qed

text \<open>
  \<open>page_addrs\<close> of a sequence of huge pages does not return the addresses of its
  pages: the iterator advances by 4kB.
\<close>

lemma seq_page_addrs_huge:
  "\<exists>as. seq_page_addrs \<lparr>seq_addr = PageAddr (raw_supervisor 0x200000), seq_page_size = Size2M,
          seq_count = 2, seq_state = StConvertedDirty\<rparr> = (Ok as :: (nat, _) result)
      \<and> map addr_nat as = [0x200000, 0x201000]"
proof -
  let ?a = "PageAddr (raw_supervisor 0x200000)"
  have al: "page_addr_is_aligned ?a Size4k" and n: "addr_nat ?a = 0x200000"
    by (simp_all add: align_simps raw_supervisor_def)
  then have "page_addr_iter_new ?a Size4k = Some \<lparr>iter_next = Some ?a, iter_increment = Size4k\<rparr>"
    by (simp add: page_addr_iter_new_def page_addr_with_alignment_def page_addr_is_aligned_def
        page_addr_bits_def)
  with iter_take_addr_nat [OF al, of 2] n show ?thesis
    by (simp add: seq_page_addrs_def page_addr_iter_from_def) (simp add: numeral_2_eq_2)
qed

end
