(* ===== verification/Array_Vec.thy ===== *)
theory Array_Vec
  imports Salus_Prelude
begin

text \<open>
  The operations of the \<open>arrayvec\<close> crate that Salus calls. The crate is not part of
  the repository, so the operations are a parameter of every definition that uses
  them, and \<open>array_vec_ok\<close> states what the crate documents of them: a vector of
  fixed capacity refuses to grow past it and otherwise behaves like a list. The
  contents of a vector are the list of its elements (the source reads them through
  the slice they dereference to).
\<close>

record 'a array_vec =
  av_try_push :: "'a list \<Rightarrow> 'a \<Rightarrow> 'a list option"
  av_try_insert :: "'a list \<Rightarrow> nat \<Rightarrow> 'a \<Rightarrow> 'a list option"
  av_pop :: "'a list \<Rightarrow> 'a option \<times> 'a list"
  av_remove :: "'a list \<Rightarrow> nat \<Rightarrow> 'a list"
  av_remaining_capacity :: "'a list \<Rightarrow> nat"

definition array_vec_ok :: "nat \<Rightarrow> 'a array_vec \<Rightarrow> bool" where
  "array_vec_ok cap av \<longleftrightarrow>
     (\<forall>xs x. av_try_push av xs x = (if length xs < cap then Some (xs @ [x]) else None))
   \<and> (\<forall>xs i x. i \<le> length xs \<longrightarrow>
        av_try_insert av xs i x =
          (if length xs < cap then Some (take i xs @ x # drop i xs) else None))
   \<and> (\<forall>xs. av_pop av xs = (if xs = [] then (None, []) else (Some (last xs), butlast xs)))
   \<and> (\<forall>xs i. i < length xs \<longrightarrow> av_remove av xs i = take i xs @ drop (Suc i) xs)
   \<and> (\<forall>xs. av_remaining_capacity av xs = cap - length xs)"

text \<open>\<open>ArrayVec::push\<close> panics where \<open>try_push\<close> reports that the vector is full.\<close>

definition av_push :: "'a array_vec \<Rightarrow> 'a list \<Rightarrow> 'a \<Rightarrow> ('e, 'a list) result" where
  "av_push av xs x = unwrap_option (av_try_push av xs x)"

text \<open>\<open>ArrayVec::insert\<close> panics likewise, and \<open>is_full\<close> says that no capacity remains.\<close>

definition av_insert :: "'a array_vec \<Rightarrow> 'a list \<Rightarrow> nat \<Rightarrow> 'a \<Rightarrow> ('e, 'a list) result" where
  "av_insert av xs i x = unwrap_option (av_try_insert av xs i x)"

definition av_is_full :: "'a array_vec \<Rightarrow> 'a list \<Rightarrow> bool" where
  "av_is_full av xs = (av_remaining_capacity av xs = 0)"

text \<open>An implementation by plain lists, which shows the documented behaviour can be had.\<close>

definition list_array_vec :: "nat \<Rightarrow> 'a array_vec" where
  "list_array_vec cap =
     \<lparr>av_try_push = \<lambda>xs x. if length xs < cap then Some (xs @ [x]) else None,
      av_try_insert = \<lambda>xs i x. if length xs < cap then Some (take i xs @ x # drop i xs) else None,
      av_pop = \<lambda>xs. if xs = [] then (None, []) else (Some (last xs), butlast xs),
      av_remove = \<lambda>xs i. take i xs @ drop (Suc i) xs,
      av_remaining_capacity = \<lambda>xs. cap - length xs\<rparr>"

lemma list_array_vec_ok [simp]: "array_vec_ok cap (list_array_vec cap)"
  by (simp add: array_vec_ok_def list_array_vec_def)

lemma try_push_eq:
  "array_vec_ok cap av \<Longrightarrow>
   av_try_push av xs x = (if length xs < cap then Some (xs @ [x]) else None)"
  by (simp add: array_vec_ok_def)

lemma try_insert_eq:
  "array_vec_ok cap av \<Longrightarrow>
   av_try_insert av (xs @ ys) (length xs) x =
     (if length (xs @ ys) < cap then Some (xs @ x # ys) else None)"
  by (simp add: array_vec_ok_def)

lemma pop_eq:
  "array_vec_ok cap av \<Longrightarrow>
   av_pop av xs = (if xs = [] then (None, []) else (Some (last xs), butlast xs))"
  by (simp add: array_vec_ok_def)

lemma remove_eq:
  "array_vec_ok cap av \<Longrightarrow> av_remove av (xs @ x # ys) (length xs) = xs @ ys"
  by (simp add: array_vec_ok_def)

lemma push_eq:
  "array_vec_ok cap av \<Longrightarrow>
   av_push av xs x = (if length xs < cap then Ok (xs @ [x]) else Panic)"
  by (simp add: av_push_def try_push_eq)

lemma insert_eq:
  "array_vec_ok cap av \<Longrightarrow>
   av_insert av (xs @ ys) (length xs) x = (if length (xs @ ys) < cap then Ok (xs @ x # ys) else Panic)"
  by (simp add: av_insert_def try_insert_eq del: length_append)

lemma remaining_capacity_eq:
  "array_vec_ok cap av \<Longrightarrow> av_remaining_capacity av xs = cap - length xs"
  by (simp add: array_vec_ok_def)

lemma is_full_eq: "array_vec_ok cap av \<Longrightarrow> av_is_full av xs = (cap \<le> length xs)"
  by (simp add: av_is_full_def remaining_capacity_eq)

end
