(* ===== verification/Hw_Mem_Map.thy ===== *)
theory Hw_Mem_Map
  imports Sequential_Pages Array_Vec
begin

text \<open>
  The hardware memory map (\<open>page-tracking/src/hw_mem_map.rs\<close>): a sorted vector of
  disjoint regions, built at boot from firmware tables, out of which memory is
  reserved. Every later safety argument rests on it owning each page once. The
  operations that can fail after changing the map return the map beside the result.
\<close>

section \<open>Regions\<close>

definition MAX_HW_MEM_REGIONS :: nat where "MAX_HW_MEM_REGIONS = 32"

datatype hw_reserved_mem_type =
    FirmwareReserved | HypervisorImage | HypervisorHeap | HypervisorPerCpu | PageMapMem
  | HostKernelImage | HostInitramfsImage

datatype hw_mem_region_type =
    Available | ReservedMem hw_reserved_mem_type | MmioMem device_mem_type

fun region_mem_type :: "hw_mem_region_type \<Rightarrow> mem_type" where
  "region_mem_type (MmioMem dev) = Mmio dev"
| "region_mem_type _ = Ram"

record hw_mem_region =
  region_type :: hw_mem_region_type
  region_base :: supervisor_page_addr
  region_size :: u64

datatype hw_mem_error =
    UnalignedRegion | OverlappingRegion | InvalidReservedRegion | OutOfSpace | SequentialPagesFailed

definition region_end :: "hw_mem_region \<Rightarrow> ('e, supervisor_page_addr) result" where
  "region_end r = unwrap_option (checked_add_pages (region_base r) (region_size r div page_size_bytes Size4k))"

record hw_mem_map =
  regions :: "hw_mem_region list"
  min_ram_alignment :: u64

definition hw_is_aligned :: "hw_mem_map \<Rightarrow> u64 \<Rightarrow> bool" where
  "hw_is_aligned m val = bits_is_aligned (min_ram_alignment m) val"

definition hw_align_up :: "hw_mem_map \<Rightarrow> u64 \<Rightarrow> u64" where
  "hw_align_up m val = bits_round_up (min_ram_alignment m) val"

definition hw_align_down :: "hw_mem_map \<Rightarrow> u64 \<Rightarrow> u64" where
  "hw_align_down m val = bits_round_down (min_ram_alignment m) val"

section \<open>Building the map\<close>

definition hw_mem_map_builder_new :: "u64 \<Rightarrow> ('e, hw_mem_map) result" where
  "hw_mem_map_builder_new align =
     (if page_size_is_aligned Size4k align
      then Ok \<lparr>regions = [], min_ram_alignment = align\<rparr> else Panic)"

text \<open>
  The loop of \<open>add_memory_region\<close> and of \<open>add_mmio_region\<close>: the index at which a
  region goes, or the overlap that forbids it.
\<close>

fun insert_index :: "hw_mem_region \<Rightarrow> hw_mem_region list \<Rightarrow> nat \<Rightarrow> (hw_mem_error, nat) result" where
  "insert_index r [] i = Ok i"
| "insert_index r (other # rest) i =
     (if page_addr_lt (region_base r) (region_base other)
      then result_bind (region_end r)
             (\<lambda>e. if page_addr_lt (region_base other) e then Err OverlappingRegion else Ok i)
      else result_bind (region_end other)
             (\<lambda>e. if page_addr_lt (region_base r) e then Err OverlappingRegion
                  else insert_index r rest (Suc i)))"

definition add_memory_region ::
    "hw_mem_region array_vec \<Rightarrow> hw_mem_map \<Rightarrow> supervisor_phys raw_addr \<Rightarrow> u64
      \<Rightarrow> (hw_mem_error, hw_mem_map) result" where
  "add_memory_region av m base sz =
     (if \<not> hw_is_aligned m (raw_bits base) then Err UnalignedRegion
      else result_bind (unwrap_option (page_addr_new base)) (\<lambda>base.
        let region = \<lparr>region_type = Available, region_base = base,
                      region_size = hw_align_down m sz\<rparr>
        in result_bind (insert_index region (regions m) 0) (\<lambda>index.
             result_bind (ok_or (av_try_insert av (regions m) index region) OutOfSpace)
               (\<lambda>rs. Ok (m\<lparr>regions := rs\<rparr>)))))"

definition add_mmio_region ::
    "hw_mem_region array_vec \<Rightarrow> hw_mem_map \<Rightarrow> device_mem_type \<Rightarrow> supervisor_phys raw_addr \<Rightarrow> u64
      \<Rightarrow> (hw_mem_error, hw_mem_map) result" where
  "add_mmio_region av m dev base sz =
     (let region = \<lparr>region_type = MmioMem dev,
                    region_base = page_addr_with_round_down base Size4k,
                    region_size = page_size_round_up Size4k sz\<rparr>
      in result_bind (insert_index region (regions m) 0) (\<lambda>index.
           result_bind (ok_or (av_try_insert av (regions m) index region) OutOfSpace)
             (\<lambda>rs. Ok (m\<lparr>regions := rs\<rparr>))))"

section \<open>Reserving memory\<close>

text \<open>\<open>Iterator::position\<close> for a predicate that may panic.\<close>

fun position_try :: "('a \<Rightarrow> ('e, bool) result) \<Rightarrow> 'a list \<Rightarrow> nat \<Rightarrow> ('e, nat option) result" where
  "position_try p [] i = Ok None"
| "position_try p (x # xs) i =
     result_bind (p x) (\<lambda>b. if b then Ok (Some i) else position_try p xs (Suc i))"

text \<open>The closure of \<open>reserve_region\<close>: does an available region contain the one asked for?\<close>

definition reserve_fits :: "hw_mem_region \<Rightarrow> hw_mem_region \<Rightarrow> (hw_mem_error, bool) result" where
  "reserve_fits region other =
     (if region_type other = Available \<and> page_addr_le (region_base other) (region_base region)
      then result_bind (region_end region) (\<lambda>e.
             result_bind (region_end other) (\<lambda>oe. Ok (page_addr_le e oe)))
      else Ok False)"

text \<open>
  The second half of \<open>reserve_region\<close>, from the overwrite of \<open>regions[index]\<close> on:
  the space after the reservation becomes a region of its own.
\<close>

definition reserve_tail ::
    "hw_mem_region array_vec \<Rightarrow> hw_mem_map \<Rightarrow> hw_mem_region \<Rightarrow> nat
      \<Rightarrow> (hw_mem_error, unit) result \<times> hw_mem_map" where
  "reserve_tail av m region index =
     (if length (regions m) \<le> index then (Panic, m)
      else case region_end (regions m ! index) of
        Err e \<Rightarrow> (Err e, m)
      | Panic \<Rightarrow> (Panic, m)
      | Ok oend \<Rightarrow>
          let m' = m\<lparr>regions := (regions m)[index := region]\<rparr> in
          case region_end region of
            Err e \<Rightarrow> (Err e, m')
          | Panic \<Rightarrow> (Panic, m')
          | Ok rend \<Rightarrow>
              if page_addr_lt rend oend
              then (let after = \<lparr>region_type = Available, region_base = rend,
                                 region_size = page_addr_bits oend - page_addr_bits rend\<rparr>
                    in case av_try_insert av (regions m') (index + 1) after of
                         None \<Rightarrow> (Err OutOfSpace, m')
                       | Some rs \<Rightarrow> (Ok (), m'\<lparr>regions := rs\<rparr>))
              else (Ok (), m'))"

definition reserve_split ::
    "hw_mem_region array_vec \<Rightarrow> hw_mem_map \<Rightarrow> hw_mem_region \<Rightarrow> nat
      \<Rightarrow> (hw_mem_error, unit) result \<times> hw_mem_map" where
  "reserve_split av m region index =
     (if length (regions m) \<le> index then (Panic, m)
      else let other = regions m ! index in
        if page_addr_lt (region_base other) (region_base region)
        then (let before = \<lparr>region_type = Available, region_base = region_base other,
                            region_size = page_addr_bits (region_base region)
                                          - page_addr_bits (region_base other)\<rparr>
              in case av_try_insert av (regions m) index before of
                   None \<Rightarrow> (Err OutOfSpace, m)
                 | Some rs \<Rightarrow> reserve_tail av (m\<lparr>regions := rs\<rparr>) region (index + 1))
        else reserve_tail av m region index)"

definition reserve_region ::
    "hw_mem_region array_vec \<Rightarrow> hw_mem_map \<Rightarrow> hw_reserved_mem_type \<Rightarrow> supervisor_phys raw_addr \<Rightarrow> u64
      \<Rightarrow> (hw_mem_error, unit) result \<times> hw_mem_map" where
  "reserve_region av m resv base sz =
     (case page_addr_new (raw_supervisor (hw_align_down m (raw_bits base))) of
        None \<Rightarrow> (Panic, m)
      | Some base \<Rightarrow>
          let region = \<lparr>region_type = ReservedMem resv, region_base = base,
                        region_size = hw_align_up m sz\<rparr>
          in case position_try (reserve_fits region) (regions m) 0 of
               Err e \<Rightarrow> (Err e, m)
             | Panic \<Rightarrow> (Panic, m)
             | Ok None \<Rightarrow> (Err InvalidReservedRegion, m)
             | Ok (Some index) \<Rightarrow> reserve_split av m region index)"

definition reserve_and_take_pages ::
    "hw_mem_region array_vec \<Rightarrow> hw_mem_map \<Rightarrow> hw_reserved_mem_type \<Rightarrow> supervisor_page_addr
      \<Rightarrow> page_size \<Rightarrow> u64 \<Rightarrow> (hw_mem_error, seq_pages) result \<times> hw_mem_map" where
  "reserve_and_take_pages av m resv base s count =
     (case reserve_region av m resv (page_addr_raw base) (count * page_size_bytes s) of
        (Err e, m') \<Rightarrow> (Err e, m')
      | (Panic, m') \<Rightarrow> (Panic, m')
      | (Ok _, m') \<Rightarrow>
          (map_err (\<lambda>_. SequentialPagesFailed) (seq_from_mem_range StInternalDirty base s count), m'))"

text \<open>The builder's \<open>reserve_region\<close> consumes the builder: on an error the map is gone.\<close>

definition builder_reserve_region ::
    "hw_mem_region array_vec \<Rightarrow> hw_mem_map \<Rightarrow> hw_reserved_mem_type \<Rightarrow> supervisor_phys raw_addr \<Rightarrow> u64
      \<Rightarrow> (hw_mem_error, hw_mem_map) result" where
  "builder_reserve_region av m resv base sz =
     (case reserve_region av m resv base sz of
        (Ok _, m') \<Rightarrow> Ok m'
      | (Err e, _) \<Rightarrow> Err e
      | (Panic, _) \<Rightarrow> Panic)"

section \<open>Well-formed maps\<close>

definition rbase :: "hw_mem_region \<Rightarrow> nat" where
  "rbase r = addr_nat (region_base r)"

definition rend :: "hw_mem_region \<Rightarrow> nat" where
  "rend r = rbase r + unat (region_size r)"

text \<open>
  A region is made of whole pages below the top of the address space, and a RAM
  region of whole units of the map's alignment.
\<close>

definition region_ok :: "u64 \<Rightarrow> hw_mem_region \<Rightarrow> bool" where
  "region_ok al r \<longleftrightarrow>
     4096 dvd rbase r \<and> 4096 dvd unat (region_size r) \<and> rend r < 2 ^ 64
   \<and> (region_mem_type (region_type r) = Ram \<longrightarrow>
        unat al dvd rbase r \<and> unat al dvd unat (region_size r))"

definition align_ok :: "u64 \<Rightarrow> bool" where
  "align_ok al \<longleftrightarrow> (\<exists>k \<in> {12..<64}. al = 2 ^ k)"

definition region_before :: "hw_mem_region \<Rightarrow> hw_mem_region \<Rightarrow> bool" where
  "region_before r s \<longleftrightarrow> rend r \<le> rbase s"

definition hw_mem_map_wf :: "hw_mem_map \<Rightarrow> bool" where
  "hw_mem_map_wf m \<longleftrightarrow>
     align_ok (min_ram_alignment m) \<and> length (regions m) \<le> MAX_HW_MEM_REGIONS
   \<and> (\<forall>r \<in> set (regions m). region_ok (min_ram_alignment m) r)
   \<and> sorted_wrt region_before (regions m)"

text \<open>What the map says of a byte: the type of the region that holds it.\<close>

definition covers :: "hw_mem_region \<Rightarrow> nat \<Rightarrow> bool" where
  "covers r a \<longleftrightarrow> rbase r \<le> a \<and> a < rend r"

definition type_at :: "hw_mem_region list \<Rightarrow> nat \<Rightarrow> hw_mem_region_type option" where
  "type_at rs a = map_option region_type (find (\<lambda>r. covers r a) rs)"

lemma type_at_Nil [simp]: "type_at [] a = None"
  by (simp add: type_at_def)

lemma type_at_Cons:
  "type_at (r # rs) a = (if covers r a then Some (region_type r) else type_at rs a)"
  by (simp add: type_at_def)

lemma type_at_append:
  "type_at (xs @ ys) a = (case type_at xs a of None \<Rightarrow> type_at ys a | Some t \<Rightarrow> Some t)"
  by (induction xs) (simp_all add: type_at_Cons)

lemma type_at_None: "(type_at rs a = None) = (\<forall>r \<in> set rs. \<not> covers r a)"
  by (auto simp: type_at_def find_None_iff)

lemma region_end_Ok:
  assumes "region_ok al r"
  obtains e where "region_end r = Ok e" and "addr_nat e = rend r" and "4096 dvd addr_nat e"
proof -
  have sz: "unat (region_size r div page_size_bytes Size4k) * bytes_nat Size4k = unat (region_size r)"
    using assms by (simp add: region_ok_def unat_div)
  have al: "page_addr_is_aligned (region_base r) Size4k"
    using assms by (simp add: region_ok_def rbase_def align_simps)
  have lt: "addr_nat (region_base r)
      + unat (region_size r div page_size_bytes Size4k) * bytes_nat Size4k < 2 ^ 64"
    unfolding sz using assms by (simp add: region_ok_def rend_def rbase_def)
  from checked_add_pages_with_size_fits [OF al lt] obtain e where
    e: "checked_add_pages (region_base r) (region_size r div page_size_bytes Size4k) = Some e"
      "addr_nat e = rend r" "page_addr_is_aligned e Size4k"
    unfolding sz by (metis checked_add_pages_def rend_def rbase_def)
  show thesis
    by (rule that [of e]) (use e in \<open>simp_all add: region_end_def align_simps\<close>)
qed

lemma rbase_le_rend: "rbase r \<le> rend r"
  by (simp add: rend_def)

lemma insert_index_spec:
  assumes "region_ok al r" and "\<forall>s \<in> set rs. region_ok al s" and "sorted_wrt region_before rs"
  shows "case insert_index r rs i of
      Ok j \<Rightarrow> \<exists>pre post. rs = pre @ post \<and> j = i + length pre
               \<and> (\<forall>s \<in> set pre. region_before s r) \<and> (\<forall>s \<in> set post. region_before r s)
    | Err e \<Rightarrow> e = OverlappingRegion
               \<and> (\<exists>s \<in> set rs. covers s (rbase r) \<or> rbase r < rbase s \<and> rbase s < rend r)
    | Panic \<Rightarrow> False"
  using assms(2,3)
proof (induction rs arbitrary: i)
  case Nil
  then show ?case by simp
next
  case (Cons s rs)
  obtain e where e: "(region_end r :: (hw_mem_error, _) result) = Ok e" "addr_nat e = rend r"
    using region_end_Ok [OF assms(1)] .
  obtain f where f: "(region_end s :: (hw_mem_error, _) result) = Ok f" "addr_nat f = rend s"
    using region_end_Ok [of al s] Cons.prems(1) by auto
  show ?case
  proof (cases "rbase r < rbase s")
    case True
    have "\<forall>u \<in> set rs. rend r \<le> rbase u" if "rend r \<le> rbase s"
      using Cons.prems(2) that rbase_le_rend [of s] by (fastforce simp: region_before_def)
    with True e show ?thesis
      by (force simp: page_addr_lt_iff rbase_def [symmetric] region_before_def
          intro: exI [of _ "[]"])
  next
    case False
    show ?thesis
    proof (cases "rbase r < rend s")
      case True
      with False f show ?thesis
        by (auto simp: page_addr_lt_iff rbase_def [symmetric] covers_def)
    next
      case nov: False
      have step: "insert_index r (s # rs) i = insert_index r rs (Suc i)"
        using False nov f by (simp add: page_addr_lt_iff rbase_def [symmetric])
      have s: "region_before s r"
        using nov by (simp add: region_before_def)
      show ?thesis
      proof (cases "insert_index r rs (Suc i)")
        case (Ok j)
        then obtain pre post where "rs = pre @ post" and "j = Suc i + length pre"
          and "\<forall>s \<in> set pre. region_before s r" and "\<forall>s \<in> set post. region_before r s"
          using Cons.IH [of "Suc i"] Cons.prems by auto
        with s show ?thesis
          unfolding step Ok result.case by (intro exI [of _ "s # pre"] exI [of _ post]) simp
      qed (use step Cons.IH [of "Suc i"] Cons.prems in auto)
    qed
  qed
qed

lemma hw_mem_map_wf_insert:
  assumes "hw_mem_map_wf m" and "regions m = pre @ post" and "region_ok (min_ram_alignment m) r"
    and "\<forall>s \<in> set pre. region_before s r" and "\<forall>s \<in> set post. region_before r s"
    and "length (regions m) < MAX_HW_MEM_REGIONS"
  shows "hw_mem_map_wf (m\<lparr>regions := pre @ r # post\<rparr>)"
  using assms by (simp add: hw_mem_map_wf_def sorted_wrt_append ball_Un)

lemma type_at_insert:
  assumes "\<forall>s \<in> set pre. region_before s r" and "\<forall>s \<in> set post. region_before r s"
  shows "type_at (pre @ r # post) a
          = (if covers r a then Some (region_type r) else type_at (pre @ post) a)"
    and "covers r a \<Longrightarrow> type_at (pre @ post) a = None"
proof -
  have "type_at pre a = None" if "covers r a"
    using assms that by (fastforce simp: type_at_None covers_def region_before_def)
  moreover have "type_at post a = None" if "covers r a"
    using assms that by (fastforce simp: type_at_None covers_def region_before_def)
  ultimately show "type_at (pre @ r # post) a
          = (if covers r a then Some (region_type r) else type_at (pre @ post) a)"
    and "covers r a \<Longrightarrow> type_at (pre @ post) a = None"
    by (simp_all add: type_at_append type_at_Cons split: option.split)
qed

text \<open>The common end of both \<open>add\<close> operations, for a region that is itself in order.\<close>

definition insert_region ::
    "hw_mem_region array_vec \<Rightarrow> hw_mem_map \<Rightarrow> hw_mem_region \<Rightarrow> (hw_mem_error, hw_mem_map) result" where
  "insert_region av m region =
     result_bind (insert_index region (regions m) 0) (\<lambda>index.
       result_bind (ok_or (av_try_insert av (regions m) index region) OutOfSpace)
         (\<lambda>rs. Ok (m\<lparr>regions := rs\<rparr>)))"

definition region_added :: "hw_mem_map \<Rightarrow> hw_mem_region \<Rightarrow> hw_mem_map \<Rightarrow> bool" where
  "region_added m r m' \<longleftrightarrow>
     hw_mem_map_wf m' \<and> min_ram_alignment m' = min_ram_alignment m
   \<and> (\<forall>a. covers r a \<longrightarrow> type_at (regions m) a = None)
   \<and> (\<forall>a. type_at (regions m') a
          = (if covers r a then Some (region_type r) else type_at (regions m) a))"

definition add_outcome ::
    "hw_mem_map \<Rightarrow> hw_mem_region \<Rightarrow> (hw_mem_error, hw_mem_map) result \<Rightarrow> bool" where
  "add_outcome m r res \<longleftrightarrow>
     (case res of
        Ok m' \<Rightarrow> region_added m r m'
      | Err OverlappingRegion \<Rightarrow>
          (\<exists>s \<in> set (regions m). covers s (rbase r) \<or> rbase r < rbase s \<and> rbase s < rend r)
      | Err OutOfSpace \<Rightarrow> length (regions m) = MAX_HW_MEM_REGIONS
      | _ \<Rightarrow> False)"

lemma insert_region_outcome:
  assumes wf: "hw_mem_map_wf m" and r: "region_ok (min_ram_alignment m) r"
    and av: "array_vec_ok MAX_HW_MEM_REGIONS av"
  shows "add_outcome m r (insert_region av m r)"
proof (cases "insert_index r (regions m) 0")
  case (Ok j)
  then obtain pre post where rs: "regions m = pre @ post" "j = length pre"
    and pp: "\<forall>s \<in> set pre. region_before s r" "\<forall>s \<in> set post. region_before r s"
    using insert_index_spec [OF r, of "regions m" 0] wf by (auto simp: hw_mem_map_wf_def)
  show ?thesis
  proof (cases "length (regions m) < MAX_HW_MEM_REGIONS")
    case True
    then have "insert_region av m r = Ok (m\<lparr>regions := pre @ r # post\<rparr>)"
      using try_insert_eq [OF av, of pre post r] rs Ok by (simp add: insert_region_def)
    then show ?thesis
      using hw_mem_map_wf_insert [OF wf rs(1) r pp True] type_at_insert [OF pp] rs(1)
      by (simp add: add_outcome_def region_added_def)
  next
    case False
    then have "insert_region av m r = Err OutOfSpace"
      using try_insert_eq [OF av, of pre post r] rs Ok by (simp add: insert_region_def)
    then show ?thesis
      using False wf by (simp add: add_outcome_def hw_mem_map_wf_def)
  qed
next
  case (Err e)
  then show ?thesis
    using insert_index_spec [OF r, of "regions m" 0] wf
    by (auto simp: hw_mem_map_wf_def insert_region_def add_outcome_def)
next
  case Panic
  then show ?thesis
    using insert_index_spec [OF r, of "regions m" 0] wf by (auto simp: hw_mem_map_wf_def)
qed

lemma align_ok_pow2:
  assumes "align_ok al"
  obtains k where "pow2_size al k" and "12 \<le> k"
  using assms by (auto simp: align_ok_def pow2_size_def)

lemma align_ok_4096: "align_ok al \<Longrightarrow> 4096 dvd unat al"
proof -
  assume "align_ok al"
  then obtain k where k: "pow2_size al k" "12 \<le> k"
    by (rule align_ok_pow2)
  then have "(2 :: nat) ^ 12 dvd 2 ^ k"
    by (intro le_imp_power_dvd)
  then show ?thesis
    using pow2_size.unat_sz [OF k(1)] by simp
qed

lemma hw_align_iff:
  assumes "align_ok (min_ram_alignment m)"
  shows "hw_is_aligned m x = (unat (min_ram_alignment m) dvd unat x)"
    and "unat (min_ram_alignment m) dvd unat (hw_align_down m x)"
    and "unat (min_ram_alignment m) dvd unat (hw_align_up m x)"
proof -
  obtain k where k: "pow2_size (min_ram_alignment m) k"
    using assms by (rule align_ok_pow2)
  show "hw_is_aligned m x = (unat (min_ram_alignment m) dvd unat x)"
    by (simp add: hw_is_aligned_def pow2_size.is_aligned_iff [OF k])
  show "unat (min_ram_alignment m) dvd unat (hw_align_down m x)"
    using pow2_size.round_down_aligned [OF k, of x]
    by (simp add: hw_align_down_def pow2_size.is_aligned_iff [OF k])
  show "unat (min_ram_alignment m) dvd unat (hw_align_up m x)"
    using pow2_size.round_up_aligned [OF k, of x]
    by (simp add: hw_align_up_def pow2_size.is_aligned_iff [OF k])
qed

lemma region_ok_ram:
  assumes "align_ok al" and "unat al dvd rbase r" and "unat al dvd unat (region_size r)"
    and "rend r < 2 ^ 64"
  shows "region_ok al r"
  using assms align_ok_4096 [OF assms(1)] unfolding region_ok_def by (metis dvd_trans)

lemma add_memory_region_outcome:
  assumes "array_vec_ok MAX_HW_MEM_REGIONS av" and "hw_mem_map_wf m"
    and lt: "unat (raw_bits b) + unat (hw_align_down m sz) < 2 ^ 64"
    and a: "hw_is_aligned m (raw_bits b)"
  shows "add_outcome m \<lparr>region_type = Available, region_base = PageAddr b,
           region_size = hw_align_down m sz\<rparr> (add_memory_region av m b sz)"
proof -
  let ?r = "\<lparr>region_type = Available, region_base = PageAddr b, region_size = hw_align_down m sz\<rparr>"
  have al: "align_ok (min_ram_alignment m)"
    using assms(2) by (simp add: hw_mem_map_wf_def)
  have ok: "region_ok (min_ram_alignment m) ?r"
    using a lt by (intro region_ok_ram al) (simp_all add: rbase_def rend_def hw_align_iff [OF al])
  have "page_addr_new b = Some (PageAddr b)"
    using ok by (simp add: region_ok_def rbase_def page_addr_new_Some)
  then have "add_memory_region av m b sz = insert_region av m ?r"
    using a by (simp add: add_memory_region_def insert_region_def Let_def)
  then show ?thesis
    using insert_region_outcome [OF assms(2) ok assms(1)] by simp
qed

lemma add_mmio_region_outcome:
  assumes "array_vec_ok MAX_HW_MEM_REGIONS av" and "hw_mem_map_wf m"
    and lt: "unat (page_size_round_down Size4k (raw_bits b)) + unat (page_size_round_up Size4k sz)
               < 2 ^ 64"
  shows "add_outcome m \<lparr>region_type = MmioMem dev, region_base = page_addr_with_round_down b Size4k,
           region_size = page_size_round_up Size4k sz\<rparr> (add_mmio_region av m dev b sz)"
proof -
  let ?r = "\<lparr>region_type = MmioMem dev, region_base = page_addr_with_round_down b Size4k,
             region_size = page_size_round_up Size4k sz\<rparr>"
  have "region_ok (min_ram_alignment m) ?r"
    using lt page_size_round_down_dvd [of Size4k "raw_bits b"] page_size_round_up_dvd [of Size4k sz]
    by (simp add: region_ok_def rbase_def rend_def page_addr_with_round_down_def)
  then show ?thesis
    using insert_region_outcome [OF assms(2) _ assms(1)]
    by (simp add: add_mmio_region_def insert_region_def Let_def)
qed


section \<open>Reservations\<close>

lemma position_try_spec:
  assumes "\<forall>x \<in> set xs. \<exists>b. p x = Ok b"
  shows "case position_try p xs i of
      Ok None \<Rightarrow> \<forall>x \<in> set xs. p x = Ok False
    | Ok (Some j) \<Rightarrow> \<exists>pre x post. xs = pre @ x # post \<and> j = i + length pre \<and> p x = Ok True
    | _ \<Rightarrow> False"
  using assms
proof (induction xs arbitrary: i)
  case (Cons x xs)
  from Cons.prems obtain b where b: "p x = Ok b"
    by auto
  show ?case
  proof (cases b)
    case True
    with b show ?thesis
      by (auto intro: exI [of _ "[]"])
  next
    case False
    then have step: "position_try p (x # xs) i = position_try p xs (Suc i)"
      using b by simp
    note IH = Cons.IH [of "Suc i"]
    show ?thesis
    proof (cases "position_try p xs (Suc i)")
      case (Ok r)
      show ?thesis
      proof (cases r)
        case (Some j)
        then obtain pre y post where "xs = pre @ y # post" "j = Suc i + length pre" "p y = Ok True"
          using IH Cons.prems Ok by auto
        then show ?thesis
          unfolding step Ok Some result.case option.case
          by (intro exI [of _ "x # pre"] exI [of _ y] exI [of _ post]) simp
      qed (use step IH Cons.prems Ok b False in auto)
    qed (use step IH Cons.prems in auto)
  qed
qed simp

text \<open>Does region \<open>s\<close> leave room for a reservation of region \<open>r\<close>?\<close>

definition holds_region :: "hw_mem_region \<Rightarrow> hw_mem_region \<Rightarrow> bool" where
  "holds_region s r \<longleftrightarrow> region_type s = Available \<and> rbase s \<le> rbase r \<and> rend r \<le> rend s"

lemma reserve_fits_Ok:
  assumes "region_ok al r" and "region_ok al s"
  shows "reserve_fits r s = Ok (holds_region s r)"
proof -
  obtain e where e: "(region_end r :: (hw_mem_error, _) result) = Ok e" "addr_nat e = rend r"
    using region_end_Ok [OF assms(1)] .
  obtain f where f: "(region_end s :: (hw_mem_error, _) result) = Ok f" "addr_nat f = rend s"
    using region_end_Ok [OF assms(2)] .
  show ?thesis
    using e f by (auto simp: reserve_fits_def page_addr_le_iff holds_region_def rbase_def)
qed

text \<open>The pieces of an available region \<open>s\<close> around a reservation \<open>r\<close>.\<close>

definition piece_before :: "hw_mem_region \<Rightarrow> hw_mem_region \<Rightarrow> hw_mem_region list" where
  "piece_before s r =
     (if rbase s < rbase r
      then [\<lparr>region_type = Available, region_base = region_base s,
             region_size = page_addr_bits (region_base r) - page_addr_bits (region_base s)\<rparr>]
      else [])"

definition piece_after :: "hw_mem_region \<Rightarrow> hw_mem_region \<Rightarrow> hw_mem_region list" where
  "piece_after s r =
     (if rend r < rend s
      then [\<lparr>region_type = Available,
             region_base = PageAddr (raw_supervisor (word_of_nat (rend r))),
             region_size = word_of_nat (rend s - rend r)\<rparr>]
      else [])"

lemma piece_before_ok:
  assumes "region_ok al r" and "region_ok al s" and "holds_region s r" and "align_ok al"
    and "region_mem_type (region_type r) = Ram" and "p \<in> set (piece_before s r)"
  shows "region_ok al p" and "rbase p = rbase s" and "rend p = rbase r"
    and "region_type p = Available" and "rbase s < rbase r"
proof -
  have lt: "rbase s < rbase r" and p: "p = \<lparr>region_type = Available, region_base = region_base s,
      region_size = page_addr_bits (region_base r) - page_addr_bits (region_base s)\<rparr>"
    using assms(6) by (auto simp: piece_before_def split: if_splits)
  have sz: "unat (region_size p) = rbase r - rbase s"
    using lt by (simp add: p rbase_def addr_nat_def unat_sub_u64 word_le_nat_alt)
  show base: "rbase p = rbase s" and "region_type p = Available" and "rbase s < rbase r"
    using lt by (simp_all add: p rbase_def)
  show rend: "rend p = rbase r"
    using sz base lt by (simp add: rend_def)
  show "region_ok al p"
  proof (rule region_ok_ram [OF assms(4)])
    have d: "unat al dvd rbase r" "unat al dvd rbase s"
      using assms(1,2,3,5) by (simp_all add: region_ok_def holds_region_def)
    then show "unat al dvd rbase p" and "unat al dvd unat (region_size p)"
      using base sz by (simp_all add: dvd_diff_nat)
    show "rend p < 2 ^ 64"
      unfolding rend rbase_def by (rule addr_nat_less)
  qed
qed

lemma piece_after_ok:
  assumes "region_ok al r" and "region_ok al s" and "holds_region s r" and "align_ok al"
    and "region_mem_type (region_type r) = Ram" and "p \<in> set (piece_after s r)"
  shows "region_ok al p" and "rbase p = rend r" and "rend p = rend s"
    and "region_type p = Available" and "rend r < rend s"
proof -
  have lt: "rend r < rend s" and p: "p = \<lparr>region_type = Available,
      region_base = PageAddr (raw_supervisor (word_of_nat (rend r))),
      region_size = word_of_nat (rend s - rend r)\<rparr>"
    using assms(6) by (auto simp: piece_after_def split: if_splits)
  have top: "rend r < 2 ^ 64" "rend s < 2 ^ 64"
    using assms(1,2) by (simp_all add: region_ok_def)
  show base: "rbase p = rend r" and "region_type p = Available" and "rend r < rend s"
    using lt top unat_of_nat_u64 [OF top(1)] by (simp_all add: p rbase_def raw_supervisor_def)
  have sz: "unat (region_size p) = rend s - rend r"
    using top unat_of_nat_u64 [of "rend s - rend r"] by (simp add: p)
  show rend: "rend p = rend s"
    using sz base lt by (simp add: rend_def [of p])
  show "region_ok al p"
  proof (rule region_ok_ram [OF assms(4)])
    have "unat al dvd rend r" "unat al dvd rend s"
      using assms(1,2,3,5) by (simp_all add: region_ok_def holds_region_def rend_def)
    then show "unat al dvd rbase p" and "unat al dvd unat (region_size p)"
      using base sz by (simp_all add: dvd_diff_nat)
    show "rend p < 2 ^ 64"
      unfolding rend by (rule top(2))
  qed
qed

lemma region_end_word:
  assumes "region_ok al r"
  shows "(region_end r :: ('e, _) result) = Ok (PageAddr (raw_supervisor (word_of_nat (rend r))))"
proof -
  obtain e where e: "(region_end r :: ('e, _) result) = Ok e" "addr_nat e = rend r"
    using region_end_Ok [OF assms] .
  have "rend r < 2 ^ 64"
    using assms by (simp add: region_ok_def)
  then have "e = PageAddr (raw_supervisor (word_of_nat (rend r)))"
    unfolding supervisor_addr_eq_iff e(2) addr_nat_PageAddr raw_supervisor_def raw_addr.sel
    by (simp only: unat_of_nat_u64)
  with e(1) show ?thesis
    by simp
qed

lemma word_of_nat_diff:
  "b \<le> a \<Longrightarrow> (word_of_nat (a - b) :: u64) = word_of_nat a - word_of_nat b"
  by (simp add: of_nat_diff)

lemma reserve_tail_eq:
  assumes av: "array_vec_ok MAX_HW_MEM_REGIONS av" and rs: "regions m = pre @ s # post"
    and ok: "region_ok al r" "region_ok al s"
  shows "reserve_tail av m r (length pre) =
    (if length (regions m) + length (piece_after s r) \<le> MAX_HW_MEM_REGIONS \<or> piece_after s r = []
     then (Ok (), m\<lparr>regions := pre @ r # piece_after s r @ post\<rparr>)
     else (Err OutOfSpace, m\<lparr>regions := pre @ r # post\<rparr>))"
proof -
  have top: "rend r < 2 ^ 64" "rend s < 2 ^ 64"
    using ok by (simp_all add: region_ok_def)
  have lt: "page_addr_lt (PageAddr (raw_supervisor (word_of_nat (rend r))))
      (PageAddr (raw_supervisor (word_of_nat (rend s)))) = (rend r < rend s)"
    by (simp add: page_addr_lt_iff raw_supervisor_def unat_of_nat_u64 [OF top(1)]
        unat_of_nat_u64 [OF top(2)])
  have ins: "av_try_insert av (pre @ r # post) (Suc (length pre)) x
      = (if length (regions m) < MAX_HW_MEM_REGIONS then Some (pre @ r # x # post) else None)" for x
    using try_insert_eq [OF av, of "pre @ [r]" post x] rs by simp
  have upd: "(pre @ s # post)[length pre := r] = pre @ r # post"
    by simp
  show ?thesis
    by (simp add: reserve_tail_def rs region_end_word [OF ok(1)] region_end_word [OF ok(2)] upd
        lt [unfolded raw_supervisor_def] ins [unfolded rs] piece_after_def word_of_nat_diff page_addr_bits_def raw_supervisor_def
        Let_def Suc_le_eq)
qed

lemma reserve_split_eq:
  assumes av: "array_vec_ok MAX_HW_MEM_REGIONS av" and rs: "regions m = pre @ s # post"
    and ok: "region_ok al r" "region_ok al s" and len: "length (regions m) \<le> MAX_HW_MEM_REGIONS"
  shows "reserve_split av m r (length pre) =
    (let n = length (regions m) + length (piece_before s r) in
     if MAX_HW_MEM_REGIONS < n then (Err OutOfSpace, m)
     else if n + length (piece_after s r) \<le> MAX_HW_MEM_REGIONS
     then (Ok (), m\<lparr>regions := pre @ piece_before s r @ r # piece_after s r @ post\<rparr>)
     else (Err OutOfSpace, m\<lparr>regions := pre @ piece_before s r @ r # post\<rparr>))"
proof (cases "rbase s < rbase r")
  case True
  let ?b = "\<lparr>region_type = Available, region_base = region_base s,
             region_size = page_addr_bits (region_base r) - page_addr_bits (region_base s)\<rparr>"
  have "av_try_insert av (pre @ s # post) (length pre) ?b
      = (if length (regions m) < MAX_HW_MEM_REGIONS then Some (pre @ ?b # s # post) else None)"
    using try_insert_eq [OF av, of pre "s # post"] rs by simp
  moreover have "reserve_tail av (m\<lparr>regions := (pre @ [?b]) @ s # post\<rparr>) r (length (pre @ [?b])) =
    (if length (regions m) + 1 + length (piece_after s r) \<le> MAX_HW_MEM_REGIONS
        \<or> piece_after s r = []
     then (Ok (), m\<lparr>regions := pre @ ?b # r # piece_after s r @ post\<rparr>)
     else (Err OutOfSpace, m\<lparr>regions := pre @ ?b # r # post\<rparr>))"
    using reserve_tail_eq [OF av _ ok, of "m\<lparr>regions := (pre @ [?b]) @ s # post\<rparr>" "pre @ [?b]" post]
    by (simp add: rs)
  ultimately show ?thesis
    using True len by (auto simp: reserve_split_def rs piece_before_def Let_def page_addr_lt_iff
        rbase_def [symmetric])
next
  case False
  then show ?thesis
    using reserve_tail_eq [OF av rs ok] len
    by (auto simp: reserve_split_def rs piece_before_def Let_def page_addr_lt_iff
        rbase_def [symmetric])
qed

lemma type_at_pieces:
  assumes "region_ok al r" and "region_ok al s" and "holds_region s r" and "align_ok al"
    and "region_mem_type (region_type r) = Ram"
  shows "type_at (piece_before s r) a = (if rbase s \<le> a \<and> a < rbase r then Some Available else None)"
    and "type_at (piece_after s r) a = (if rend r \<le> a \<and> a < rend s then Some Available else None)"
proof -
  show "type_at (piece_before s r) a = (if rbase s \<le> a \<and> a < rbase r then Some Available else None)"
  proof (cases "piece_before s r")
    case (Cons p ps)
    then have "ps = []" and "p \<in> set (piece_before s r)"
      by (auto simp: piece_before_def split: if_splits)
    then show ?thesis
      using piece_before_ok [OF assms] Cons by (simp add: type_at_Cons covers_def)
  qed (auto simp: piece_before_def split: if_splits)
  show "type_at (piece_after s r) a = (if rend r \<le> a \<and> a < rend s then Some Available else None)"
  proof (cases "piece_after s r")
    case (Cons p ps)
    then have "ps = []" and "p \<in> set (piece_after s r)"
      by (auto simp: piece_after_def split: if_splits)
    then show ?thesis
      using piece_after_ok [OF assms] Cons by (simp add: type_at_Cons covers_def)
  qed (auto simp: piece_after_def split: if_splits)
qed

lemma sorted_replace:
  assumes "sorted_wrt region_before (pre @ s # post)" and "sorted_wrt region_before ms"
    and ms: "\<And>x. x \<in> set ms \<Longrightarrow> rbase s \<le> rbase x \<and> rend x \<le> rend s"
  shows "sorted_wrt region_before (pre @ ms @ post)"
proof -
  have "region_before x y" if "x \<in> set pre" and "y \<in> set ms" for x y
    using assms(1) ms [OF that(2)] that(1) by (auto simp: sorted_wrt_append region_before_def)
  moreover have "region_before x y" if "x \<in> set ms" and "y \<in> set post" for x y
    using assms(1) ms [OF that(1)] that(2) by (auto simp: sorted_wrt_append region_before_def)
  ultimately show ?thesis
    using assms(1,2) by (auto simp: sorted_wrt_append)
qed

text \<open>The map after a reservation, with or without the piece behind it.\<close>

lemma reserve_result_wf:
  assumes wf: "hw_mem_map_wf m" and rs: "regions m = pre @ s # post"
    and ok: "region_ok (min_ram_alignment m) r" and hold: "holds_region s r"
    and ram: "region_mem_type (region_type r) = Ram"
    and A: "A = piece_after s r \<or> A = []"
    and len: "length (pre @ piece_before s r @ r # A @ post) \<le> MAX_HW_MEM_REGIONS"
  shows "hw_mem_map_wf (m\<lparr>regions := pre @ piece_before s r @ r # A @ post\<rparr>)"
proof -
  let ?al = "min_ram_alignment m"
  have al: "align_ok ?al" and oks: "region_ok ?al s"
    using wf by (simp_all add: hw_mem_map_wf_def rs)
  note before = piece_before_ok [OF ok oks hold al ram] and after = piece_after_ok [OF ok oks hold al ram]
  have sorted: "sorted_wrt region_before (pre @ s # post)"
    using wf by (simp add: hw_mem_map_wf_def rs)
  have in_s: "rbase s \<le> rbase x \<and> rend x \<le> rend s" if "x \<in> set (piece_before s r @ r # A)" for x
    using that A hold before after rbase_le_rend [of x] rbase_le_rend [of r]
    by (auto simp: holds_region_def)
  have parts: "sorted_wrt region_before (piece_before s r @ r # A)"
  proof -
    have "sorted_wrt region_before (piece_before s r)" and "sorted_wrt region_before A"
      using A by (auto simp: piece_before_def piece_after_def)
    moreover have "\<forall>x \<in> set (piece_before s r). rend x = rbase r"
      using before(3) by blast
    moreover have "\<forall>y \<in> set A. rbase y = rend r"
      using A after(2) by auto
    ultimately show ?thesis
      using rbase_le_rend [of r] by (simp add: sorted_wrt_append region_before_def)
  qed
  have oks': "\<forall>x \<in> set (piece_before s r @ r # A). region_ok ?al x"
    using A before after ok by auto
  have "sorted_wrt region_before (pre @ (piece_before s r @ r # A) @ post)"
    using sorted parts in_s by (rule sorted_replace)
  then show ?thesis
    using wf len oks' by (auto simp: hw_mem_map_wf_def rs)
qed

lemma reserve_result_type:
  assumes wf: "hw_mem_map_wf m" and rs: "regions m = pre @ s # post"
    and ok: "region_ok (min_ram_alignment m) r" and hold: "holds_region s r"
    and ram: "region_mem_type (region_type r) = Ram"
    and A: "A = piece_after s r \<or> A = []"
  shows "type_at (pre @ piece_before s r @ r # A @ post) a =
          (if covers r a then Some (region_type r)
           else if A = [] \<and> rend r \<le> a \<and> a < rend s then None
           else type_at (regions m) a)"
    and "covers r a \<Longrightarrow> type_at (regions m) a = Some Available"
proof -
  have al: "align_ok (min_ram_alignment m)" and oks: "region_ok (min_ram_alignment m) s"
    and sorted: "sorted_wrt region_before (pre @ s # post)"
    using wf by (simp_all add: hw_mem_map_wf_def rs)
  note pieces = type_at_pieces [OF ok oks hold al ram]
  have pre: "type_at pre a = None" if "covers s a"
    using sorted that by (fastforce simp: type_at_None covers_def sorted_wrt_append region_before_def)
  have post: "type_at post a = None" if "covers s a"
    using sorted that by (fastforce simp: type_at_None covers_def sorted_wrt_append region_before_def)
  have sub: "covers s a" if "covers r a"
    using that hold by (auto simp: covers_def holds_region_def)
  show "type_at (regions m) a = Some Available" if "covers r a"
    using that pre [OF sub] sub hold
    by (simp add: rs type_at_append type_at_Cons holds_region_def)
  have As: "type_at A a = (if A = [] then None else if rend r \<le> a \<and> a < rend s then Some Available else None)"
    using A pieces(2) by auto
  show "type_at (pre @ piece_before s r @ r # A @ post) a =
          (if covers r a then Some (region_type r)
           else if A = [] \<and> rend r \<le> a \<and> a < rend s then None
           else type_at (regions m) a)"
    using pre post sub hold rbase_le_rend [of r]
    by (auto simp: rs type_at_append type_at_Cons pieces(1) As covers_def holds_region_def
        split: option.split)
qed

definition reserve_outcome ::
    "hw_mem_map \<Rightarrow> hw_mem_region \<Rightarrow> (hw_mem_error, unit) result \<Rightarrow> hw_mem_map \<Rightarrow> bool" where
  "reserve_outcome m r res m' \<longleftrightarrow>
     hw_mem_map_wf m' \<and> min_ram_alignment m' = min_ram_alignment m
   \<and> (case res of
        Ok _ \<Rightarrow>
          (\<forall>a. covers r a \<longrightarrow> type_at (regions m) a = Some Available)
        \<and> (\<forall>a. type_at (regions m') a
               = (if covers r a then Some (region_type r) else type_at (regions m) a))
      | Err InvalidReservedRegion \<Rightarrow> m' = m \<and> \<not> (\<exists>s \<in> set (regions m). holds_region s r)
      | Err OutOfSpace \<Rightarrow>
          MAX_HW_MEM_REGIONS \<le> length (regions m) + 1
        \<and> (m' = m
           \<or> (\<exists>s \<in> set (regions m). holds_region s r \<and> rend r < rend s
               \<and> (\<forall>a. type_at (regions m') a
                    = (if covers r a then Some (region_type r)
                       else if rend r \<le> a \<and> a < rend s then None
                       else type_at (regions m) a))))
      | _ \<Rightarrow> False)"

lemma reserve_split_outcome:
  assumes av: "array_vec_ok MAX_HW_MEM_REGIONS av" and wf: "hw_mem_map_wf m"
    and rs: "regions m = pre @ s # post" and ok: "region_ok (min_ram_alignment m) r"
    and hold: "holds_region s r" and ram: "region_mem_type (region_type r) = Ram"
  shows "case reserve_split av m r (length pre) of (res, m') \<Rightarrow> reserve_outcome m r res m'"
proof -
  let ?B = "piece_before s r" and ?A = "piece_after s r"
  have oks: "region_ok (min_ram_alignment m) s" and len: "length (regions m) \<le> MAX_HW_MEM_REGIONS"
    using wf by (simp_all add: hw_mem_map_wf_def rs)
  note eq = reserve_split_eq [OF av rs ok oks len]
  have short: "length ?B \<le> 1" "length ?A \<le> 1" "?A \<noteq> [] \<Longrightarrow> rend r < rend s"
    by (simp_all add: piece_before_def piece_after_def split: if_splits)
  consider "MAX_HW_MEM_REGIONS < length (regions m) + length ?B"
    | "length (regions m) + length ?B + length ?A \<le> MAX_HW_MEM_REGIONS"
    | "length (regions m) + length ?B \<le> MAX_HW_MEM_REGIONS"
      "MAX_HW_MEM_REGIONS < length (regions m) + length ?B + length ?A"
    by linarith
  then show ?thesis
  proof cases
    case 1
    then show ?thesis
      using wf short(1) by (simp add: eq reserve_outcome_def)
  next
    case 2
    have "hw_mem_map_wf (m\<lparr>regions := pre @ ?B @ r # ?A @ post\<rparr>)"
      by (rule reserve_result_wf [OF wf rs ok hold ram]) (use 2 rs in simp_all)
    moreover have "type_at (pre @ ?B @ r # ?A @ post) a
        = (if covers r a then Some (region_type r) else type_at (regions m) a)" for a
    proof -
      have "\<not> (?A = [] \<and> rend r \<le> a \<and> a < rend s)"
        by (simp add: piece_after_def)
      then show ?thesis
        by (simp only: reserve_result_type(1) [OF wf rs ok hold ram disjI1 [OF refl]] if_False)
    qed
    ultimately show ?thesis
      using 2 reserve_result_type(2) [OF wf rs ok hold ram disjI1 [OF refl]]
      by (simp add: eq reserve_outcome_def)
  next
    case 3
    then have "?A \<noteq> []"
      by auto
    then have lt: "rend r < rend s"
      by (rule short(3))
    have "hw_mem_map_wf (m\<lparr>regions := pre @ ?B @ r # [] @ post\<rparr>)"
      by (rule reserve_result_wf [OF wf rs ok hold ram]) (use 3 rs in simp_all)
    then show ?thesis
      using 3 lt hold short reserve_result_type(1) [OF wf rs ok hold ram disjI2 [OF refl]]
      by (simp add: eq reserve_outcome_def rs)
  qed
qed

text \<open>
  C26: reserving memory takes exactly the rounded range out of one available region.
  On success every byte of the range was available, every byte of it is now
  reserved for the given purpose, every other byte keeps its type, and the map
  stays sorted, disjoint and aligned. \<open>InvalidReservedRegion\<close> means that no available
  region contains the range, and leaves the map alone. \<open>OutOfSpace\<close> needs at least
  31 entries in use; it keeps the map well formed, but it can leave the range
  reserved with the memory behind it no longer in the map. The call never panics.
\<close>

theorem reserve_region_correct:
  assumes "array_vec_ok MAX_HW_MEM_REGIONS av" and "hw_mem_map_wf m"
    and "unat (hw_align_down m (raw_bits b)) + unat (hw_align_up m sz) < 2 ^ 64"
  shows "case reserve_region av m resv b sz of (res, m') \<Rightarrow>
           reserve_outcome m
             \<lparr>region_type = ReservedMem resv,
              region_base = PageAddr (raw_supervisor (hw_align_down m (raw_bits b))),
              region_size = hw_align_up m sz\<rparr> res m'"
proof -
  let ?b = "raw_supervisor (hw_align_down m (raw_bits b))"
  let ?r = "\<lparr>region_type = ReservedMem resv, region_base = PageAddr ?b,
             region_size = hw_align_up m sz\<rparr>"
  have al: "align_ok (min_ram_alignment m)"
    using assms(2) by (simp add: hw_mem_map_wf_def)
  have ok: "region_ok (min_ram_alignment m) ?r"
    using assms(3)
    by (intro region_ok_ram al) (simp_all add: rbase_def rend_def raw_supervisor_def hw_align_iff [OF al])
  have new: "page_addr_new ?b = Some (PageAddr ?b)"
    using ok by (simp add: region_ok_def rbase_def page_addr_new_Some)
  have fits: "reserve_fits ?r s = Ok (holds_region s ?r)" if "s \<in> set (regions m)" for s
    using reserve_fits_Ok [OF ok] assms(2) that by (simp add: hw_mem_map_wf_def)
  have pos: "case position_try (reserve_fits ?r) (regions m) 0 of
      Ok None \<Rightarrow> \<forall>x \<in> set (regions m). reserve_fits ?r x = Ok False
    | Ok (Some j) \<Rightarrow> \<exists>pre x post. regions m = pre @ x # post \<and> j = 0 + length pre
                       \<and> reserve_fits ?r x = Ok True
    | _ \<Rightarrow> False"
    by (rule position_try_spec) (use fits in blast)
  have eq: "reserve_region av m resv b sz =
      (case position_try (reserve_fits ?r) (regions m) 0 of
         Err e \<Rightarrow> (Err e, m) | Panic \<Rightarrow> (Panic, m)
       | Ok None \<Rightarrow> (Err InvalidReservedRegion, m)
       | Ok (Some index) \<Rightarrow> reserve_split av m ?r index)"
    by (simp add: reserve_region_def new Let_def)
  show ?thesis
  proof (cases "position_try (reserve_fits ?r) (regions m) 0")
    case (Ok res)
    show ?thesis
    proof (cases res)
      case None
      then show ?thesis
        using pos Ok eq fits assms(2) by (auto simp: reserve_outcome_def)
    next
      case (Some j)
      then obtain pre s post where "regions m = pre @ s # post" "j = length pre" "holds_region s ?r"
        using pos Ok fits by auto
      then show ?thesis
        using reserve_split_outcome [OF assms(1,2) _ ok] eq Ok Some by simp
    qed
  qed (use pos in auto)
qed

text \<open>One bank of RAM with the firmware's minimum alignment, for the witnesses.\<close>

definition example_map :: hw_mem_map where
  "example_map =
     \<lparr>regions = [\<lparr>region_type = Available, region_base = PageAddr (raw_supervisor 0x80000000),
                  region_size = 0x10000\<rparr>],
      min_ram_alignment = 0x1000\<rparr>"

lemma example_map_wf: "hw_mem_map_wf example_map"
proof -
  have "align_ok 0x1000"
    unfolding align_ok_def by (rule bexI [of _ 12]) simp_all
  then show ?thesis
    by (simp add: hw_mem_map_wf_def example_map_def region_ok_def rend_def rbase_def
        raw_supervisor_def MAX_HW_MEM_REGIONS_def)
qed

lemma example_map_align:
  "hw_align_down example_map x = x AND NOT 0xfff"
  "hw_align_up example_map x = (x + 0xfff) AND NOT 0xfff"
  by (simp_all add: hw_align_down_def hw_align_up_def example_map_def bits_round_down_def
      bits_round_up_def algebra_simps)


theorem reserve_region_correct_witness:
  "case reserve_region (list_array_vec MAX_HW_MEM_REGIONS) example_map HypervisorHeap
          (raw_supervisor 0x80004000) 0x1000 of
     (res, m') \<Rightarrow>
       reserve_outcome example_map
         \<lparr>region_type = ReservedMem HypervisorHeap,
          region_base = PageAddr (raw_supervisor 0x80004000), region_size = 0x1000\<rparr> res m'"
proof -
  have eqs: "hw_align_down example_map (raw_bits (raw_supervisor 0x80004000)) = 0x80004000"
    "hw_align_up example_map 0x1000 = 0x1000"
    by (simp_all add: example_map_align raw_supervisor_def)
  have "unat (hw_align_down example_map (raw_bits (raw_supervisor 0x80004000)))
      + unat (hw_align_up example_map 0x1000) < 2 ^ 64"
    by (simp add: eqs)
  from reserve_region_correct [OF list_array_vec_ok example_map_wf this, of HypervisorHeap]
  show ?thesis
    unfolding eqs .
qed

text \<open>
  The base and the size of a reservation are rounded separately, so a range that
  is not aligned is not always covered: here the last 2kB asked for stay available.
\<close>

lemma reserve_region_unaligned_uncovered:
  "\<exists>m'. reserve_region (list_array_vec MAX_HW_MEM_REGIONS) example_map FirmwareReserved
          (raw_supervisor 0x80001800) 0x1000 = (Ok (), m')
      \<and> 0x80001800 \<le> (0x80002000 :: nat) \<and> 0x80002000 < (0x80001800 + 0x1000 :: nat)
      \<and> type_at (regions m') 0x80002000 = Some Available"
  by (simp add: reserve_region_def hw_align_down_def hw_align_up_def bits_round_down_def
      bits_round_up_def raw_supervisor_def page_addr_new_def
      page_addr_with_alignment_def page_size_is_aligned_iff example_map_def reserve_fits_def
      page_addr_le_iff page_addr_lt_iff region_end_def Let_def reserve_split_def reserve_tail_def
      checked_add_pages_def checked_add_pages_with_size_def checked_mul_def raw_checked_increment_def
      checked_add_def list_array_vec_def MAX_HW_MEM_REGIONS_def page_addr_bits_def
      type_at_Cons covers_def rbase_def rend_def)

text \<open>
  When the map has no entry left for the memory behind a reservation, the error
  comes after the map was changed, and that memory is in no region any more.
\<close>

lemma reserve_split_out_of_space_loses:
  assumes "array_vec_ok MAX_HW_MEM_REGIONS av" and "hw_mem_map_wf m"
    and "regions m = pre @ s # post" and "region_ok (min_ram_alignment m) r"
    and "length (regions m) = MAX_HW_MEM_REGIONS" and "holds_region s r"
    and "region_mem_type (region_type r) = Ram" and "rbase s = rbase r" and "rend r < rend s"
    and "rend r \<le> a" and "a < rend s"
  shows "reserve_split av m r (length pre) = (Err OutOfSpace, m\<lparr>regions := pre @ r # post\<rparr>)"
    and "type_at (regions m) a = Some Available" and "type_at (pre @ r # post) a = None"
proof -
  have oks: "region_ok (min_ram_alignment m) s"
    using assms(2) by (simp add: hw_mem_map_wf_def assms(3))
  have B: "piece_before s r = []" and A: "length (piece_after s r) = 1"
    using assms(8,9) by (simp_all add: piece_before_def piece_after_def)
  show "reserve_split av m r (length pre) = (Err OutOfSpace, m\<lparr>regions := pre @ r # post\<rparr>)"
    using reserve_split_eq [OF assms(1,3,4) oks] assms(5) A B by (simp add: Let_def)
  show "type_at (pre @ r # post) a = None"
    using reserve_result_type(1) [OF assms(2,3,4,6,7) disjI2 [OF refl], of a] B assms(10,11)
    by (simp add: covers_def)
  have "covers s a"
    using assms(8,10,11) rbase_le_rend [of r] by (simp add: covers_def)
  moreover have "type_at pre a = None"
  proof -
    have "\<forall>x \<in> set pre. rend x \<le> rbase s"
      using assms(2,3) by (simp add: hw_mem_map_wf_def sorted_wrt_append region_before_def)
    then show ?thesis
      using calculation unfolding type_at_None covers_def by (meson le_trans not_less)
  qed
  ultimately show "type_at (regions m) a = Some Available"
    using assms(6) by (simp add: assms(3) type_at_append type_at_Cons holds_region_def)
qed

end
