(* ===== verification/Page_Info.thy ===== *)
theory Page_Info
  imports Riscv_Pages Array_Vec
begin

text \<open>
  The state machine of one physical page (\<open>page-tracking/src/page_info.rs\<close>, lines
  14 to 398, with \<open>tlb_version.rs\<close> and the error type of \<open>page_tracker.rs\<close>): who owns
  the page, through which chain of owners it came, and where it stands between being
  mapped by one owner and being handed to another. An operation returns its result
  beside the page's information, so that what an error leaves behind is visible.
\<close>

section \<open>Data\<close>

datatype tlb_version = TlbVersion (tlb_raw: u64)

definition tlb_version_new :: tlb_version where
  "tlb_version_new = TlbVersion 0"

definition tlb_increment :: "tlb_version \<Rightarrow> tlb_version" where
  "tlb_increment v = TlbVersion (tlb_raw v + 1)"

instantiation tlb_version :: linorder
begin

definition less_eq_tlb_version :: "tlb_version \<Rightarrow> tlb_version \<Rightarrow> bool" where
  "v \<le> w \<longleftrightarrow> tlb_raw v \<le> tlb_raw w"

definition less_tlb_version :: "tlb_version \<Rightarrow> tlb_version \<Rightarrow> bool" where
  "v < w \<longleftrightarrow> tlb_raw v < tlb_raw w"

instance
  by standard (auto simp: less_eq_tlb_version_def less_tlb_version_def tlb_version.expand)

end

datatype page_tracking_error =
    GuestOverflow | IdOverflow | InvalidPage supervisor_page_addr | OwnerOverflow | OwnerUnderflow
  | UnownedPage | HypervisorStatePage | ReservedPage | OwnerMismatch | SharedPage
  | PageNotConvertible | PageNotAssignable | PageNotUnassignable | PageNotReclaimable
  | PageNotShareable | PageNotShared | InvalidStateTransition | PageNotLocked | PageLocked
  | PageAlreadyLinked | RefCountOverflow | RefCountUnderflow

datatype page_state =
    Reserved | Free | Mapped | Shared u64 | VmState | HypState | Converting tlb_version
  | Unassigning tlb_version | Converted | ConvertedLocked

definition MAX_PAGE_OWNERS :: nat where "MAX_PAGE_OWNERS = 2"

record page_info =
  info_mem_type :: mem_type
  info_state :: page_state
  info_owners :: "page_owner_id list"
  info_link :: "u64 option"

type_synonym owner_vec = "page_owner_id array_vec"
type_synonym info_result = "(page_tracking_error, unit) result \<times> page_info"

section \<open>Constructors and queries\<close>

definition info_new :: page_info where
  "info_new = \<lparr>info_mem_type = Ram, info_state = Free, info_owners = [], info_link = None\<rparr>"

definition info_new_hypervisor_owned :: page_info where
  "info_new_hypervisor_owned =
     \<lparr>info_mem_type = Ram, info_state = ConvertedLocked, info_owners = [], info_link = None\<rparr>"

definition info_new_reserved :: page_info where
  "info_new_reserved =
     \<lparr>info_mem_type = Ram, info_state = Reserved, info_owners = [], info_link = None\<rparr>"

definition info_new_mmio :: "device_mem_type \<Rightarrow> page_info" where
  "info_new_mmio dev =
     \<lparr>info_mem_type = Mmio dev, info_state = ConvertedLocked, info_owners = [], info_link = None\<rparr>"

fun has_owner :: "page_state \<Rightarrow> bool" where
  "has_owner (Converting _) = True"
| "has_owner (Unassigning _) = True"
| "has_owner Converted = True"
| "has_owner ConvertedLocked = True"
| "has_owner Mapped = True"
| "has_owner VmState = True"
| "has_owner (Shared _) = True"
| "has_owner _ = False"

definition info_owner :: "page_info \<Rightarrow> page_owner_id option" where
  "info_owner p =
     (if has_owner (info_state p)
      then (if info_owners p \<noteq> [] then Some (info_owners p ! (length (info_owners p) - 1))
            else Some owner_hypervisor)
      else None)"

definition info_is_free :: "page_info \<Rightarrow> bool" where
  "info_is_free p = (info_state p = Free)"

definition info_is_reserved :: "page_info \<Rightarrow> bool" where
  "info_is_reserved p = (info_state p = Reserved)"

fun info_is_convertible :: "page_info \<Rightarrow> tlb_version \<Rightarrow> bool" where
  "info_is_convertible p v = (case info_state p of Converting w \<Rightarrow> w < v | _ \<Rightarrow> False)"

fun info_is_unassignable :: "page_info \<Rightarrow> tlb_version \<Rightarrow> bool" where
  "info_is_unassignable p v = (case info_state p of Unassigning w \<Rightarrow> w < v | _ \<Rightarrow> False)"

fun info_is_shareable :: "page_info \<Rightarrow> bool" where
  "info_is_shareable p =
     (case info_state p of
        Shared rc \<Rightarrow> rc \<noteq> - 1
      | Mapped \<Rightarrow> True
      | _ \<Rightarrow> False)"

fun info_is_shared :: "page_info \<Rightarrow> bool" where
  "info_is_shared p = (case info_state p of Shared _ \<Rightarrow> True | _ \<Rightarrow> False)"

section \<open>Transitions\<close>

text \<open>\<open>self.owners.pop().unwrap()\<close> followed by the move to \<open>Converted\<close>.\<close>

definition pop_owner :: "owner_vec \<Rightarrow> page_info \<Rightarrow> info_result" where
  "pop_owner av p =
     (if info_owners p = [] then (Err OwnerUnderflow, p)
      else case av_pop av (info_owners p) of
             (None, _) \<Rightarrow> (Panic, p)
           | (Some _, os) \<Rightarrow> (Ok (), p\<lparr>info_owners := os, info_state := Converted\<rparr>))"

definition info_release :: "owner_vec \<Rightarrow> page_info \<Rightarrow> info_result" where
  "info_release av p =
     (case info_state p of
        Mapped \<Rightarrow> pop_owner av p
      | VmState \<Rightarrow> pop_owner av p
      | Converted \<Rightarrow> pop_owner av p
      | Converting _ \<Rightarrow> pop_owner av p
      | Unassigning _ \<Rightarrow> pop_owner av p
      | ConvertedLocked \<Rightarrow> (Err PageLocked, p)
      | Shared rc \<Rightarrow>
          (case checked_sub rc 1 of
             Some rc' \<Rightarrow> (Ok (), p\<lparr>info_state := if rc' = 0 then Mapped else Shared rc'\<rparr>)
           | None \<Rightarrow> (Err RefCountUnderflow, p))
      | HypState \<Rightarrow> (Err HypervisorStatePage, p)
      | Reserved \<Rightarrow> (Err ReservedPage, p)
      | Free \<Rightarrow> (Err UnownedPage, p))"

definition info_assign :: "owner_vec \<Rightarrow> page_owner_id \<Rightarrow> page_state \<Rightarrow> page_info \<Rightarrow> info_result" where
  "info_assign av owner new_state p =
     (case info_state p of
        Free \<Rightarrow>
          if new_state \<noteq> ConvertedLocked \<and> new_state \<noteq> HypState then (Err InvalidStateTransition, p)
          else if owner \<noteq> owner_hypervisor
          then (case av_push av (info_owners p) owner of
                  Ok os \<Rightarrow> (Ok (), p\<lparr>info_owners := os, info_state := new_state\<rparr>)
                | Err e \<Rightarrow> (Err e, p)
                | Panic \<Rightarrow> (Panic, p))
          else (Ok (), p\<lparr>info_state := new_state\<rparr>)
      | Converted \<Rightarrow> (Err PageNotLocked, p)
      | ConvertedLocked \<Rightarrow>
          if new_state \<noteq> Mapped \<and> new_state \<noteq> VmState then (Err InvalidStateTransition, p)
          else (case av_try_push av (info_owners p) owner of
                  None \<Rightarrow> (Err OwnerOverflow, p)
                | Some os \<Rightarrow> (Ok (), p\<lparr>info_owners := os, info_state := new_state\<rparr>))
      | _ \<Rightarrow> (Err PageNotAssignable, p))"

definition info_begin_conversion :: "tlb_version \<Rightarrow> page_info \<Rightarrow> info_result" where
  "info_begin_conversion v p =
     (case info_state p of
        Mapped \<Rightarrow> (Ok (), p\<lparr>info_state := Converting v\<rparr>)
      | _ \<Rightarrow> (Err PageNotConvertible, p))"

definition info_complete_conversion :: "tlb_version \<Rightarrow> page_info \<Rightarrow> info_result" where
  "info_complete_conversion v p =
     (case info_state p of
        Converting w \<Rightarrow>
          if w < v then (Ok (), p\<lparr>info_state := Converted\<rparr>) else (Err PageNotConvertible, p)
      | _ \<Rightarrow> (Err PageNotConvertible, p))"

definition info_begin_unassignment :: "tlb_version \<Rightarrow> page_info \<Rightarrow> info_result" where
  "info_begin_unassignment v p =
     (case info_state p of
        Mapped \<Rightarrow> (Ok (), p\<lparr>info_state := Unassigning v\<rparr>)
      | _ \<Rightarrow> (Err PageNotUnassignable, p))"

definition info_complete_unassignment :: "owner_vec \<Rightarrow> tlb_version \<Rightarrow> page_info \<Rightarrow> info_result" where
  "info_complete_unassignment av v p =
     (case info_state p of
        Unassigning w \<Rightarrow> if w < v then pop_owner av p else (Err PageNotUnassignable, p)
      | _ \<Rightarrow> (Err PageNotUnassignable, p))"

definition info_lock_for_assignment :: "page_info \<Rightarrow> info_result" where
  "info_lock_for_assignment p =
     (case info_state p of
        Converted \<Rightarrow> (Ok (), p\<lparr>info_state := ConvertedLocked\<rparr>)
      | ConvertedLocked \<Rightarrow> (Err PageLocked, p)
      | _ \<Rightarrow> (Err PageNotAssignable, p))"

definition info_unlock :: "page_info \<Rightarrow> info_result" where
  "info_unlock p =
     (case info_state p of
        ConvertedLocked \<Rightarrow> (Ok (), p\<lparr>info_state := Converted\<rparr>)
      | _ \<Rightarrow> (Err PageNotLocked, p))"

definition info_share :: "page_info \<Rightarrow> info_result" where
  "info_share p =
     (case info_state p of
        Mapped \<Rightarrow> (Ok (), p\<lparr>info_state := Shared 1\<rparr>)
      | Shared rc \<Rightarrow>
          (case checked_add rc 1 of
             Some rc' \<Rightarrow> (Ok (), p\<lparr>info_state := Shared rc'\<rparr>)
           | None \<Rightarrow> (Err RefCountOverflow, p))
      | _ \<Rightarrow> (Err PageNotShareable, p))"

definition info_reclaim :: "page_info \<Rightarrow> info_result" where
  "info_reclaim p =
     (case info_state p of
        ConvertedLocked \<Rightarrow> (Ok (), p\<lparr>info_state := Mapped\<rparr>)
      | _ \<Rightarrow> (Err PageNotReclaimable, p))"

section \<open>Links\<close>

definition info_set_link :: "supervisor_page_addr \<Rightarrow> page_info \<Rightarrow> info_result" where
  "info_set_link nxt p =
     (case info_link p of
        Some _ \<Rightarrow> (Err PageAlreadyLinked, p)
      | None \<Rightarrow>
          if page_addr_bits nxt = 0 then (Err (InvalidPage nxt), p)
          else (Ok (), p\<lparr>info_link := Some (page_addr_bits nxt)\<rparr>))"

definition info_unlink :: "page_info \<Rightarrow> page_info" where
  "info_unlink p = p\<lparr>info_link := None\<rparr>"

definition info_next :: "page_info \<Rightarrow> supervisor_page_addr option" where
  "info_next p = Option.bind (info_link p) (\<lambda>n. page_addr_new (raw_supervisor n))"

section \<open>The commands on one page, as a machine\<close>

text \<open>
  Every operation above that changes a page, as a command, so that a history of a
  page is a list of commands.
\<close>

datatype info_cmd =
    CmdRelease
  | CmdAssign page_owner_id page_state
  | CmdBeginConversion tlb_version
  | CmdCompleteConversion tlb_version
  | CmdBeginUnassignment tlb_version
  | CmdCompleteUnassignment tlb_version
  | CmdLock
  | CmdUnlock
  | CmdShare
  | CmdReclaim

fun info_exec :: "owner_vec \<Rightarrow> info_cmd \<Rightarrow> page_info \<Rightarrow> info_result" where
  "info_exec av CmdRelease p = info_release av p"
| "info_exec av (CmdAssign owner s) p = info_assign av owner s p"
| "info_exec av (CmdBeginConversion v) p = info_begin_conversion v p"
| "info_exec av (CmdCompleteConversion v) p = info_complete_conversion v p"
| "info_exec av (CmdBeginUnassignment v) p = info_begin_unassignment v p"
| "info_exec av (CmdCompleteUnassignment v) p = info_complete_unassignment av v p"
| "info_exec av CmdLock p = info_lock_for_assignment p"
| "info_exec av CmdUnlock p = info_unlock p"
| "info_exec av CmdShare p = info_share p"
| "info_exec av CmdReclaim p = info_reclaim p"

fun info_run :: "owner_vec \<Rightarrow> info_cmd list \<Rightarrow> page_info \<Rightarrow> page_info" where
  "info_run av [] p = p"
| "info_run av (c # cs) p = info_run av cs (snd (info_exec av c p))"

lemma info_run_append: "info_run av (cs @ ds) p = info_run av ds (info_run av cs p)"
  by (induction cs arbitrary: p) simp_all

section \<open>Invariant and contract of an operation\<close>

text \<open>
  A page never has more than two owners recorded, an unowned page has none, the
  reference count of a shared page is at least one, and a link is the address of a
  page other than page 0.
\<close>

definition info_wf :: "page_info \<Rightarrow> bool" where
  "info_wf p \<longleftrightarrow>
     length (info_owners p) \<le> MAX_PAGE_OWNERS
   \<and> (info_state p = Free \<or> info_state p = Reserved \<longrightarrow> info_owners p = [])
   \<and> info_state p \<noteq> Shared 0
   \<and> (case info_link p of None \<Rightarrow> True | Some n \<Rightarrow> n \<noteq> 0 \<and> 4096 dvd unat n)"

lemma info_new_wf [simp]:
  "info_wf info_new" "info_wf info_new_hypervisor_owned" "info_wf info_new_reserved"
  "info_wf (info_new_mmio d)"
  by (simp_all add: info_wf_def info_new_def info_new_hypervisor_owned_def info_new_reserved_def
      info_new_mmio_def)

text \<open>
  What the page tracker relies on from an operation on one page, under a condition
  \<open>ok\<close> on the operation's own arguments: it keeps the invariant, does not panic,
  changes nothing when it fails, and never changes the kind of memory.
\<close>

locale page_op =
  fixes ok :: bool and f :: "page_info \<Rightarrow> info_result"
  assumes keeps_wf: "ok \<Longrightarrow> info_wf p \<Longrightarrow> info_wf (snd (f p))"
    and no_panic: "ok \<Longrightarrow> info_wf p \<Longrightarrow> fst (f p) \<noteq> Panic"
    and unchanged: "fst (f p) \<noteq> Ok () \<Longrightarrow> snd (f p) = p"
    and keeps_mem_type: "info_mem_type (snd (f p)) = info_mem_type p"

lemmas info_op_defs = info_release_def info_assign_def info_begin_conversion_def
  info_complete_conversion_def info_begin_unassignment_def info_complete_unassignment_def
  info_lock_for_assignment_def info_unlock_def info_share_def info_reclaim_def pop_owner_def

lemma pop_owner_eq:
  "array_vec_ok cap av \<Longrightarrow>
   pop_owner av p =
     (if info_owners p = [] then (Err OwnerUnderflow, p)
      else (Ok (), p\<lparr>info_owners := butlast (info_owners p), info_state := Converted\<rparr>))"
  by (simp add: pop_owner_def pop_eq)

interpretation op_release: page_op "array_vec_ok MAX_PAGE_OWNERS av" "info_release av" for av
  by unfold_locales
     (auto simp: info_release_def pop_owner_def pop_eq info_wf_def checked_sub_def
       split: page_state.splits option.splits prod.splits if_splits)

interpretation op_assign: page_op "array_vec_ok MAX_PAGE_OWNERS av" "info_assign av owner s"
  for av owner s
  by unfold_locales
     (auto simp: info_assign_def try_push_eq push_eq info_wf_def MAX_PAGE_OWNERS_def
       split: page_state.splits option.splits result.splits if_splits)

interpretation op_begin_conversion: page_op True "info_begin_conversion v" for v
  by unfold_locales (auto simp: info_begin_conversion_def info_wf_def split: page_state.splits)

interpretation op_complete_conversion: page_op True "info_complete_conversion v" for v
  by unfold_locales
     (auto simp: info_complete_conversion_def info_wf_def split: page_state.splits)

interpretation op_begin_unassignment: page_op True "info_begin_unassignment v" for v
  by unfold_locales (auto simp: info_begin_unassignment_def info_wf_def split: page_state.splits)

interpretation op_complete_unassignment:
  page_op "array_vec_ok MAX_PAGE_OWNERS av" "info_complete_unassignment av v" for av v
  by unfold_locales
     (auto simp: info_complete_unassignment_def pop_owner_def pop_eq info_wf_def
       split: page_state.splits prod.splits option.splits if_splits)

interpretation op_lock: page_op True info_lock_for_assignment
  by unfold_locales (auto simp: info_lock_for_assignment_def info_wf_def split: page_state.splits)

interpretation op_unlock: page_op True info_unlock
  by unfold_locales (auto simp: info_unlock_def info_wf_def split: page_state.splits)

lemma checked_add_1_nonzero: "checked_add x 1 \<noteq> Some 0"
  by (simp add: checked_add_Some)

interpretation op_share: page_op True info_share
  by unfold_locales
     (auto simp: info_share_def info_wf_def checked_add_1_nonzero
       split: page_state.splits option.splits if_splits)

interpretation op_reclaim: page_op True info_reclaim
  by unfold_locales (auto simp: info_reclaim_def info_wf_def split: page_state.splits)

interpretation op_set_link: page_op "page_addr_wf nxt" "info_set_link nxt" for nxt
  by unfold_locales
     (auto simp: info_set_link_def info_wf_def page_addr_wf_iff addr_nat_def
       split: option.splits if_splits)

text \<open>The tracker sees a command through the same contract.\<close>

lemma info_exec_page_op: "page_op (array_vec_ok MAX_PAGE_OWNERS av) (info_exec av c)"
proof (cases c)
  case CmdRelease
  then show ?thesis using op_release.page_op_axioms by (simp add: page_op_def)
next
  case (CmdAssign owner s)
  then show ?thesis using op_assign.page_op_axioms by (simp add: page_op_def)
next
  case (CmdBeginConversion v)
  then show ?thesis using op_begin_conversion.page_op_axioms by (simp add: page_op_def)
next
  case (CmdCompleteConversion v)
  then show ?thesis using op_complete_conversion.page_op_axioms by (simp add: page_op_def)
next
  case (CmdBeginUnassignment v)
  then show ?thesis using op_begin_unassignment.page_op_axioms by (simp add: page_op_def)
next
  case (CmdCompleteUnassignment v)
  then show ?thesis using op_complete_unassignment.page_op_axioms by (simp add: page_op_def)
next
  case CmdLock
  then show ?thesis using op_lock.page_op_axioms by (simp add: page_op_def)
next
  case CmdUnlock
  then show ?thesis using op_unlock.page_op_axioms by (simp add: page_op_def)
next
  case CmdShare
  then show ?thesis using op_share.page_op_axioms by (simp add: page_op_def)
next
  case CmdReclaim
  then show ?thesis using op_reclaim.page_op_axioms by (simp add: page_op_def)
qed

interpretation op_exec: page_op "array_vec_ok MAX_PAGE_OWNERS av" "info_exec av c" for av c
  by (rule info_exec_page_op)

lemma info_run_wf:
  "array_vec_ok MAX_PAGE_OWNERS av \<Longrightarrow> info_wf p \<Longrightarrow> info_wf (info_run av cs p)"
  by (induction cs arbitrary: p) (simp_all add: op_exec.keeps_wf)



section \<open>Conversion waits for the TLB\<close>

text \<open>
  A history has waited for the TLB when it invalidated the page at one version and
  finished the operation at a later one.
\<close>

definition tlb_gated :: "info_cmd list \<Rightarrow> bool" where
  "tlb_gated cs \<longleftrightarrow>
     (\<exists>xs v ys w zs. v < w
        \<and> (cs = xs @ CmdBeginConversion v # ys @ CmdCompleteConversion w # zs
         \<or> cs = xs @ CmdBeginUnassignment v # ys @ CmdCompleteUnassignment w # zs))"

lemma tlb_gated_append: "tlb_gated cs \<Longrightarrow> tlb_gated (cs @ ds)"
  unfolding tlb_gated_def by (metis append.assoc append_Cons)

lemma tlb_gated_conversion:
  "v < w \<Longrightarrow> CmdBeginConversion v \<in> set cs \<Longrightarrow> tlb_gated (cs @ [CmdCompleteConversion w])"
  unfolding tlb_gated_def by (metis append.assoc append_Cons split_list)

lemma tlb_gated_unassignment:
  "v < w \<Longrightarrow> CmdBeginUnassignment v \<in> set cs \<Longrightarrow> tlb_gated (cs @ [CmdCompleteUnassignment w])"
  unfolding tlb_gated_def by (metis append.assoc append_Cons split_list)

text \<open>Where a page that was mapped stands as long as its history has not waited.\<close>

fun mapped_phase :: "info_cmd list \<Rightarrow> page_state \<Rightarrow> bool" where
  "mapped_phase cs Mapped = True"
| "mapped_phase cs (Shared rc) = True"
| "mapped_phase cs (Converting v) = (CmdBeginConversion v \<in> set cs)"
| "mapped_phase cs (Unassigning v) = (CmdBeginUnassignment v \<in> set cs)"
| "mapped_phase cs _ = False"

lemma mapped_phase_run:
  assumes "info_state p = Mapped" and "CmdRelease \<notin> set cs"
  shows "tlb_gated cs
    \<or> mapped_phase cs (info_state (info_run av cs p)) \<and> info_owners (info_run av cs p) = info_owners p"
  using assms(2)
proof (induction cs rule: rev_induct)
  case Nil
  then show ?case using assms(1) by simp
next
  case (snoc c cs)
  let ?q = "info_run av cs p"
  have run: "info_run av (cs @ [c]) p = snd (info_exec av c ?q)"
    by (simp add: info_run_append)
  consider "tlb_gated cs"
    | "mapped_phase cs (info_state ?q)" "info_owners ?q = info_owners p"
    using snoc by auto
  then show ?case
  proof cases
    case 1
    then show ?thesis by (simp add: tlb_gated_append)
  next
    case 2
    have "c \<noteq> CmdRelease"
      using snoc.prems by auto
    with 2 show ?thesis
      unfolding run
      by (cases c; cases "info_state ?q")
         (auto simp: info_op_defs intro: tlb_gated_conversion tlb_gated_unassignment
           split: option.splits)
  qed
qed



section \<open>The chain of custody\<close>

lemma info_exec_owners:
  assumes "array_vec_ok MAX_PAGE_OWNERS av"
  shows "info_owners (snd (info_exec av c p)) = info_owners p
       \<or> (\<exists>owner. info_owners (snd (info_exec av c p)) = info_owners p @ [owner])
       \<or> info_owners p \<noteq> [] \<and> info_owners (snd (info_exec av c p)) = butlast (info_owners p)"
  using assms
  by (cases c; cases "info_state p")
     (auto simp: info_op_defs pop_eq try_push_eq push_eq split: option.splits)

lemma take_owners_exec:
  assumes "array_vec_ok MAX_PAGE_OWNERS av" and "n \<le> length (info_owners p)"
    and "n \<le> length (info_owners (snd (info_exec av c p)))"
  shows "take n (info_owners (snd (info_exec av c p))) = take n (info_owners p)"
proof -
  have "take n (butlast xs) = take n xs" if "n \<le> length (butlast xs)" "xs \<noteq> []"
    for xs :: "page_owner_id list"
    using that by (cases xs rule: rev_cases) simp_all
  then show ?thesis
    using info_exec_owners [OF assms(1), of c p] assms(2,3) by auto
qed

text \<open>
  C21: ownership nests. The owners of a page form a stack: as long as a history does
  not pop the chain below its first \<open>n\<close> owners, those owners are still there, in
  order, at the end of it. So what a VM assigns to a child comes back to that VM.
\<close>

theorem page_custody_chain:
  assumes "array_vec_ok MAX_PAGE_OWNERS av"
    and "\<forall>k \<le> length cs. n \<le> length (info_owners (info_run av (take k cs) p))"
  shows "take n (info_owners (info_run av cs p)) = take n (info_owners p)"
  using assms(2)
proof (induction cs arbitrary: p)
  case Nil
  then show ?case by simp
next
  case (Cons c cs)
  let ?q = "snd (info_exec av c p)"
  have n: "n \<le> length (info_owners (info_run av (take k cs) ?q))" if "k \<le> length cs" for k
    using Cons.prems [rule_format, of "Suc k"] that by simp
  have "take n (info_owners (info_run av cs ?q)) = take n (info_owners ?q)"
    using Cons.IH [of ?q] n by blast
  also have "\<dots> = take n (info_owners p)"
    using take_owners_exec [OF assms(1)] Cons.prems [rule_format, of 0] n [of 0] by simp
  finally show ?case
    by simp
qed

theorem page_custody_chain_witness:
  "take 1 (info_owners (info_run (list_array_vec MAX_PAGE_OWNERS)
      [CmdAssign (PageOwnerId 2) Mapped, CmdBeginUnassignment (TlbVersion 0),
       CmdCompleteUnassignment (TlbVersion 1)]
      \<lparr>info_mem_type = Ram, info_state = ConvertedLocked, info_owners = [owner_host],
       info_link = None\<rparr>)) = [owner_host]"
proof -
  let ?p = "\<lparr>info_mem_type = Ram, info_state = ConvertedLocked, info_owners = [owner_host],
             info_link = None\<rparr>"
  let ?av = "list_array_vec MAX_PAGE_OWNERS :: owner_vec"
  let ?cs = "[CmdAssign (PageOwnerId 2) Mapped, CmdBeginUnassignment (TlbVersion 0),
              CmdCompleteUnassignment (TlbVersion 1)]"
  have "\<forall>k \<le> length ?cs. 1 \<le> length (info_owners (info_run ?av (take k ?cs) ?p))"
  proof (intro allI impI)
    fix k
    assume "k \<le> length ?cs"
    then consider "k = 0" | "k = 1" | "k = 2" | "k = 3"
      by fastforce
    then show "1 \<le> length (info_owners (info_run ?av (take k ?cs) ?p))"
      by cases (simp_all add: info_op_defs list_array_vec_def MAX_PAGE_OWNERS_def
          less_tlb_version_def)
  qed
  from page_custody_chain [OF list_array_vec_ok this] show ?thesis
    by simp
qed

section \<open>Sharing\<close>

lemma share_step:
  assumes "Suc n < 2 ^ 64"
  shows "info_exec av CmdShare (p\<lparr>info_state := if n = 0 then Mapped else Shared (of_nat n)\<rparr>)
       = (Ok (), p\<lparr>info_state := Shared (of_nat (Suc n))\<rparr>)"
proof -
  have "checked_add (of_nat n :: u64) 1 = Some (of_nat (Suc n))"
    unfolding checked_add_Some using assms by (simp only: unat_of_nat_u64) (simp add: unat_of_nat_u64)
  then show ?thesis
    by (simp add: info_share_def)
qed

lemma release_step:
  assumes "Suc n < 2 ^ 64"
  shows "info_exec av CmdRelease (p\<lparr>info_state := Shared (of_nat (Suc n))\<rparr>)
       = (Ok (), p\<lparr>info_state := if n = 0 then Mapped else Shared (of_nat n)\<rparr>)"
proof -
  have n: "unat (of_nat n :: u64) = n" "unat (of_nat (Suc n) :: u64) = Suc n"
    using assms by (simp_all only: unat_of_nat_u64)
  then have "checked_sub (of_nat (Suc n) :: u64) 1 = Some (of_nat n)"
    unfolding checked_sub_Some by simp
  moreover have "(of_nat n :: u64) = 0 \<longleftrightarrow> n = 0"
    unfolding word_unat_eq_iff n(1) by simp
  ultimately show ?thesis
    by (simp add: info_release_def)
qed

lemma share_run:
  "n < 2 ^ 64 \<Longrightarrow> info_state p = Mapped \<Longrightarrow>
   info_run av (replicate n CmdShare) p = p\<lparr>info_state := if n = 0 then Mapped else Shared (of_nat n)\<rparr>"
proof (induction n)
  case 0
  then show ?case by simp
next
  case (Suc n)
  note IH = Suc.IH [OF Suc_lessD [OF Suc.prems(1)] Suc.prems(2)]
  have "replicate (Suc n) CmdShare = replicate n CmdShare @ [CmdShare]"
    by (simp add: replicate_append_same)
  then show ?case
    by (simp only: info_run_append IH info_run.simps share_step [OF Suc.prems(1)] snd_conv
        nat.distinct if_False)
qed

lemma release_run:
  "n < 2 ^ 64 \<Longrightarrow>
   info_run av (replicate n CmdRelease) (p\<lparr>info_state := if n = 0 then Mapped else Shared (of_nat n)\<rparr>)
   = p\<lparr>info_state := Mapped\<rparr>"
proof (induction n)
  case 0
  then show ?case by simp
next
  case (Suc n)
  from Suc.IH [OF Suc_lessD [OF Suc.prems]] show ?case
    by (simp only: replicate_Suc info_run.simps release_step [OF Suc.prems] snd_conv
        nat.distinct if_False)
qed

text \<open>
  C23: sharing is counted. After \<open>n\<close> shares a mapped page holds \<open>n\<close> references; while
  it holds one it can be neither converted, nor unassigned, nor assigned, nor locked,
  and its owner is unchanged; after \<open>n\<close> releases it is the page it was.
\<close>

theorem page_share_counted:
  assumes "info_state p = Mapped" and "0 < n" and "n < 2 ^ 64"
  shows "info_run av (replicate n CmdShare) p = p\<lparr>info_state := Shared (of_nat n)\<rparr>
    \<and> info_owner (info_run av (replicate n CmdShare) p) = info_owner p
    \<and> (\<forall>c \<in> {CmdBeginConversion v, CmdBeginUnassignment v, CmdAssign owner s, CmdLock, CmdReclaim}.
         \<exists>e. info_exec av c (info_run av (replicate n CmdShare) p)
             = (Err e, info_run av (replicate n CmdShare) p))
    \<and> info_run av (replicate n CmdShare @ replicate n CmdRelease) p = p"
proof -
  have "(if n = 0 then Mapped else Shared (of_nat n)) = Shared (of_nat n)"
    using assms(2) by simp
  then have run: "info_run av (replicate n CmdShare) p = p\<lparr>info_state := Shared (of_nat n)\<rparr>"
    and undo: "info_run av (replicate n CmdRelease) (p\<lparr>info_state := Shared (of_nat n)\<rparr>)
      = p\<lparr>info_state := Mapped\<rparr>"
    using share_run [OF assms(3,1), of av] release_run [OF assms(3), of av p] by simp_all
  then show ?thesis
    using assms(1) by (simp add: info_run_append info_owner_def info_op_defs)
qed

theorem page_share_counted_witness:
  "info_run (list_array_vec MAX_PAGE_OWNERS) (replicate 2 CmdShare @ replicate 2 CmdRelease)
     \<lparr>info_mem_type = Ram, info_state = Mapped, info_owners = [owner_host], info_link = None\<rparr>
   = \<lparr>info_mem_type = Ram, info_state = Mapped, info_owners = [owner_host], info_link = None\<rparr>"
  using page_share_counted [of "\<lparr>info_mem_type = Ram, info_state = Mapped, info_owners = [owner_host],
    info_link = None\<rparr>" 2 "list_array_vec MAX_PAGE_OWNERS"] by simp

end
