(* ===== verification/Page_Vec.thy ===== *)
theory Page_Vec
  imports Sequential_Pages
begin

text \<open>
  \<open>RawPageVec\<close> (\<open>page-tracking/src/collections/page_vec.rs\<close>): a vector whose storage
  is a run of pages, used before and below any allocator. The size of an element,
  \<open>core::mem::size_of::<T>()\<close>, is an argument. A push beyond the capacity panics, as
  there is no allocator to grow from.
\<close>

section \<open>Operations\<close>

record 'a raw_page_vec =
  pv_items :: "'a list"
  pv_capacity :: nat
  pv_base :: supervisor_page_addr
  pv_page_size :: page_size

definition pv_from_pages :: "nat \<Rightarrow> seq_pages \<Rightarrow> 'a raw_page_vec" where
  "pv_from_pages elem_size sq =
     \<lparr>pv_items = [], pv_capacity = unat (seq_length_bytes sq) div elem_size,
      pv_base = seq_addr sq, pv_page_size = seq_page_size sq\<rparr>"

definition pv_try_reserve :: "'a raw_page_vec \<Rightarrow> nat \<Rightarrow> bool" where
  "pv_try_reserve v additional \<longleftrightarrow> length (pv_items v) + additional \<le> pv_capacity v"

definition pv_push :: "'a raw_page_vec \<Rightarrow> 'a \<Rightarrow> ('e, 'a raw_page_vec) result" where
  "pv_push v x =
     (if length (pv_items v) < pv_capacity v then Ok (v\<lparr>pv_items := pv_items v @ [x]\<rparr>) else Panic)"

definition pv_retain :: "('a \<Rightarrow> bool) \<Rightarrow> 'a raw_page_vec \<Rightarrow> 'a raw_page_vec" where
  "pv_retain f v = v\<lparr>pv_items := filter f (pv_items v)\<rparr>"

definition pv_insert :: "'a raw_page_vec \<Rightarrow> nat \<Rightarrow> 'a \<Rightarrow> ('e, 'a raw_page_vec) result" where
  "pv_insert v i x =
     (if i \<le> length (pv_items v) \<and> length (pv_items v) < pv_capacity v
      then Ok (v\<lparr>pv_items := take i (pv_items v) @ x # drop i (pv_items v)\<rparr>) else Panic)"

definition pv_remove :: "'a raw_page_vec \<Rightarrow> nat \<Rightarrow> ('e, 'a \<times> 'a raw_page_vec) result" where
  "pv_remove v i =
     (if i < length (pv_items v)
      then Ok (pv_items v ! i, v\<lparr>pv_items := take i (pv_items v) @ drop (Suc i) (pv_items v)\<rparr>)
      else Panic)"

definition pv_pop :: "'a raw_page_vec \<Rightarrow> 'a option \<times> 'a raw_page_vec" where
  "pv_pop v =
     (if pv_items v = [] then (None, v)
      else (Some (last (pv_items v)), v\<lparr>pv_items := butlast (pv_items v)\<rparr>))"

definition pv_clear :: "'a raw_page_vec \<Rightarrow> 'a raw_page_vec" where
  "pv_clear v = v\<lparr>pv_items := []\<rparr>"

definition pv_get :: "'a raw_page_vec \<Rightarrow> nat \<Rightarrow> 'a option" where
  "pv_get v i = (if i < length (pv_items v) then Some (pv_items v ! i) else None)"

text \<open>A write through the reference that \<open>get_mut\<close> returns.\<close>

definition pv_set :: "'a raw_page_vec \<Rightarrow> nat \<Rightarrow> 'a \<Rightarrow> 'a raw_page_vec" where
  "pv_set v i x = v\<lparr>pv_items := (pv_items v)[i := x]\<rparr>"

definition pv_take_pages :: "nat \<Rightarrow> 'a raw_page_vec \<Rightarrow> ('e, seq_pages) result" where
  "pv_take_pages elem_size v =
     (let page_size = bytes_nat (pv_page_size v);
          vec_page_count = (pv_capacity v * elem_size + page_size - 1) div page_size
      in result_bind (unwrap_option (page_addr_new (page_addr_raw (pv_base v))))
           (\<lambda>base. unwrap (seq_from_mem_range StInternalDirty base (pv_page_size v)
                             (of_nat vec_page_count))))"

definition pv_to_pages :: "nat \<Rightarrow> 'a raw_page_vec \<Rightarrow> ('e, seq_pages) result" where
  "pv_to_pages elem_size v = pv_take_pages elem_size (pv_clear v)"

section \<open>The pages of a vector come back\<close>

lemma ceil_div_eq:
  fixes d :: nat
  assumes "0 < d" and "x \<le> n * d" and "n * d < x + d"
  shows "(x + d - 1) div d = n"
proof (rule div_nat_eqI)
  show "d * n \<le> x + d - 1"
    using assms by (simp add: mult.commute)
  show "x + d - 1 < d * Suc n"
    using assms by (simp add: mult.commute)
qed

lemma seq_length_bytes_nat:
  assumes "seq_end sq < 2 ^ 64"
  shows "unat (seq_length_bytes sq) = unat (seq_count sq) * bytes_nat (seq_page_size sq)"
proof -
  have "unat (page_size_bytes (seq_page_size sq)) * unat (seq_count sq) < 2 ^ 64"
    using assms by (simp add: seq_end_def bytes_nat_def mult.commute)
  then show ?thesis
    unfolding seq_length_bytes_def by (subst unat_mult_u64) (simp_all add: bytes_nat_def mult.commute)
qed

text \<open>
  A page-backed vector gives back exactly the pages it was built from. For every
  element type that fits in one page, building a vector on a run of pages and, after
  any changes to its elements, turning it back into pages returns a run with the same
  base, page size and length (now dirty): no page is lost and none is invented.
\<close>

theorem pv_pages_roundtrip:
  assumes "seq_wf sq" and "seq_end sq < 2 ^ 64"
    and "0 < elem_size" and "elem_size \<le> bytes_nat (seq_page_size sq)"
  shows "(pv_to_pages elem_size ((pv_from_pages elem_size sq)\<lparr>pv_items := xs\<rparr>) :: ('e, _) result)
       = Ok (sq\<lparr>seq_state := StInternalDirty\<rparr>)"
proof -
  let ?s = "bytes_nat (seq_page_size sq)" and ?n = "unat (seq_count sq)"
  let ?bytes = "?n * ?s"
  have cap: "unat (seq_length_bytes sq) = ?bytes"
    by (rule seq_length_bytes_nat [OF assms(2)])
  have "(?bytes div elem_size * elem_size + ?s - 1) div ?s = ?n"
  proof (rule ceil_div_eq)
    show "?bytes div elem_size * elem_size \<le> ?n * ?s"
      by (rule div_times_less_eq_dividend)
    show "?n * ?s < ?bytes div elem_size * elem_size + ?s"
      using dividend_less_div_times [OF assms(3), of ?bytes] assms(4) by linarith
  qed simp
  moreover have "page_addr_new (page_addr_raw (seq_addr sq)) = Some (seq_addr sq)"
  proof -
    have "page_addr_wf (seq_addr sq)"
      using assms(1) aligned_imp_wf by (auto simp: seq_wf_def)
    then show ?thesis
      by (cases "seq_addr sq") (simp add: page_addr_new_Some page_addr_wf_iff)
  qed
  ultimately show ?thesis
    using assms(1)
    by (simp add: pv_to_pages_def pv_take_pages_def pv_clear_def pv_from_pages_def cap Let_def
        seq_from_mem_range_def seq_wf_def)
qed

theorem pv_pages_roundtrip_witness:
  "(pv_to_pages 48 ((pv_from_pages 48
      \<lparr>seq_addr = PageAddr (raw_supervisor 0x80000000), seq_page_size = Size4k, seq_count = 3,
       seq_state = StInternalClean\<rparr>)\<lparr>pv_items := [7 :: nat, 8]\<rparr>) :: (nat, _) result)
   = Ok \<lparr>seq_addr = PageAddr (raw_supervisor 0x80000000), seq_page_size = Size4k, seq_count = 3,
         seq_state = StInternalDirty\<rparr>"
proof -
  let ?sq = "\<lparr>seq_addr = PageAddr (raw_supervisor 0x80000000), seq_page_size = Size4k, seq_count = 3,
              seq_state = StInternalClean\<rparr>"
  have "seq_wf ?sq" and "seq_end ?sq < 2 ^ 64"
    by (simp_all add: seq_wf_def seq_end_def align_simps raw_supervisor_def)
  from pv_pages_roundtrip [OF this, of 48 "[7, 8]", where 'e = nat] show ?thesis
    by simp
qed

text \<open>For an element larger than a page the run can come back short: here one page of three is lost.\<close>

lemma pv_large_element_loses_page:
  "(pv_to_pages 8192 (pv_from_pages 8192
      \<lparr>seq_addr = PageAddr (raw_supervisor 0x80000000), seq_page_size = Size4k, seq_count = 3,
       seq_state = StInternalClean\<rparr> :: nat raw_page_vec) :: (nat, _) result)
   = Ok \<lparr>seq_addr = PageAddr (raw_supervisor 0x80000000), seq_page_size = Size4k, seq_count = 2,
         seq_state = StInternalDirty\<rparr>"
  by (simp add: pv_to_pages_def pv_take_pages_def pv_clear_def pv_from_pages_def seq_length_bytes_def
      page_addr_new_def page_addr_with_alignment_def page_size_is_aligned_iff raw_supervisor_def
      seq_from_mem_range_def page_addr_is_aligned_iff)

end
