(* ===== verification/Page_Map.thy ===== *)
theory Page_Map
  imports Hw_Mem_Map Page_Info Page_Vec
begin

text \<open>
  The table of all physical pages (\<open>PageMap\<close> in \<open>page-tracking/src/page_info.rs\<close>,
  lines 406 to 590): one \<open>PageInfo\<close> for each page of the memory map, packed in a
  page-backed vector, with a sparse index from frame numbers to positions. The
  size of a \<open>PageInfo\<close> is an argument of \<open>page_map_build_from\<close>.
\<close>

section \<open>Structure\<close>

definition MAX_SPARSE_MAP_ENTRIES :: nat where "MAX_SPARSE_MAP_ENTRIES = 16"

record sparse_map_entry =
  base_pfn :: nat
  num_pages :: nat
  page_map_index :: nat

record page_map =
  pm_pages :: "page_info raw_page_vec"
  pm_sparse_map :: "sparse_map_entry list"

type_synonym sparse_vec = "sparse_map_entry array_vec"

definition page_map_new :: "page_info raw_page_vec \<Rightarrow> page_map" where
  "page_map_new pages = \<lparr>pm_pages = pages, pm_sparse_map = []\<rparr>"

section \<open>Populating the map\<close>

definition iter_remaining :: "'as page_addr_iter \<Rightarrow> nat" where
  "iter_remaining it = (case iter_next it of None \<Rightarrow> 0 | Some a \<Rightarrow> 2 ^ 64 - addr_nat a)"

lemma iter_step_remaining:
  assumes "page_addr_iter_step it = (Some a, it')"
  shows "iter_remaining it' < iter_remaining it"
proof -
  have a: "iter_next it = Some a"
    and it': "iter_next it' = checked_add_pages_with_size a 1 (iter_increment it)"
    using assms by (auto simp: page_addr_iter_step_def)
  show ?thesis
  proof (cases "iter_next it'")
    case (Some b)
    then have "addr_nat b = addr_nat a + bytes_nat (iter_increment it)"
      using it' checked_add_pages_with_size_Some [of a 1 "iter_increment it" b] by simp
    then have "2 ^ 64 - addr_nat b < 2 ^ 64 - addr_nat a"
      using addr_nat_less [of a] bytes_nat_pos [of "iter_increment it"] by linarith
    then show ?thesis
      by (simp only: iter_remaining_def Some a option.case)
  next
    case None
    then show ?thesis
      using addr_nat_less [of a] by (simp add: iter_remaining_def a)
  qed
qed

text \<open>
  \<open>base.iter_from().take_while(|&a| a != end)\<close>, collected. The iterator stops by
  itself at the end of the address space.
\<close>

function iter_take_until :: "'as page_addr_iter \<Rightarrow> 'as page_addr \<Rightarrow> 'as page_addr list" where
  "iter_take_until it stop =
     (case page_addr_iter_step it of
        (None, _) \<Rightarrow> []
      | (Some a, it') \<Rightarrow> if a = stop then [] else a # iter_take_until it' stop)"
  by pat_completeness auto
termination
  by (relation "measure (\<lambda>(it, _). iter_remaining it)") (auto intro: iter_step_remaining sym)

declare iter_take_until.simps [simp del]

text \<open>The \<open>PageInfo\<close> that a page of a region starts with.\<close>

fun initial_info :: "hw_mem_region_type \<Rightarrow> page_info" where
  "initial_info Available = info_new"
| "initial_info (ReservedMem HostKernelImage) = info_new_hypervisor_owned"
| "initial_info (ReservedMem HostInitramfsImage) = info_new_hypervisor_owned"
| "initial_info (MmioMem d) = info_new_mmio d"
| "initial_info (ReservedMem _) = info_new_reserved"

fun push_pages ::
    "page_info \<Rightarrow> 'as page_addr list \<Rightarrow> page_info raw_page_vec \<Rightarrow> sparse_map_entry
      \<Rightarrow> ('e, page_info raw_page_vec \<times> sparse_map_entry) result" where
  "push_pages info [] v entry = Ok (v, entry)"
| "push_pages info (a # as) v entry =
     result_bind (pv_push v info)
       (\<lambda>v'. push_pages info as v' (entry\<lparr>num_pages := num_pages entry + 1\<rparr>))"

text \<open>The body of the loop over the regions.\<close>

definition populate_region ::
    "sparse_vec \<Rightarrow> hw_mem_region \<Rightarrow> page_map \<times> sparse_map_entry
      \<Rightarrow> ('e, page_map \<times> sparse_map_entry) result" where
  "populate_region av r = (\<lambda>(pm, current_entry).
     result_bind
       (if base_pfn current_entry + num_pages current_entry \<noteq> page_addr_index (region_base r)
        then result_bind (av_push av (pm_sparse_map pm) current_entry)
               (\<lambda>es. Ok (pm\<lparr>pm_sparse_map := es\<rparr>,
                         \<lparr>base_pfn = page_addr_index (region_base r), num_pages = 0,
                          page_map_index = page_map_index current_entry + num_pages current_entry\<rparr>))
        else Ok (pm, current_entry))
       (\<lambda>(pm, current_entry).
          result_bind (region_end r) (\<lambda>end.
            result_bind (page_addr_iter_from (region_base r)) (\<lambda>it.
              result_bind
                (push_pages (initial_info (region_type r)) (iter_take_until it end)
                   (pm_pages pm) current_entry)
                (\<lambda>(v, entry).
                   if base_pfn entry + num_pages entry < 2 ^ 64
                   then Ok (pm\<lparr>pm_pages := v\<rparr>, entry) else Panic)))))"

fun populate_regions ::
    "sparse_vec \<Rightarrow> hw_mem_region list \<Rightarrow> page_map \<times> sparse_map_entry
      \<Rightarrow> ('e, page_map \<times> sparse_map_entry) result" where
  "populate_regions av [] st = Ok st"
| "populate_regions av (r # rs) st = result_bind (populate_region av r st) (populate_regions av rs)"

definition page_map_populate_from ::
    "sparse_vec \<Rightarrow> page_map \<Rightarrow> hw_mem_map \<Rightarrow> ('e, page_map) result" where
  "page_map_populate_from av pm m =
     (case regions m of
        [] \<Rightarrow> Panic
      | r # _ \<Rightarrow>
          result_bind
            (populate_regions av (regions m)
               (pm, \<lparr>base_pfn = page_addr_index (region_base r), num_pages = 0, page_map_index = 0\<rparr>))
            (\<lambda>(pm, entry).
               result_bind (av_push av (pm_sparse_map pm) entry)
                 (\<lambda>es. Ok (pm\<lparr>pm_sparse_map := es\<rparr>))))"

section \<open>Lookup\<close>

definition entry_covers :: "sparse_map_entry \<Rightarrow> nat \<Rightarrow> bool" where
  "entry_covers s i \<longleftrightarrow> base_pfn s \<le> i \<and> i < base_pfn s + num_pages s"

definition get_map_index :: "page_map \<Rightarrow> supervisor_page_addr \<Rightarrow> nat option" where
  "get_map_index pm a =
     map_option (\<lambda>s. page_map_index s + page_addr_index a - base_pfn s)
       (find (\<lambda>s. entry_covers s (page_addr_index a)) (pm_sparse_map pm))"

definition page_map_get :: "page_map \<Rightarrow> supervisor_page_addr \<Rightarrow> page_info option" where
  "page_map_get pm a = Option.bind (get_map_index pm a) (pv_get (pm_pages pm))"

text \<open>
  A write through the reference that \<open>get_mut\<close> returns; without effect where
  \<open>get_mut\<close> returns \<open>None\<close>.
\<close>

definition page_map_set :: "page_map \<Rightarrow> supervisor_page_addr \<Rightarrow> page_info \<Rightarrow> page_map" where
  "page_map_set pm a info =
     (case get_map_index pm a of
        None \<Rightarrow> pm
      | Some i \<Rightarrow> pm\<lparr>pm_pages := pv_set (pm_pages pm) i info\<rparr>)"

definition page_map_num_after :: "page_map \<Rightarrow> supervisor_page_addr \<Rightarrow> nat option" where
  "page_map_num_after pm a =
     Option.bind (get_map_index pm a)
       (\<lambda>i. if i \<le> length (pv_items (pm_pages pm)) then Some (length (pv_items (pm_pages pm)) - i)
            else None)"

section \<open>Iteration\<close>

record page_map_iter =
  cur_sparse_entry :: nat
  cur_index :: nat

fun find_index :: "('a \<Rightarrow> bool) \<Rightarrow> 'a list \<Rightarrow> nat \<Rightarrow> (nat \<times> 'a) option" where
  "find_index p [] i = None"
| "find_index p (x # xs) i = (if p x then Some (i, x) else find_index p xs (Suc i))"

definition page_map_iter_new :: "page_map \<Rightarrow> supervisor_page_addr \<Rightarrow> page_map_iter option" where
  "page_map_iter_new pm a =
     map_option
       (\<lambda>(i, s). \<lparr>cur_sparse_entry = i, cur_index = page_map_index s + page_addr_index a - base_pfn s\<rparr>)
       (find_index (\<lambda>s. entry_covers s (page_addr_index a)) (pm_sparse_map pm) 0)"

definition page_map_iter_next ::
    "page_map \<Rightarrow> page_map_iter
      \<Rightarrow> ('e, ((page_info \<times> supervisor_page_addr) \<times> page_map_iter) option) result" where
  "page_map_iter_next pm it =
     (if length (pm_sparse_map pm) \<le> cur_sparse_entry it then Ok None
      else let entry = pm_sparse_map pm ! cur_sparse_entry it in
        result_bind (unwrap_option (pv_get (pm_pages pm) (cur_index it))) (\<lambda>page.
          result_bind
            (unwrap_option
               (page_addr_from_pfn
                  (pfn_supervisor (of_nat (base_pfn entry + cur_index it - page_map_index entry)))
                  Size4k))
            (\<lambda>addr. Ok (Some ((page, addr),
               let i = cur_index it + 1 in
               \<lparr>cur_sparse_entry =
                  (if num_pages entry + page_map_index entry \<le> i then cur_sparse_entry it + 1
                   else cur_sparse_entry it),
                cur_index = i\<rparr>)))))"

section \<open>Building the map at boot\<close>

definition page_map_build_from ::
    "hw_mem_region array_vec \<Rightarrow> sparse_vec \<Rightarrow> nat \<Rightarrow> mem \<Rightarrow> hw_mem_map
      \<Rightarrow> ('e, page_map \<times> hw_mem_map \<times> mem) result" where
  "page_map_build_from rav sav info_size mem m =
     (let total_pages = fold (\<lambda>r n. n + region_size r div page_size_bytes Size4k) (regions m) 0;
          page_map_size = page_size_round_up Size4k (total_pages * of_nat info_size);
          page_map_pages = page_map_size div page_size_bytes Size4k
      in case find (\<lambda>r. region_type r = Available \<and> page_map_size \<le> region_size r) (regions m) of
           None \<Rightarrow> Panic
         | Some region \<Rightarrow>
             let page_map_base = region_base region in
             result_bind
               (unwrap (seq_from_mem_range StInternalDirty page_map_base Size4k page_map_pages))
               (\<lambda>sq. result_bind (seq_clean mem sq) (\<lambda>cleaned.
                  case cleaned of
                    None \<Rightarrow> Panic
                  | Some (struct_pages, mem') \<Rightarrow>
                      (case reserve_region rav m PageMapMem (page_addr_raw page_map_base) page_map_size of
                         (Ok _, m') \<Rightarrow>
                           result_bind
                             (page_map_populate_from sav
                                (page_map_new (pv_from_pages info_size struct_pages)) m')
                             (\<lambda>pm. Ok (pm, m', mem'))
                       | _ \<Rightarrow> Panic))))"

section \<open>The map as a finite function\<close>

text \<open>
  The entries list consecutive stretches of the vector; listing the frame numbers
  of all entries in order names each element of the vector, and looking up a frame
  number is looking it up in that association list.
\<close>

definition entry_pfns :: "sparse_map_entry \<Rightarrow> nat list" where
  "entry_pfns s = [base_pfn s ..< base_pfn s + num_pages s]"

definition entries_pfns :: "sparse_map_entry list \<Rightarrow> nat list" where
  "entries_pfns es = concat (map entry_pfns es)"

fun entries_ok :: "nat \<Rightarrow> sparse_map_entry list \<Rightarrow> bool" where
  "entries_ok k [] = True"
| "entries_ok k (s # es) = (page_map_index s = k \<and> entries_ok (k + num_pages s) es)"

definition page_map_abs :: "page_map \<Rightarrow> nat \<Rightarrow> page_info option" where
  "page_map_abs pm = map_of (zip (entries_pfns (pm_sparse_map pm)) (pv_items (pm_pages pm)))"

definition page_map_wf :: "page_map \<Rightarrow> bool" where
  "page_map_wf pm \<longleftrightarrow>
     entries_ok 0 (pm_sparse_map pm)
   \<and> length (pv_items (pm_pages pm)) = length (entries_pfns (pm_sparse_map pm))
   \<and> distinct (entries_pfns (pm_sparse_map pm))"

lemma entries_pfns_simps [simp]:
  "entries_pfns [] = []" "entries_pfns (s # es) = entry_pfns s @ entries_pfns es"
  "entries_pfns (es @ fs) = entries_pfns es @ entries_pfns fs"
  by (simp_all add: entries_pfns_def)

lemma length_entry_pfns [simp]: "length (entry_pfns s) = num_pages s"
  by (simp add: entry_pfns_def)

lemma set_entry_pfns [simp]: "set (entry_pfns s) = {i. entry_covers s i}"
  by (auto simp: entry_pfns_def entry_covers_def)

lemma entries_ok_append:
  "entries_ok k (es @ fs) = (entries_ok k es \<and> entries_ok (k + length (entries_pfns es)) fs)"
  by (induction es arbitrary: k) (auto simp: add.assoc)

lemma entries_find:
  assumes "entries_ok k es" and "find (\<lambda>s. entry_covers s i) es = Some s"
  shows "k \<le> page_map_index s" and "base_pfn s \<le> i"
    and "page_map_index s + i - base_pfn s - k < length (entries_pfns es)"
    and "entries_pfns es ! (page_map_index s + i - base_pfn s - k) = i"
proof -
  have "k \<le> page_map_index s \<and> base_pfn s \<le> i
      \<and> page_map_index s + i - base_pfn s - k < length (entries_pfns es)
      \<and> entries_pfns es ! (page_map_index s + i - base_pfn s - k) = i"
    using assms
  proof (induction es arbitrary: k)
    case (Cons e es)
    show ?case
    proof (cases "entry_covers e i")
      case True
      with Cons.prems show ?thesis
        by (auto simp: entry_covers_def nth_append entry_pfns_def)
    next
      case False
      with Cons.prems have IH: "k + num_pages e \<le> page_map_index s \<and> base_pfn s \<le> i
        \<and> page_map_index s + i - base_pfn s - (k + num_pages e) < length (entries_pfns es)
        \<and> entries_pfns es ! (page_map_index s + i - base_pfn s - (k + num_pages e)) = i"
        by (intro Cons.IH) simp_all
      define d where "d = page_map_index s + i - base_pfn s - (k + num_pages e)"
      have eq: "page_map_index s + i - base_pfn s - k = num_pages e + d"
        using IH unfolding d_def by linarith
      show ?thesis
        using IH unfolding eq d_def [symmetric] by (simp add: nth_append)
    qed
  qed simp
  then show "k \<le> page_map_index s" and "base_pfn s \<le> i"
    and "page_map_index s + i - base_pfn s - k < length (entries_pfns es)"
    and "entries_pfns es ! (page_map_index s + i - base_pfn s - k) = i"
    by simp_all
qed

lemma get_map_index_Some:
  assumes "page_map_wf pm" and "get_map_index pm a = Some k"
  shows "k < length (pv_items (pm_pages pm))"
    and "entries_pfns (pm_sparse_map pm) ! k = page_addr_index a"
  using assms entries_find [of 0 "pm_sparse_map pm" "page_addr_index a"]
  by (auto simp: get_map_index_def page_map_wf_def)

lemma get_map_index_None:
  "(get_map_index pm a = None) = (page_addr_index a \<notin> set (entries_pfns (pm_sparse_map pm)))"
  by (auto simp: get_map_index_def find_None_iff entries_pfns_def)

lemma page_map_get_abs:
  assumes "page_map_wf pm"
  shows "page_map_get pm a = page_map_abs pm (page_addr_index a)"
proof (cases "get_map_index pm a")
  case None
  then have "page_map_abs pm (page_addr_index a) = None"
    using assms by (simp add: get_map_index_None page_map_abs_def page_map_wf_def map_of_zip_is_None)
  with None show ?thesis
    by (simp add: page_map_get_def)
next
  case (Some k)
  note k = get_map_index_Some [OF assms Some]
  have "page_map_abs pm (entries_pfns (pm_sparse_map pm) ! k) = Some (pv_items (pm_pages pm) ! k)"
    unfolding page_map_abs_def
    by (rule map_of_zip_nth) (use assms k in \<open>simp_all add: page_map_wf_def\<close>)
  with Some k show ?thesis
    by (simp add: page_map_get_def pv_get_def)
qed

lemma page_map_set_wf: "page_map_wf pm \<Longrightarrow> page_map_wf (page_map_set pm a info)"
  by (simp add: page_map_wf_def page_map_set_def pv_set_def split: option.split)

lemma page_map_set_index [simp]: "get_map_index (page_map_set pm a info) b = get_map_index pm b"
  by (simp add: get_map_index_def page_map_set_def split: option.split)

lemma page_map_get_set:
  assumes "page_map_wf pm" and "page_map_get pm a \<noteq> None"
  shows "page_map_get (page_map_set pm a info) b
       = (if page_addr_index b = page_addr_index a then Some info else page_map_get pm b)"
proof -
  obtain k where k: "get_map_index pm a = Some k"
    using assms(2) by (cases "get_map_index pm a") (simp_all add: page_map_get_def)
  note ka = get_map_index_Some [OF assms(1) k]
  show ?thesis
  proof (cases "get_map_index pm b")
    case None
    then have "page_addr_index b \<noteq> page_addr_index a"
      using k by (auto simp: get_map_index_def)
    with None show ?thesis
      by (simp add: page_map_get_def)
  next
    case (Some j)
    note jb = get_map_index_Some [OF assms(1) Some]
    have "(j = k) = (page_addr_index b = page_addr_index a)"
      using ka jb assms(1) nth_eq_iff_index_eq [of "entries_pfns (pm_sparse_map pm)" j k]
      by (auto simp: page_map_wf_def)
    moreover have "pm_pages (page_map_set pm a info) = pv_set (pm_pages pm) k info"
      using k by (simp add: page_map_set_def)
    ultimately show ?thesis
      using Some ka jb by (auto simp: page_map_get_def pv_get_def pv_set_def nth_list_update)
  qed
qed

text \<open>
  What the page tracker relies on from the table of pages: reading after writing,
  the frame of a write, and that a write keeps the table in order. Two addresses
  name the same slot exactly when they have the same key.
\<close>

locale page_store =
  fixes wf :: "'m \<Rightarrow> bool" and key :: "'a \<Rightarrow> 'k"
    and get :: "'m \<Rightarrow> 'a \<Rightarrow> 'v option" and set :: "'m \<Rightarrow> 'a \<Rightarrow> 'v \<Rightarrow> 'm"
  assumes set_wf: "wf m \<Longrightarrow> wf (set m a x)"
    and get_set: "wf m \<Longrightarrow> get m a \<noteq> None \<Longrightarrow>
                  get (set m a x) b = (if key b = key a then Some x else get m b)"
begin

lemma get_set_same: "wf m \<Longrightarrow> get m a \<noteq> None \<Longrightarrow> get (set m a x) a = Some x"
  by (simp add: get_set)

lemma get_set_other: "wf m \<Longrightarrow> get m a \<noteq> None \<Longrightarrow> key b \<noteq> key a \<Longrightarrow> get (set m a x) b = get m b"
  by (simp add: get_set)

text \<open>A property of all stored values survives writing a value that has it.\<close>

lemma all_set:
  assumes "wf m" and "get m a \<noteq> None" and "P x" and "\<And>b y. get m b = Some y \<Longrightarrow> P y"
    and "get (set m a x) b = Some y"
  shows "P y"
  using assms(3,4,5) get_set [OF assms(1,2), of x b] by (auto split: if_splits)

lemma domain_set: "wf m \<Longrightarrow> get m a \<noteq> None \<Longrightarrow> get (set m a x) b \<noteq> None \<Longrightarrow> key b \<noteq> key a \<Longrightarrow> get m b \<noteq> None"
  by (simp add: get_set)

end

interpretation pm: page_store page_map_wf page_addr_index page_map_get page_map_set
  by unfold_locales (simp_all add: page_map_set_wf page_map_get_set)

section \<open>Populating gives every page its state\<close>

lemma iter_take_until_addrs:
  assumes "page_addr_is_aligned a Size4k" and "addr_nat stop = addr_nat a + n * 4096"
    and "addr_space stop = addr_space a"
  shows "map addr_nat (iter_take_until \<lparr>iter_next = Some a, iter_increment = Size4k\<rparr> stop)
       = map (\<lambda>i. addr_nat a + i * 4096) [0..<n]"
  using assms
proof (induction n arbitrary: a)
  case 0
  then have "a = stop"
    by (simp add: page_addr_eq_iff)
  then show ?case
    by (subst iter_take_until.simps) (simp add: page_addr_iter_step_def)
next
  case (Suc n)
  have "addr_nat a + unat (1 :: u64) * bytes_nat Size4k < 2 ^ 64"
    using Suc.prems(2) addr_nat_less [of stop] by simp
  from checked_add_pages_with_size_fits [OF Suc.prems(1) this] obtain b where
    b: "checked_add_pages_with_size a 1 Size4k = Some b" "addr_nat b = addr_nat a + 4096"
      "addr_space b = addr_space a" "page_addr_is_aligned b Size4k"
    by auto
  have "a \<noteq> stop"
    using Suc.prems(2) by auto
  then have "iter_take_until \<lparr>iter_next = Some a, iter_increment = Size4k\<rparr> stop
      = a # iter_take_until \<lparr>iter_next = Some b, iter_increment = Size4k\<rparr> stop"
    using b(1) by (subst iter_take_until.simps) (simp add: page_addr_iter_step_def)
  then show ?case
    using Suc.IH [OF b(4)] Suc.prems(2,3) b(2,3) by (simp add: map_upt_Suc_shift del: upt_Suc)
qed

lemma iter_take_until_length:
  assumes "page_addr_is_aligned a Size4k" and "addr_nat stop = addr_nat a + n * 4096"
    and "addr_space stop = addr_space a"
  shows "length (iter_take_until \<lparr>iter_next = Some a, iter_increment = Size4k\<rparr> stop) = n"
  using arg_cong [OF iter_take_until_addrs [OF assms], of length] by simp

lemma push_pages_Ok:
  assumes "length (pv_items v) + length as \<le> pv_capacity v"
  shows "(push_pages info as v e :: ('e, _) result)
       = Ok (v\<lparr>pv_items := pv_items v @ replicate (length as) info\<rparr>,
             e\<lparr>num_pages := num_pages e + length as\<rparr>)"
  using assms
proof (induction as arbitrary: v e)
  case (Cons a as)
  then have "(push_pages info as (v\<lparr>pv_items := pv_items v @ [info]\<rparr>)
      (e\<lparr>num_pages := num_pages e + 1\<rparr>) :: ('e, _) result)
    = Ok (v\<lparr>pv_items := (pv_items v @ [info]) @ replicate (length as) info\<rparr>,
          e\<lparr>num_pages := num_pages e + 1 + length as\<rparr>)"
    using Cons.IH [of "v\<lparr>pv_items := pv_items v @ [info]\<rparr>" "e\<lparr>num_pages := num_pages e + 1\<rparr>"] by simp
  then show ?case
    using Cons.prems by (simp add: pv_push_def)
qed simp

text \<open>The pages of a region, by frame number, and the range of the 44-bit frame numbers.\<close>

definition region_pfn :: "hw_mem_region \<Rightarrow> nat" where
  "region_pfn r = rbase r div 4096"

definition region_npages :: "hw_mem_region \<Rightarrow> nat" where
  "region_npages r = unat (region_size r) div 4096"

definition region_pfns :: "hw_mem_region \<Rightarrow> nat list" where
  "region_pfns r = [region_pfn r ..< region_pfn r + region_npages r]"

definition region_infos :: "hw_mem_region \<Rightarrow> page_info list" where
  "region_infos r = replicate (region_npages r) (initial_info (region_type r))"

definition addressable :: "hw_mem_region \<Rightarrow> bool" where
  "addressable r \<longleftrightarrow> rend r \<le> 2 ^ 56 \<and> rbase r < 2 ^ 56"

lemma region_base_index:
  "addressable r \<Longrightarrow> page_addr_index (region_base r) = region_pfn r"
  unfolding page_addr_index_eq region_pfn_def rbase_def [symmetric] addressable_def
  by (rule mod_less) (simp add: less_mult_imp_div_less)

text \<open>How often the regions leave a gap, starting after frame \<open>e\<close>.\<close>

fun gaps_from :: "nat \<Rightarrow> hw_mem_region list \<Rightarrow> nat" where
  "gaps_from e [] = 0"
| "gaps_from e (r # rs) =
     (if e = region_pfn r then 0 else 1) + gaps_from (region_pfn r + region_npages r) rs"

text \<open>The state of the loop after some regions, whose frames and infos are \<open>fs\<close> and \<open>is\<close>.\<close>

definition populated ::
    "nat list \<Rightarrow> page_info list \<Rightarrow> nat \<Rightarrow> page_map \<times> sparse_map_entry \<Rightarrow> bool" where
  "populated fs is cap = (\<lambda>(pm, cur).
     entries_ok 0 (pm_sparse_map pm @ [cur]) \<and> entries_pfns (pm_sparse_map pm @ [cur]) = fs
   \<and> pv_items (pm_pages pm) = is \<and> pv_capacity (pm_pages pm) = cap)"

lemma region_npages_bytes: "region_ok al r \<Longrightarrow> unat (region_size r) = region_npages r * 4096"
  by (simp add: region_ok_def region_npages_def)

lemma region_pfn_bytes: "region_ok al r \<Longrightarrow> rbase r = region_pfn r * 4096"
  by (simp add: region_ok_def region_pfn_def)

lemma region_pfn_top:
  assumes "region_ok al r" and "addressable r"
  shows "region_pfn r + region_npages r \<le> 2 ^ 44"
proof -
  have "(region_pfn r + region_npages r) * 4096 = rend r"
    using region_npages_bytes [OF assms(1)] region_pfn_bytes [OF assms(1)] by (simp add: rend_def)
  then have "(region_pfn r + region_npages r) * 4096 \<le> 2 ^ 44 * 4096"
    using assms(2) by (simp add: addressable_def)
  then show ?thesis
    by simp
qed

lemma region_page_list:
  assumes "region_ok al r"
  obtains e it where "(region_end r :: ('e, _) result) = Ok e"
    and "(page_addr_iter_from (region_base r) :: ('e, _) result) = Ok it"
    and "length (iter_take_until it e) = region_npages r"
proof -
  obtain e where e: "(region_end r :: ('e, _) result) = Ok e" "addr_nat e = rend r"
    using region_end_Ok [OF assms] .
  have al: "page_addr_is_aligned (region_base r) Size4k"
    using assms by (simp add: region_ok_def rbase_def align_simps)
  have it: "(page_addr_iter_from (region_base r) :: ('e, _) result)
      = Ok \<lparr>iter_next = Some (region_base r), iter_increment = Size4k\<rparr>"
    using al by (simp add: page_addr_iter_from_def page_addr_iter_new_def page_addr_with_alignment_def
        page_addr_is_aligned_def page_addr_bits_def)
  have "addr_nat e = addr_nat (region_base r) + region_npages r * 4096"
    using e(2) region_npages_bytes [OF assms] by (simp add: rend_def rbase_def)
  moreover have "addr_space e = addr_space (region_base r)"
    by (metis supervisor_phys.exhaust)
  ultimately have "length (iter_take_until \<lparr>iter_next = Some (region_base r), iter_increment = Size4k\<rparr> e)
      = region_npages r"
    by (rule iter_take_until_length [OF al])
  with e(1) it show thesis
    by (rule that)
qed

text \<open>The entry in which the pages of a region go, and the entries closed before it.\<close>

definition open_entries :: "sparse_map_entry list \<Rightarrow> sparse_map_entry \<Rightarrow> nat \<Rightarrow> sparse_map_entry list" where
  "open_entries es cur f = (if base_pfn cur + num_pages cur = f then es else es @ [cur])"

definition open_entry :: "sparse_map_entry \<Rightarrow> nat \<Rightarrow> sparse_map_entry" where
  "open_entry cur f =
     (if base_pfn cur + num_pages cur = f then cur
      else \<lparr>base_pfn = f, num_pages = 0, page_map_index = page_map_index cur + num_pages cur\<rparr>)"

lemma open_entry_end [simp]: "base_pfn (open_entry cur f) + num_pages (open_entry cur f) = f"
  by (simp add: open_entry_def)

lemma open_entries_ok:
  "entries_ok k (es @ [cur]) \<Longrightarrow>
   entries_ok k (open_entries es cur f @ [open_entry cur f\<lparr>num_pages := num_pages (open_entry cur f) + n\<rparr>])"
  by (auto simp: open_entries_def open_entry_def entries_ok_append)

lemma open_entries_pfns:
  "entries_pfns (open_entries es cur f @ [open_entry cur f\<lparr>num_pages := num_pages (open_entry cur f) + n\<rparr>])
   = entries_pfns (es @ [cur]) @ [f ..< f + n]"
proof (cases "base_pfn cur + num_pages cur = f")
  case True
  have "[base_pfn cur ..< base_pfn cur + (num_pages cur + n)]
      = [base_pfn cur ..< base_pfn cur + num_pages cur] @ [f ..< f + n]"
    using upt_add_eq_append [of "base_pfn cur" "base_pfn cur + num_pages cur" n]
    unfolding True [symmetric] by (simp add: add.assoc)
  then show ?thesis
    using True by (simp add: open_entries_def open_entry_def entry_pfns_def)
next
  case False
  then show ?thesis
    by (simp add: open_entries_def open_entry_def entry_pfns_def)
qed

lemma populate_region_run:
  assumes av: "array_vec_ok MAX_SPARSE_MAP_ENTRIES av"
    and r: "region_ok al r" "addressable r"
    and room: "length (pv_items (pm_pages pm)) + region_npages r \<le> pv_capacity (pm_pages pm)"
    and gap: "base_pfn cur + num_pages cur = region_pfn r
              \<or> length (pm_sparse_map pm) < MAX_SPARSE_MAP_ENTRIES"
  shows "(populate_region av r (pm, cur) :: ('e, _) result)
      = Ok (pm\<lparr>pm_sparse_map := open_entries (pm_sparse_map pm) cur (region_pfn r),
               pm_pages := (pm_pages pm)\<lparr>pv_items := pv_items (pm_pages pm) @ region_infos r\<rparr>\<rparr>,
            (open_entry cur (region_pfn r))
              \<lparr>num_pages := num_pages (open_entry cur (region_pfn r)) + region_npages r\<rparr>)"
proof -
  let ?es = "open_entries (pm_sparse_map pm) cur (region_pfn r)" and ?e = "open_entry cur (region_pfn r)"
  have first: "(if base_pfn cur + num_pages cur \<noteq> page_addr_index (region_base r)
        then result_bind (av_push av (pm_sparse_map pm) cur)
               (\<lambda>es. Ok (pm\<lparr>pm_sparse_map := es\<rparr>,
                         \<lparr>base_pfn = page_addr_index (region_base r), num_pages = 0,
                          page_map_index = page_map_index cur + num_pages cur\<rparr>))
        else Ok (pm, cur)) = (Ok (pm\<lparr>pm_sparse_map := ?es\<rparr>, ?e) :: ('e, _) result)"
    using gap
    by (auto simp: region_base_index [OF r(2)] open_entries_def open_entry_def push_eq [OF av])
  obtain e it where e: "(region_end r :: ('e, _) result) = Ok e"
    and it: "(page_addr_iter_from (region_base r) :: ('e, _) result) = Ok it"
    and len: "length (iter_take_until it e) = region_npages r"
    using region_page_list [OF r(1)] .
  have push: "(push_pages (initial_info (region_type r)) (iter_take_until it e) (pm_pages pm) ?e
      :: ('e, _) result)
    = Ok ((pm_pages pm)\<lparr>pv_items := pv_items (pm_pages pm) @ region_infos r\<rparr>,
          ?e\<lparr>num_pages := num_pages ?e + region_npages r\<rparr>)"
    using room by (simp add: push_pages_Ok len region_infos_def)
  have "base_pfn ?e + (num_pages ?e + region_npages r) < 2 ^ 64"
    using region_pfn_top [OF r] by (simp add: add.assoc [symmetric])
  then show ?thesis
    unfolding populate_region_def prod.case first result_bind.simps e it
    by (simp add: push)
qed

lemma populate_region_Ok:
  assumes av: "array_vec_ok MAX_SPARSE_MAP_ENTRIES av"
    and r: "region_ok al r" "addressable r"
    and inv: "populated fs is cap (pm, cur)"
    and room: "length is + region_npages r \<le> cap"
    and gap: "base_pfn cur + num_pages cur = region_pfn r
              \<or> length (pm_sparse_map pm) < MAX_SPARSE_MAP_ENTRIES"
  obtains pm' cur' where "(populate_region av r (pm, cur) :: ('e, _) result) = Ok (pm', cur')"
    and "populated (fs @ region_pfns r) (is @ region_infos r) cap (pm', cur')"
    and "base_pfn cur' + num_pages cur' = region_pfn r + region_npages r"
    and "length (pm_sparse_map pm') = length (pm_sparse_map pm)
        + (if base_pfn cur + num_pages cur = region_pfn r then 0 else 1)"
proof -
  let ?es = "open_entries (pm_sparse_map pm) cur (region_pfn r)" and ?e = "open_entry cur (region_pfn r)"
  let ?cur = "?e\<lparr>num_pages := num_pages ?e + region_npages r\<rparr>"
  let ?pm = "pm\<lparr>pm_sparse_map := ?es,
                pm_pages := (pm_pages pm)\<lparr>pv_items := pv_items (pm_pages pm) @ region_infos r\<rparr>\<rparr>"
  show thesis
  proof (rule that)
    show "(populate_region av r (pm, cur) :: ('e, _) result) = Ok (?pm, ?cur)"
      using inv room gap by (intro populate_region_run [OF av r]) (simp_all add: populated_def)
    show "populated (fs @ region_pfns r) (is @ region_infos r) cap (?pm, ?cur)"
      using inv open_entries_ok [of 0 "pm_sparse_map pm" cur]
        open_entries_pfns [of "pm_sparse_map pm" cur "region_pfn r" "region_npages r"]
      by (simp add: populated_def region_pfns_def)
    show "base_pfn ?cur + num_pages ?cur = region_pfn r + region_npages r"
      by (simp add: add.assoc [symmetric])
    show "length (pm_sparse_map ?pm) = length (pm_sparse_map pm)
        + (if base_pfn cur + num_pages cur = region_pfn r then 0 else 1)"
      by (simp add: open_entries_def)
  qed
qed

definition total_npages :: "hw_mem_region list \<Rightarrow> nat" where
  "total_npages rs = sum_list (map region_npages rs)"

lemma populate_regions_Ok:
  assumes "array_vec_ok MAX_SPARSE_MAP_ENTRIES av"
    and "\<forall>r \<in> set rs. region_ok al r \<and> addressable r"
    and "populated fs is cap (pm, cur)" and "length is + total_npages rs \<le> cap"
    and "length (pm_sparse_map pm) + gaps_from (base_pfn cur + num_pages cur) rs
           \<le> MAX_SPARSE_MAP_ENTRIES"
  shows "\<exists>pm' cur'. (populate_regions av rs (pm, cur) :: ('e, _) result) = Ok (pm', cur')
    \<and> populated (fs @ concat (map region_pfns rs)) (is @ concat (map region_infos rs)) cap (pm', cur')
    \<and> length (pm_sparse_map pm')
        = length (pm_sparse_map pm) + gaps_from (base_pfn cur + num_pages cur) rs"
  using assms(2-)
proof (induction rs arbitrary: fs "is" pm cur)
  case Nil
  then show ?case by simp
next
  case (Cons r rs)
  have r: "region_ok al r" "addressable r"
    using Cons.prems(1) by simp_all
  have room: "length is + region_npages r \<le> cap"
    using Cons.prems(3) by (simp add: total_npages_def)
  have gap: "base_pfn cur + num_pages cur = region_pfn r
      \<or> length (pm_sparse_map pm) < MAX_SPARSE_MAP_ENTRIES"
    using Cons.prems(4) by (auto split: if_splits)
  obtain pm1 cur1 where step: "(populate_region av r (pm, cur) :: ('e, _) result) = Ok (pm1, cur1)"
    and inv: "populated (fs @ region_pfns r) (is @ region_infos r) cap (pm1, cur1)"
    and e: "base_pfn cur1 + num_pages cur1 = region_pfn r + region_npages r"
    and len: "length (pm_sparse_map pm1) = length (pm_sparse_map pm)
        + (if base_pfn cur + num_pages cur = region_pfn r then 0 else 1)"
    using populate_region_Ok [OF assms(1) r Cons.prems(2) room gap, where 'e = 'e] .
  have "length (is @ region_infos r) + total_npages rs \<le> cap"
    using Cons.prems(3) by (simp add: total_npages_def region_infos_def)
  moreover have "length (pm_sparse_map pm1) + gaps_from (base_pfn cur1 + num_pages cur1) rs
      \<le> MAX_SPARSE_MAP_ENTRIES"
    using Cons.prems(4) e len by simp
  ultimately obtain pm' cur'
    where "(populate_regions av rs (pm1, cur1) :: ('e, _) result) = Ok (pm', cur')"
      and "populated ((fs @ region_pfns r) @ concat (map region_pfns rs))
             ((is @ region_infos r) @ concat (map region_infos rs)) cap (pm', cur')"
      and "length (pm_sparse_map pm')
          = length (pm_sparse_map pm1) + gaps_from (base_pfn cur1 + num_pages cur1) rs"
    using Cons.IH [OF _ inv] Cons.prems(1) by auto
  then show ?case
    using step len e by simp
qed

lemma in_region_pfns:
  assumes "region_ok al r"
  shows "i \<in> set (region_pfns r) \<longleftrightarrow> covers r (i * 4096)"
  using region_npages_bytes [OF assms] region_pfn_bytes [OF assms]
  by (auto simp: region_pfns_def covers_def rend_def) 

lemma regions_map_of:
  assumes "\<forall>r \<in> set rs. region_ok al r"
  shows "map_of (zip (concat (map region_pfns rs)) (concat (map region_infos rs))) i
       = map_option initial_info (type_at rs (i * 4096))"
  using assms
proof (induction rs)
  case Nil
  then show ?case by simp
next
  case (Cons r rs)
  have len: "length (region_pfns r) = length (region_infos r)"
    by (simp add: region_pfns_def region_infos_def)
  have hit: "map_of (zip (region_pfns r) (region_infos r)) i
      = (if i \<in> set (region_pfns r) then Some (initial_info (region_type r)) else None)"
  proof -
    have "zip (region_pfns r) (region_infos r)
        = map (\<lambda>x. (x, initial_info (region_type r))) (region_pfns r)"
      by (simp add: region_infos_def region_pfns_def zip_replicate2)
    then show ?thesis
      by (simp add: map_of_map_restrict restrict_map_def)
  qed
  show ?case
    using Cons in_region_pfns [of al r i]
    by (simp add: zip_append [OF len] map_add_def hit type_at_Cons)
qed

lemma regions_distinct:
  assumes "\<forall>r \<in> set rs. region_ok al r" and "sorted_wrt region_before rs"
  shows "distinct (concat (map region_pfns rs))"
  using assms
proof (induction rs)
  case Nil
  then show ?case by simp
next
  case (Cons r rs)
  have "i \<notin> set (region_pfns s)" if "i \<in> set (region_pfns r)" and "s \<in> set rs" for i s
    using that Cons.prems in_region_pfns [of al r i] in_region_pfns [of al s i]
    by (auto simp: covers_def region_before_def)
  then show ?case
    using Cons by (auto simp: region_pfns_def)
qed

text \<open>
  C24: the page table of the hypervisor starts out right. Populating an empty page map
  from a well-formed memory map below the 56-bit physical limit, with room for all
  its pages and at most sixteen separate stretches of memory, succeeds; afterwards
  the lookup of any page address gives the page's initial state according to the
  region it lies in (free, hypervisor-owned, MMIO or reserved), and nothing for an
  address outside every region.
\<close>

theorem page_map_populate_correct:
  assumes av: "array_vec_ok MAX_SPARSE_MAP_ENTRIES av" and wf: "hw_mem_map_wf m"
    and ne: "regions m \<noteq> []" and low: "\<forall>r \<in> set (regions m). addressable r"
    and v: "pv_items v = []" "total_npages (regions m) \<le> pv_capacity v"
    and gaps: "gaps_from (region_pfn (hd (regions m))) (regions m) < MAX_SPARSE_MAP_ENTRIES"
  shows "\<exists>pm. (page_map_populate_from av (page_map_new v) m :: ('e, _) result) = Ok pm
    \<and> page_map_wf pm
    \<and> (\<forall>a. page_addr_wf a \<and> addr_nat a < 2 ^ 56 \<longrightarrow>
         page_map_get pm a = map_option initial_info (type_at (regions m) (addr_nat a)))"
proof -
  let ?rs = "regions m"
  let ?first = "\<lparr>base_pfn = region_pfn (hd ?rs), num_pages = 0, page_map_index = 0\<rparr>"
  have ok: "\<forall>r \<in> set ?rs. region_ok (min_ram_alignment m) r"
    and sorted: "sorted_wrt region_before ?rs"
    using wf by (simp_all add: hw_mem_map_wf_def)
  have start: "populated [] [] (pv_capacity v) (page_map_new v, ?first)"
    using v by (simp add: populated_def page_map_new_def entry_pfns_def)
  have okl: "\<forall>r \<in> set ?rs. region_ok (min_ram_alignment m) r \<and> addressable r"
    using ok low by simp
  obtain pm cur where run: "(populate_regions av ?rs (page_map_new v, ?first) :: ('e, _) result) = Ok (pm, cur)"
    and inv: "populated (concat (map region_pfns ?rs)) (concat (map region_infos ?rs))
                (pv_capacity v) (pm, cur)"
    and len: "length (pm_sparse_map pm) < MAX_SPARSE_MAP_ENTRIES"
    using populate_regions_Ok [OF av okl start, where 'e = 'e] v gaps
    by (auto simp: page_map_new_def)
  let ?pm = "pm\<lparr>pm_sparse_map := pm_sparse_map pm @ [cur]\<rparr>"
  obtain r rs where rs: "?rs = r # rs"
    using ne by (cases ?rs) auto
  then have "page_addr_index (region_base r) = region_pfn (hd ?rs)"
    using low by (simp add: region_base_index)
  then have pop: "(page_map_populate_from av (page_map_new v) m :: ('e, _) result) = Ok ?pm"
    using run len by (simp add: page_map_populate_from_def rs push_eq [OF av])
  have pfns: "entries_pfns (pm_sparse_map ?pm) = concat (map region_pfns ?rs)"
    and items: "pv_items (pm_pages ?pm) = concat (map region_infos ?rs)"
    and ents: "entries_ok 0 (pm_sparse_map ?pm)"
    using inv by (simp_all add: populated_def)
  have "length (concat (map region_pfns ?rs)) = length (concat (map region_infos ?rs))"
    by (simp add: length_concat region_pfns_def region_infos_def comp_def)
  then have pwf: "page_map_wf ?pm"
    using pfns items ents regions_distinct [OF ok sorted] by (simp add: page_map_wf_def)
  have "page_map_get ?pm a = map_option initial_info (type_at ?rs (addr_nat a))"
    if "page_addr_wf a" and "addr_nat a < 2 ^ 56" for a
  proof -
    have "addr_nat a div 4096 < 2 ^ 44"
      using that(2) by (simp add: less_mult_imp_div_less)
    then have idx: "page_addr_index a * 4096 = addr_nat a"
      using that(1) by (simp add: page_addr_index_eq page_addr_wf_iff)
    show ?thesis
      unfolding page_map_get_abs [OF pwf] page_map_abs_def pfns items regions_map_of [OF ok] idx ..
  qed
  then show ?thesis
    using pop pwf by blast
qed

definition example_vec :: "page_info raw_page_vec" where
  "example_vec = \<lparr>pv_items = [], pv_capacity = 85, pv_base = PageAddr (raw_supervisor 0x80000000),
                  pv_page_size = Size4k\<rparr>"

theorem page_map_populate_correct_witness:
  "\<exists>pm. (page_map_populate_from (list_array_vec MAX_SPARSE_MAP_ENTRIES) (page_map_new example_vec)
           example_map :: (nat, _) result) = Ok pm
      \<and> page_map_get pm (PageAddr (raw_supervisor 0x80003000)) = Some info_new
      \<and> page_map_get pm (PageAddr (raw_supervisor 0x80010000)) = None"
proof -
  have r: "regions example_map = [\<lparr>region_type = Available,
      region_base = PageAddr (raw_supervisor 0x80000000), region_size = 0x10000\<rparr>]"
    by (simp add: example_map_def)
  have "\<forall>r \<in> set (regions example_map). addressable r"
    by (simp add: r addressable_def rend_def rbase_def raw_supervisor_def)
  moreover have "pv_items example_vec = []" and "total_npages (regions example_map) \<le> pv_capacity example_vec"
    by (simp_all add: r example_vec_def total_npages_def region_npages_def)
  moreover have "gaps_from (region_pfn (hd (regions example_map))) (regions example_map)
      < MAX_SPARSE_MAP_ENTRIES"
    by (simp add: r MAX_SPARSE_MAP_ENTRIES_def)
  moreover have "regions example_map \<noteq> []"
    by (simp add: r)
  ultimately obtain pm where pm: "(page_map_populate_from (list_array_vec MAX_SPARSE_MAP_ENTRIES)
      (page_map_new example_vec) example_map :: (nat, _) result) = Ok pm"
    and get: "\<forall>a. page_addr_wf a \<and> addr_nat a < 2 ^ 56 \<longrightarrow>
         page_map_get pm a = map_option initial_info (type_at (regions example_map) (addr_nat a))"
    using page_map_populate_correct [OF list_array_vec_ok example_map_wf, where 'e = nat] by blast
  have "page_map_get pm (PageAddr (raw_supervisor 0x80003000)) = Some info_new"
    using get [rule_format, of "PageAddr (raw_supervisor 0x80003000)"]
    by (simp add: page_addr_wf_iff raw_supervisor_def r type_at_Cons covers_def rbase_def rend_def)
  moreover have "page_map_get pm (PageAddr (raw_supervisor 0x80010000)) = None"
    using get [rule_format, of "PageAddr (raw_supervisor 0x80010000)"]
    by (simp add: page_addr_wf_iff raw_supervisor_def r type_at_Cons covers_def rbase_def rend_def)
  ultimately show ?thesis
    using pm by blast
qed

end
