(* ===== verification/Page_Map_Iter.thy ===== *)
theory Page_Map_Iter
  imports Page_Map
begin

text \<open>
  Iteration over the page map (\<open>PageMapIter\<close> in \<open>page_info.rs\<close>): from the page at a
  given address the iterator goes through the rest of the vector and pairs each
  \<open>PageInfo\<close> with the address of its page, provided no entry of the sparse map is empty.
\<close>

fun page_map_iter_take ::
    "nat \<Rightarrow> page_map \<Rightarrow> page_map_iter \<Rightarrow> ('e, (page_info \<times> supervisor_page_addr) list) result" where
  "page_map_iter_take 0 pm it = Ok []"
| "page_map_iter_take (Suc n) pm it =
     result_bind (page_map_iter_next pm it) (\<lambda>r.
       case r of
         None \<Rightarrow> Ok []
       | Some (x, it') \<Rightarrow> result_bind (page_map_iter_take n pm it') (\<lambda>xs. Ok (x # xs)))"

text \<open>What the iterator needs beyond a well-formed map.\<close>

definition page_map_iter_ok :: "page_map \<Rightarrow> bool" where
  "page_map_iter_ok pm \<longleftrightarrow>
     page_map_wf pm \<and> (\<forall>s \<in> set (pm_sparse_map pm). 0 < num_pages s)
   \<and> (\<forall>f \<in> set (entries_pfns (pm_sparse_map pm)). f < 2 ^ 44)"

definition entry_off :: "sparse_map_entry list \<Rightarrow> nat \<Rightarrow> nat" where
  "entry_off es j = length (entries_pfns (take j es))"

lemma entry_off_Suc: "j < length es \<Longrightarrow> entry_off es (Suc j) = entry_off es j + num_pages (es ! j)"
  by (simp add: entry_off_def take_Suc_conv_app_nth)

lemma entry_off_length: "entry_off es (length es) = length (entries_pfns es)"
  by (simp add: entry_off_def)

lemma entries_ok_index: "entries_ok b es \<Longrightarrow> j < length es \<Longrightarrow> page_map_index (es ! j) = b + entry_off es j"
proof (induction es arbitrary: b j)
  case (Cons s es)
  then show ?case
    by (cases j) (auto simp: entry_off_def)
qed simp

lemma entries_pfns_nth:
  assumes "j < length es" and "t < num_pages (es ! j)"
  shows "entry_off es j + t < length (entries_pfns es)"
    and "entries_pfns es ! (entry_off es j + t) = base_pfn (es ! j) + t"
proof -
  have "entries_pfns es = entries_pfns (take j es) @ entry_pfns (es ! j) @ entries_pfns (drop (Suc j) es)"
    using arg_cong [OF id_take_nth_drop [OF assms(1)], of entries_pfns] by simp
  then show "entry_off es j + t < length (entries_pfns es)"
    and "entries_pfns es ! (entry_off es j + t) = base_pfn (es ! j) + t"
    using assms(2) by (simp_all add: entry_off_def nth_append entry_pfns_def)
qed

lemma entry_position_bound:
  assumes "j < length es" and "entry_off es j \<le> k" and "k < entry_off es j + num_pages (es ! j)"
  shows "k < length (entries_pfns es)"
proof -
  have "k - entry_off es j < num_pages (es ! j)" and "entry_off es j + (k - entry_off es j) = k"
    using assms by simp_all
  then show ?thesis
    using entries_pfns_nth(1) [OF assms(1)] by metis
qed

text \<open>The iterator stands at element \<open>k\<close> of the vector, or past the last one.\<close>

definition iter_at :: "page_map \<Rightarrow> page_map_iter \<Rightarrow> nat \<Rightarrow> bool" where
  "iter_at pm it k \<longleftrightarrow>
     cur_index it = k
   \<and> (let es = pm_sparse_map pm; j = cur_sparse_entry it in
        j < length es \<and> entry_off es j \<le> k \<and> k < entry_off es j + num_pages (es ! j)
      \<or> j = length es \<and> k = length (entries_pfns es))"

lemma iter_at_advance:
  assumes ok: "page_map_iter_ok pm" and j: "j < length (pm_sparse_map pm)"
    and k: "entry_off (pm_sparse_map pm) j \<le> k" "k < entry_off (pm_sparse_map pm) j + num_pages (pm_sparse_map pm ! j)"
  shows "iter_at pm \<lparr>cur_sparse_entry =
            (if entry_off (pm_sparse_map pm) j + num_pages (pm_sparse_map pm ! j) \<le> k + 1 then j + 1 else j),
          cur_index = k + 1\<rparr> (k + 1)"
proof (cases "k + 1 < entry_off (pm_sparse_map pm) j + num_pages (pm_sparse_map pm ! j)")
  case True
  with j k show ?thesis
    by (simp add: iter_at_def)
next
  case False
  then have e: "k + 1 = entry_off (pm_sparse_map pm) (Suc j)"
    using k by (simp add: entry_off_Suc [OF j])
  show ?thesis
  proof (cases "Suc j < length (pm_sparse_map pm)")
    case True
    then have "0 < num_pages (pm_sparse_map pm ! Suc j)"
      using ok by (simp add: page_map_iter_ok_def)
    with True False e show ?thesis
      by (simp add: iter_at_def entry_off_Suc [OF j])
  next
    case last: False
    then have "Suc j = length (pm_sparse_map pm)"
      using j by simp
    with False e show ?thesis
      by (simp add: iter_at_def entry_off_length [symmetric] entry_off_Suc [OF j])
  qed
qed

lemma page_addr_from_pfn_nat:
  assumes "p < 2 ^ 44"
  obtains a where "page_addr_from_pfn (pfn_supervisor (of_nat p)) Size4k = Some a"
    and "addr_nat a = p * 4096"
proof -
  have b: "unat (of_nat p :: u64) = p"
    using assms by (intro unat_of_nat_u64) simp
  have m: "p * 4096 < 2 ^ 64"
    using assms by simp
  let ?a = "PageAddr (raw_supervisor (of_nat (p * 4096)))"
  have n: "addr_nat ?a = p * 4096"
    unfolding addr_nat_PageAddr raw_supervisor_def raw_addr.sel by (rule unat_of_nat_u64 [OF m])
  have "page_addr_from_pfn (pfn_supervisor (of_nat p)) Size4k = Some ?a"
    by (subst page_addr_from_pfn_Some)
       (use assms b n in \<open>simp_all add: pfn_supervisor_def raw_supervisor_def page_addr_is_aligned_iff\<close>)
  then show thesis
    using n by (rule that)
qed

lemma page_map_iter_next_at:
  assumes ok: "page_map_iter_ok pm" and at: "iter_at pm it k"
    and k: "k < length (pv_items (pm_pages pm))"
  obtains a it' where "(page_map_iter_next pm it :: ('e, _) result)
        = Ok (Some ((pv_items (pm_pages pm) ! k, a), it'))"
    and "addr_nat a = entries_pfns (pm_sparse_map pm) ! k * 4096" and "iter_at pm it' (k + 1)"
proof -
  let ?es = "pm_sparse_map pm" and ?j = "cur_sparse_entry it"
  have wf: "page_map_wf pm"
    using ok by (simp add: page_map_iter_ok_def)
  then have j: "?j < length ?es" and off: "entry_off ?es ?j \<le> k"
      "k < entry_off ?es ?j + num_pages (?es ! ?j)"
    using at k by (auto simp: iter_at_def page_map_wf_def Let_def)
  have idx: "page_map_index (?es ! ?j) = entry_off ?es ?j"
    using entries_ok_index [of 0, OF _ j] wf by (simp add: page_map_wf_def)
  define p where "p = base_pfn (?es ! ?j) + k - entry_off ?es ?j"
  have p: "entries_pfns ?es ! k = p"
    using entries_pfns_nth(2) [OF j, of "k - entry_off ?es ?j"] off by (simp add: p_def)
  have "p \<in> set (entries_pfns ?es)"
    using p k wf by (auto simp: page_map_wf_def in_set_conv_nth)
  then have lt: "p < 2 ^ 44"
    using ok by (simp add: page_map_iter_ok_def)
  obtain a where a: "page_addr_from_pfn (pfn_supervisor (of_nat p)) Size4k = Some a"
      "addr_nat a = p * 4096"
    using page_addr_from_pfn_nat [OF lt] .
  let ?it = "\<lparr>cur_sparse_entry = (if entry_off ?es ?j + num_pages (?es ! ?j) \<le> k + 1 then ?j + 1 else ?j),
              cur_index = k + 1\<rparr>"
  have "cur_index it = k"
    using at by (simp add: iter_at_def)
  then have "(page_map_iter_next pm it :: ('e, _) result)
      = Ok (Some ((pv_items (pm_pages pm) ! k, a), ?it))"
    using j k a(1) by (simp add: page_map_iter_next_def pv_get_def idx p_def Let_def add.commute)
  then show thesis
    using a(2) p iter_at_advance [OF ok j off] by (intro that) simp_all
qed

lemma page_map_iter_take_at:
  assumes "page_map_iter_ok pm" and "iter_at pm it k" and "k \<le> length (pv_items (pm_pages pm))"
  shows "\<exists>xs. (page_map_iter_take n pm it :: ('e, _) result) = Ok xs
    \<and> map (\<lambda>(info, a). (addr_nat a, info)) xs
      = take n (drop k (zip (map (\<lambda>f. f * 4096) (entries_pfns (pm_sparse_map pm)))
                            (pv_items (pm_pages pm))))"
  using assms(2,3)
proof (induction n arbitrary: it k)
  case 0
  then show ?case by simp
next
  case (Suc n)
  let ?z = "zip (map (\<lambda>f. f * 4096) (entries_pfns (pm_sparse_map pm))) (pv_items (pm_pages pm))"
  have len: "length ?z = length (pv_items (pm_pages pm))"
    using assms(1) by (simp add: page_map_iter_ok_def page_map_wf_def)
  show ?case
  proof (cases "k < length (pv_items (pm_pages pm))")
    case True
    obtain a it' where step: "(page_map_iter_next pm it :: ('e, _) result)
          = Ok (Some ((pv_items (pm_pages pm) ! k, a), it'))"
      and a: "addr_nat a = entries_pfns (pm_sparse_map pm) ! k * 4096" and at: "iter_at pm it' (k + 1)"
      using page_map_iter_next_at [OF assms(1) Suc.prems(1) True] .
    obtain xs where xs: "(page_map_iter_take n pm it' :: ('e, _) result) = Ok xs"
      "map (\<lambda>(info, a). (addr_nat a, info)) xs = take n (drop (k + 1) ?z)"
      using Suc.IH [OF at] True by auto
    have "drop k ?z = ?z ! k # drop (k + 1) ?z"
      unfolding Suc_eq_plus1 [symmetric]
      by (rule Cons_nth_drop_Suc [symmetric]) (simp only: len True)
    moreover have "?z ! k = (addr_nat a, pv_items (pm_pages pm) ! k)"
      using True len a by simp
    ultimately show ?thesis
      using step xs by simp
  next
    case False
    then have "length (pm_sparse_map pm) = cur_sparse_entry it"
      using Suc.prems assms(1) entry_position_bound [of "cur_sparse_entry it" "pm_sparse_map pm" k]
      by (auto simp: iter_at_def Let_def page_map_iter_ok_def page_map_wf_def)
    then show ?thesis
      using False len by (simp add: page_map_iter_next_def)
  qed
qed

lemma find_index_nth:
  "find_index p xs i = Some (j, x) \<Longrightarrow>
   i \<le> j \<and> j - i < length xs \<and> xs ! (j - i) = x \<and> p x \<and> find p xs = Some x"
proof (induction xs arbitrary: i)
  case (Cons y ys)
  show ?case
  proof (cases "p y")
    case False
    with Cons have "Suc i \<le> j \<and> j - Suc i < length ys \<and> ys ! (j - Suc i) = x \<and> p x \<and> find p ys = Some x"
      by simp
    with False show ?thesis
      by (auto simp: nth_Cons' Suc_diff_Suc)
  qed (use Cons.prems in auto)
qed simp

lemma page_map_iter_new_at:
  assumes "page_map_wf pm" and "page_map_iter_new pm a = Some it"
  obtains k where "get_map_index pm a = Some k" and "iter_at pm it k"
proof -
  let ?es = "pm_sparse_map pm" and ?i = "page_addr_index a"
  obtain j s where js: "find_index (\<lambda>s. entry_covers s ?i) ?es 0 = Some (j, s)"
    and it: "it = \<lparr>cur_sparse_entry = j, cur_index = page_map_index s + ?i - base_pfn s\<rparr>"
    using assms(2) by (auto simp: page_map_iter_new_def)
  note f = find_index_nth [OF js]
  have idx: "page_map_index s = entry_off ?es j"
    using entries_ok_index [of 0 ?es j] assms(1) f by (auto simp: page_map_wf_def)
  have "base_pfn s \<le> ?i" and "?i < base_pfn s + num_pages s"
    using f by (auto simp: entry_covers_def)
  then have "iter_at pm it (page_map_index s + ?i - base_pfn s)"
    using f idx by (auto simp: iter_at_def it Let_def)
  moreover have "get_map_index pm a = Some (page_map_index s + ?i - base_pfn s)"
    using f by (simp add: get_map_index_def)
  ultimately show thesis
    by (rule that [rotated])
qed


definition example_page_map :: page_map where
  "example_page_map =
     \<lparr>pm_pages = \<lparr>pv_items = [info_new, info_new_reserved, info_new_hypervisor_owned], pv_capacity = 85,
                  pv_base = PageAddr (raw_supervisor 0x80000000), pv_page_size = Size4k\<rparr>,
      pm_sparse_map = [\<lparr>base_pfn = 0x80000, num_pages = 2, page_map_index = 0\<rparr>,
                       \<lparr>base_pfn = 0x90000, num_pages = 1, page_map_index = 2\<rparr>]\<rparr>"


text \<open>
  An empty entry breaks the pairing: a region of less than one alignment unit leaves
  one behind, and the iterator then reports the page after it, whose frame is
  \<open>0x90000\<close>, under the empty entry's address.
\<close>

lemma page_map_iter_empty_entry_wrong_address:
  "\<exists>it it'. page_map_iter_next
      \<lparr>pm_pages = \<lparr>pv_items = [info_new, info_new_reserved], pv_capacity = 85,
                   pv_base = PageAddr (raw_supervisor 0x80000000), pv_page_size = Size4k\<rparr>,
       pm_sparse_map = [\<lparr>base_pfn = 0x80000, num_pages = 1, page_map_index = 0\<rparr>,
                        \<lparr>base_pfn = 0x88000, num_pages = 0, page_map_index = 1\<rparr>,
                        \<lparr>base_pfn = 0x90000, num_pages = 1, page_map_index = 1\<rparr>]\<rparr>
      \<lparr>cur_sparse_entry = 0, cur_index = 0\<rparr>
    = (Ok (Some ((info_new, PageAddr (raw_supervisor 0x80000000)), it)) :: (nat, _) result)
    \<and> page_map_iter_next
      \<lparr>pm_pages = \<lparr>pv_items = [info_new, info_new_reserved], pv_capacity = 85,
                   pv_base = PageAddr (raw_supervisor 0x80000000), pv_page_size = Size4k\<rparr>,
       pm_sparse_map = [\<lparr>base_pfn = 0x80000, num_pages = 1, page_map_index = 0\<rparr>,
                        \<lparr>base_pfn = 0x88000, num_pages = 0, page_map_index = 1\<rparr>,
                        \<lparr>base_pfn = 0x90000, num_pages = 1, page_map_index = 1\<rparr>]\<rparr> it
    = (Ok (Some ((info_new_reserved, PageAddr (raw_supervisor 0x88000000)), it')) :: (nat, _) result)"
  by (simp add: page_map_iter_next_def pv_get_def page_addr_from_pfn_def pfn_supervisor_def
      raw_supervisor_def PFN_SHIFT_def page_addr_with_alignment_def page_size_is_aligned_iff Let_def)

end
