(* ===== verification/Page_Tracker.thy ===== *)
theory Page_Tracker
  imports Page_Map_Iter
begin

text \<open>
  The page tracker (\<open>page-tracking/src/page_tracker.rs\<close>, lines 66 to 494): the one
  authority on who owns which page. The mutex around it makes each call atomic, so a
  call is a function from the tracker to its result and the tracker after it. The
  associated types and \<open>mem_type()\<close> of a page type parameter are arguments of the
  operations that name them.
\<close>

section \<open>State\<close>

record page_tracker =
  next_owner_id :: u64
  active_guests :: "page_owner_id raw_page_vec"
  tracker_pages :: page_map

type_synonym 'a tracker_result = "(page_tracking_error, 'a) result \<times> page_tracker"

text \<open>The update of one page's info through the reference \<open>get_mut\<close> returns.\<close>

definition tracker_update ::
    "page_tracker \<Rightarrow> supervisor_page_addr \<Rightarrow> (page_info \<Rightarrow> info_result) \<Rightarrow> unit tracker_result option" where
  "tracker_update t a f =
     (case page_map_get (tracker_pages t) a of
        None \<Rightarrow> None
      | Some info \<Rightarrow>
          (case f info of (r, info') \<Rightarrow>
             Some (r, t\<lparr>tracker_pages := page_map_set (tracker_pages t) a info'\<rparr>)))"

text \<open>\<open>get_mut(addr)?\<close> and \<open>get_mut(addr).unwrap()\<close>.\<close>

definition try_update ::
    "page_tracker \<Rightarrow> supervisor_page_addr \<Rightarrow> (page_info \<Rightarrow> info_result) \<Rightarrow> unit tracker_result" where
  "try_update t a f =
     (case tracker_update t a f of None \<Rightarrow> (Err (InvalidPage a), t) | Some x \<Rightarrow> x)"

definition unwrap_update ::
    "page_tracker \<Rightarrow> supervisor_page_addr \<Rightarrow> (page_info \<Rightarrow> info_result) \<Rightarrow> unit tracker_result" where
  "unwrap_update t a f = (case tracker_update t a f of None \<Rightarrow> (Panic, t) | Some x \<Rightarrow> x)"

definition and_then :: "'a tracker_result \<Rightarrow> (page_tracking_error, 'b) result \<Rightarrow> 'b tracker_result" where
  "and_then x r = (result_bind (fst x) (\<lambda>_. r), snd x)"

section \<open>Guests\<close>

definition add_active_guest :: "page_tracker \<Rightarrow> page_owner_id tracker_result" where
  "add_active_guest t =
     (case page_owner_id_new (next_owner_id t) of
        None \<Rightarrow> (Panic, t)
      | Some i \<Rightarrow>
          (case checked_add (next_owner_id t) 1 of
             None \<Rightarrow> (Err IdOverflow, t)
           | Some n \<Rightarrow>
               let t' = t\<lparr>next_owner_id := n\<rparr> in
               if \<not> pv_try_reserve (active_guests t') 1 then (Err GuestOverflow, t')
               else (case pv_push (active_guests t') i of
                       Ok v \<Rightarrow> (Ok i, t'\<lparr>active_guests := v\<rparr>)
                     | Err e \<Rightarrow> (Err e, t')
                     | Panic \<Rightarrow> (Panic, t'))))"

definition rm_active_guest :: "page_tracker \<Rightarrow> page_owner_id \<Rightarrow> page_tracker" where
  "rm_active_guest t i = t\<lparr>active_guests := pv_retain (\<lambda>j. j \<noteq> i) (active_guests t)\<rparr>"

section \<open>Assigning, sharing and releasing\<close>

definition assign_page_for_mapping ::
    "owner_vec \<Rightarrow> page_typestate \<Rightarrow> page_tracker \<Rightarrow> page \<Rightarrow> page_owner_id \<Rightarrow> page tracker_result" where
  "assign_page_for_mapping av mappable t p owner =
     and_then (unwrap_update t (page_base p) (info_assign av owner Mapped))
       (page_new_with_size mappable (page_base p) (page_len p))"

definition share_checked :: "mem_type \<Rightarrow> page_owner_id \<Rightarrow> page_info \<Rightarrow> info_result" where
  "share_checked mt owner info =
     (if info_owner info \<noteq> Some owner \<or> info_mem_type info \<noteq> mt \<or> \<not> info_is_shareable info
      then (Err PageNotShareable, info) else info_share info)"

definition share_page ::
    "mem_type \<Rightarrow> page_typestate \<Rightarrow> page_tracker \<Rightarrow> page \<Rightarrow> page_owner_id \<Rightarrow> page tracker_result" where
  "share_page mt mappable t p owner =
     and_then (unwrap_update t (page_base p) (share_checked mt owner))
       (page_new_with_size mappable (page_base p) (page_len p))"

definition assign_page_for_internal_state ::
    "owner_vec \<Rightarrow> page_tracker \<Rightarrow> page \<Rightarrow> page_owner_id \<Rightarrow> page tracker_result" where
  "assign_page_for_internal_state av t p owner =
     and_then (unwrap_update t (page_base p) (info_assign av owner VmState))
       (page_new_with_size StInternalClean (page_base p) (page_len p))"

definition release_page :: "owner_vec \<Rightarrow> page_tracker \<Rightarrow> page \<Rightarrow> unit tracker_result" where
  "release_page av t p = unwrap_update t (page_base p) (info_release av)"

definition release_checked :: "owner_vec \<Rightarrow> page_owner_id \<Rightarrow> page_info \<Rightarrow> info_result" where
  "release_checked av owner info =
     (if info_owner info \<noteq> Some owner \<and> \<not> info_is_shared info then (Err OwnerMismatch, info)
      else info_release av info)"

definition release_page_by_addr ::
    "owner_vec \<Rightarrow> page_tracker \<Rightarrow> supervisor_page_addr \<Rightarrow> page_owner_id \<Rightarrow> unit tracker_result" where
  "release_page_by_addr av t a owner = try_update t a (release_checked av owner)"

section \<open>Conversion, reclaim and unassignment\<close>

definition convert_page :: "page_tracker \<Rightarrow> page \<Rightarrow> tlb_version \<Rightarrow> unit tracker_result" where
  "convert_page t p v = unwrap_update t (page_base p) (info_begin_conversion v)"

definition reclaim_page :: "page_typestate \<Rightarrow> page_tracker \<Rightarrow> page \<Rightarrow> page tracker_result" where
  "reclaim_page mappable t p =
     and_then (unwrap_update t (page_base p) info_reclaim)
       (page_new_with_size mappable (page_base p) (page_len p))"

definition convert_and_lock :: "mem_type \<Rightarrow> page_owner_id \<Rightarrow> tlb_version \<Rightarrow> page_info \<Rightarrow> info_result" where
  "convert_and_lock mt owner v info =
     (if info_owner info \<noteq> Some owner \<or> info_mem_type info \<noteq> mt then (Err PageNotConvertible, info)
      else if info_state info = Converted then info_lock_for_assignment info
      else (case info_complete_conversion v info of
              (Ok _, info') \<Rightarrow> info_lock_for_assignment info'
            | (Err _, info') \<Rightarrow> (Err PageNotConvertible, info')
            | (Panic, info') \<Rightarrow> (Panic, info')))"

definition get_converted_page ::
    "mem_type \<Rightarrow> page_typestate \<Rightarrow> page_tracker \<Rightarrow> supervisor_page_addr \<Rightarrow> page_owner_id \<Rightarrow> tlb_version
      \<Rightarrow> page tracker_result" where
  "get_converted_page mt dirty t a owner v =
     and_then (try_update t a (convert_and_lock mt owner v)) (page_new dirty a)"

definition unassign_page_begin :: "page_tracker \<Rightarrow> page \<Rightarrow> tlb_version \<Rightarrow> unit tracker_result" where
  "unassign_page_begin t p v = unwrap_update t (page_base p) (info_begin_unassignment v)"

definition unassign_checked ::
    "owner_vec \<Rightarrow> page_owner_id \<Rightarrow> mem_type \<Rightarrow> tlb_version \<Rightarrow> page_info \<Rightarrow> info_result" where
  "unassign_checked av owner mt v info =
     (if info_owner info \<noteq> Some owner \<or> info_mem_type info \<noteq> mt then (Err PageNotUnassignable, info)
      else info_complete_unassignment av v info)"

definition unassign_page_complete ::
    "owner_vec \<Rightarrow> page_tracker \<Rightarrow> supervisor_page_addr \<Rightarrow> page_owner_id \<Rightarrow> mem_type \<Rightarrow> tlb_version
      \<Rightarrow> unit tracker_result" where
  "unassign_page_complete av t a owner mt v = try_update t a (unassign_checked av owner mt v)"

definition unlock_page :: "page_tracker \<Rightarrow> page \<Rightarrow> unit tracker_result" where
  "unlock_page t p = try_update t (page_base p) info_unlock"

section \<open>Queries\<close>

definition tracker_check :: "page_tracker \<Rightarrow> supervisor_page_addr \<Rightarrow> (page_info \<Rightarrow> bool) \<Rightarrow> bool" where
  "tracker_check t a f =
     (case page_map_get (tracker_pages t) a of None \<Rightarrow> False | Some info \<Rightarrow> f info)"

definition is_owned :: "page_tracker \<Rightarrow> supervisor_page_addr \<Rightarrow> page_owner_id \<Rightarrow> bool" where
  "is_owned t a owner = tracker_check t a (\<lambda>i. info_owner i = Some owner)"

definition is_mapped_page :: "page_tracker \<Rightarrow> supervisor_page_addr \<Rightarrow> page_owner_id \<Rightarrow> mem_type \<Rightarrow> bool" where
  "is_mapped_page t a owner mt =
     tracker_check t a (\<lambda>i. info_owner i = Some owner \<and> info_mem_type i = mt \<and> info_state i = Mapped)"

definition get_shareable_page ::
    "mem_type \<Rightarrow> page_typestate \<Rightarrow> page_tracker \<Rightarrow> supervisor_page_addr \<Rightarrow> page_owner_id
      \<Rightarrow> (page_tracking_error, page) result" where
  "get_shareable_page mt shareable t a owner =
     (case page_map_get (tracker_pages t) a of
        None \<Rightarrow> Err (InvalidPage a)
      | Some i \<Rightarrow>
          if info_owner i \<noteq> Some owner \<or> info_mem_type i \<noteq> mt \<or> \<not> info_is_shareable i
          then Err PageNotShareable else page_new shareable a)"

definition is_shared_page :: "page_tracker \<Rightarrow> supervisor_page_addr \<Rightarrow> mem_type \<Rightarrow> bool" where
  "is_shared_page t a mt = tracker_check t a (\<lambda>i. info_mem_type i = mt \<and> info_is_shared i)"

definition is_shareable_page :: "page_tracker \<Rightarrow> supervisor_page_addr \<Rightarrow> page_owner_id \<Rightarrow> mem_type \<Rightarrow> bool" where
  "is_shareable_page t a owner mt =
     tracker_check t a (\<lambda>i. info_owner i = Some owner \<and> info_mem_type i = mt \<and> info_is_shareable i)"

definition is_converted_page ::
    "page_tracker \<Rightarrow> supervisor_page_addr \<Rightarrow> page_owner_id \<Rightarrow> mem_type \<Rightarrow> tlb_version \<Rightarrow> bool" where
  "is_converted_page t a owner mt v =
     tracker_check t a (\<lambda>i. info_owner i = Some owner \<and> info_mem_type i = mt
       \<and> (info_state i = Converted \<or> info_is_convertible i v))"

definition is_unassignable_page ::
    "page_tracker \<Rightarrow> supervisor_page_addr \<Rightarrow> page_owner_id \<Rightarrow> mem_type \<Rightarrow> tlb_version \<Rightarrow> bool" where
  "is_unassignable_page t a owner mt v =
     tracker_check t a (\<lambda>i. info_owner i = Some owner \<and> info_mem_type i = mt \<and> info_is_unassignable i v)"

definition is_internal_state_page :: "page_tracker \<Rightarrow> supervisor_page_addr \<Rightarrow> page_owner_id \<Rightarrow> bool" where
  "is_internal_state_page t a owner =
     tracker_check t a (\<lambda>i. info_owner i = Some owner \<and> info_mem_type i = Ram \<and> info_state i = VmState)"

section \<open>Links between pages\<close>

definition link_pages :: "page_tracker \<Rightarrow> supervisor_page_addr \<Rightarrow> supervisor_page_addr \<Rightarrow> unit tracker_result" where
  "link_pages t a b =
     (case page_map_get (tracker_pages t) b of
        None \<Rightarrow> (Err (InvalidPage b), t)
      | Some dst \<Rightarrow>
          if info_next dst \<noteq> None then (Err PageAlreadyLinked, t)
          else try_update t a (info_set_link b))"

definition unlink_page :: "page_tracker \<Rightarrow> supervisor_page_addr \<Rightarrow> supervisor_page_addr option \<times> page_tracker" where
  "unlink_page t a =
     (case page_map_get (tracker_pages t) a of
        None \<Rightarrow> (None, t)
      | Some info \<Rightarrow>
          (info_next info, t\<lparr>tracker_pages := page_map_set (tracker_pages t) a (info_unlink info)\<rparr>))"

definition linked_page :: "page_tracker \<Rightarrow> supervisor_page_addr \<Rightarrow> supervisor_page_addr option" where
  "linked_page t a = Option.bind (page_map_get (tracker_pages t) a) info_next"

section \<open>Invariant\<close>

text \<open>
  The table of pages is in order, every page of it is, and the guests have distinct
  identities below the next one to be handed out.
\<close>

definition tracker_wf :: "page_tracker \<Rightarrow> bool" where
  "tracker_wf t \<longleftrightarrow>
     page_map_wf (tracker_pages t)
   \<and> (\<forall>a info. page_map_get (tracker_pages t) a = Some info \<longrightarrow> info_wf info)
   \<and> 2 \<le> next_owner_id t
   \<and> (\<forall>g \<in> set (pv_items (active_guests t)). g \<noteq> owner_hypervisor \<and> owner_raw g < next_owner_id t)
   \<and> distinct (pv_items (active_guests t))
   \<and> length (pv_items (active_guests t)) \<le> pv_capacity (active_guests t)"

lemma page_map_set_same:
  assumes "page_map_get pm a = Some info"
  shows "page_map_set pm a info = pm"
proof (cases "get_map_index pm a")
  case (Some i)
  then have "i < length (pv_items (pm_pages pm))" and "pv_items (pm_pages pm) ! i = info"
    using assms by (simp_all add: page_map_get_def pv_get_def split: if_splits)
  with Some show ?thesis
    by (simp add: page_map_set_def pv_set_def list_update_same_conv)
qed (use assms in \<open>simp add: page_map_get_def\<close>)

text \<open>The state part of an update, whichever way a missing page is treated.\<close>

definition tracker_step :: "page_tracker \<Rightarrow> supervisor_page_addr \<Rightarrow> (page_info \<Rightarrow> info_result) \<Rightarrow> page_tracker" where
  "tracker_step t a f = snd (try_update t a f)"

lemma snd_updates [simp]:
  "snd (try_update t a f) = tracker_step t a f" "snd (unwrap_update t a f) = tracker_step t a f"
  "snd (and_then x r) = snd x"
  by (simp_all add: tracker_step_def try_update_def unwrap_update_def and_then_def split: option.split)

lemma tracker_step_eq:
  "tracker_step t a f =
     (case page_map_get (tracker_pages t) a of
        None \<Rightarrow> t
      | Some info \<Rightarrow> t\<lparr>tracker_pages := page_map_set (tracker_pages t) a (snd (f info))\<rparr>)"
  by (simp add: tracker_step_def try_update_def tracker_update_def split: option.split prod.split)

lemma fst_try_update:
  "fst (try_update t a f) =
     (case page_map_get (tracker_pages t) a of None \<Rightarrow> Err (InvalidPage a) | Some info \<Rightarrow> fst (f info))"
  by (simp add: try_update_def tracker_update_def split: option.split prod.split)

lemma fst_unwrap_update:
  "fst (unwrap_update t a f) =
     (case page_map_get (tracker_pages t) a of None \<Rightarrow> Panic | Some info \<Rightarrow> fst (f info))"
  by (simp add: unwrap_update_def tracker_update_def split: option.split prod.split)

lemma tracker_step_get:
  assumes "page_map_wf (tracker_pages t)"
  shows "page_map_get (tracker_pages (tracker_step t a f)) b =
     (if page_addr_index b = page_addr_index a
      then map_option (\<lambda>info. snd (f info)) (page_map_get (tracker_pages t) a)
      else page_map_get (tracker_pages t) b)"
proof -
  have "page_map_get (tracker_pages t) b = page_map_get (tracker_pages t) a"
    if "page_addr_index b = page_addr_index a"
    using that assms by (simp add: page_map_get_abs)
  then show ?thesis
    using assms by (cases "page_map_get (tracker_pages t) a") (simp_all add: tracker_step_eq pm.get_set)
qed

text \<open>What any operation on one page gives once it is lifted to the tracker.\<close>

context page_op
begin

lemma step_wf: "ok \<Longrightarrow> tracker_wf t \<Longrightarrow> tracker_wf (tracker_step t a f)"
proof -
  assume ok and t: "tracker_wf t"
  show ?thesis
  proof (cases "page_map_get (tracker_pages t) a")
    case None
    with t show ?thesis
      by (simp add: tracker_step_eq)
  next
    case (Some info)
    then have "info_wf (snd (f info))"
      using \<open>ok\<close> t keeps_wf by (auto simp: tracker_wf_def)
    with Some t show ?thesis
      by (auto simp: tracker_wf_def tracker_step_eq pm.set_wf pm.get_set split: if_splits)
  qed
qed

lemma step_err: "fst (try_update t a f) \<noteq> Ok () \<Longrightarrow> tracker_step t a f = t"
proof (cases "page_map_get (tracker_pages t) a")
  case (Some info)
  assume "fst (try_update t a f) \<noteq> Ok ()"
  with Some have "snd (f info) = info"
    using unchanged by (simp add: fst_try_update)
  with Some show ?thesis
    by (simp add: tracker_step_eq page_map_set_same)
qed (simp add: tracker_step_eq)

lemma step_no_panic: "ok \<Longrightarrow> tracker_wf t \<Longrightarrow> fst (try_update t a f) \<noteq> Panic"
  using no_panic by (auto simp: fst_try_update tracker_wf_def split: option.split)

lemma step_mem_type:
  "page_map_wf (tracker_pages t) \<Longrightarrow>
   map_option info_mem_type (page_map_get (tracker_pages (tracker_step t a f)) b)
   = map_option info_mem_type (page_map_get (tracker_pages t) b)"
  using page_map_get_abs [of "tracker_pages t"]
  by (simp add: tracker_step_get keeps_mem_type option.map_comp comp_def)

end

section \<open>The checked operations meet the contract\<close>

interpretation op_share_checked: page_op True "share_checked mt owner" for mt owner
  by unfold_locales
     (use op_share.keeps_wf op_share.no_panic op_share.unchanged op_share.keeps_mem_type
       in \<open>auto simp: share_checked_def\<close>)

interpretation op_release_checked: page_op "array_vec_ok MAX_PAGE_OWNERS av" "release_checked av owner"
  for av owner
  by unfold_locales
     (use op_release.keeps_wf op_release.no_panic op_release.unchanged op_release.keeps_mem_type
       in \<open>auto simp: release_checked_def\<close>)

interpretation op_unassign_checked:
  page_op "array_vec_ok MAX_PAGE_OWNERS av" "unassign_checked av owner mt v" for av owner mt v
  by unfold_locales
     (use op_complete_unassignment.keeps_wf op_complete_unassignment.no_panic
       op_complete_unassignment.unchanged op_complete_unassignment.keeps_mem_type
       in \<open>auto simp: unassign_checked_def\<close>)

lemma convert_and_lock_eq:
  "convert_and_lock mt owner v info =
     (if info_owner info = Some owner \<and> info_mem_type info = mt
         \<and> (info_state info = Converted \<or> info_is_convertible info v)
      then (Ok (), info\<lparr>info_state := ConvertedLocked\<rparr>) else (Err PageNotConvertible, info))"
  by (cases "info_state info")
     (auto simp: convert_and_lock_def info_lock_for_assignment_def info_complete_conversion_def)

interpretation op_convert_and_lock: page_op True "convert_and_lock mt owner v" for mt owner v
  by unfold_locales (auto simp: convert_and_lock_eq info_wf_def)

section \<open>Histories of calls\<close>

datatype tracker_cmd =
    TAssignMapping page_typestate page page_owner_id
  | TShare mem_type page_typestate page page_owner_id
  | TAssignInternal page page_owner_id
  | TRelease page
  | TReleaseByAddr supervisor_page_addr page_owner_id
  | TConvert page tlb_version
  | TReclaim page_typestate page
  | TGetConverted mem_type page_typestate supervisor_page_addr page_owner_id tlb_version
  | TUnassignBegin page tlb_version
  | TUnassignComplete supervisor_page_addr page_owner_id mem_type tlb_version
  | TUnlock page
  | TAddGuest
  | TRmGuest page_owner_id
  | TLink supervisor_page_addr supervisor_page_addr
  | TUnlink supervisor_page_addr

text \<open>A call, with its result cut down to success or failure.\<close>

fun tracker_exec :: "owner_vec \<Rightarrow> tracker_cmd \<Rightarrow> page_tracker \<Rightarrow> unit tracker_result" where
  "tracker_exec av (TAssignMapping m p owner) t = and_then (assign_page_for_mapping av m t p owner) (Ok ())"
| "tracker_exec av (TShare mt m p owner) t = and_then (share_page mt m t p owner) (Ok ())"
| "tracker_exec av (TAssignInternal p owner) t = and_then (assign_page_for_internal_state av t p owner) (Ok ())"
| "tracker_exec av (TRelease p) t = release_page av t p"
| "tracker_exec av (TReleaseByAddr a owner) t = release_page_by_addr av t a owner"
| "tracker_exec av (TConvert p v) t = convert_page t p v"
| "tracker_exec av (TReclaim m p) t = and_then (reclaim_page m t p) (Ok ())"
| "tracker_exec av (TGetConverted mt d a owner v) t = and_then (get_converted_page mt d t a owner v) (Ok ())"
| "tracker_exec av (TUnassignBegin p v) t = unassign_page_begin t p v"
| "tracker_exec av (TUnassignComplete a owner mt v) t = unassign_page_complete av t a owner mt v"
| "tracker_exec av (TUnlock p) t = unlock_page t p"
| "tracker_exec av TAddGuest t = and_then (add_active_guest t) (Ok ())"
| "tracker_exec av (TRmGuest i) t = (Ok (), rm_active_guest t i)"
| "tracker_exec av (TLink a b) t = link_pages t a b"
| "tracker_exec av (TUnlink a) t = (Ok (), snd (unlink_page t a))"

fun tracker_run :: "owner_vec \<Rightarrow> tracker_cmd list \<Rightarrow> page_tracker \<Rightarrow> page_tracker" where
  "tracker_run av [] t = t"
| "tracker_run av (c # cs) t = tracker_run av cs (snd (tracker_exec av c t))"

text \<open>The page a call is about, and what it does to that page's info.\<close>

fun cmd_page :: "tracker_cmd \<Rightarrow> supervisor_page_addr option" where
  "cmd_page (TAssignMapping m p owner) = Some (page_base p)"
| "cmd_page (TShare mt m p owner) = Some (page_base p)"
| "cmd_page (TAssignInternal p owner) = Some (page_base p)"
| "cmd_page (TRelease p) = Some (page_base p)"
| "cmd_page (TReleaseByAddr a owner) = Some a"
| "cmd_page (TConvert p v) = Some (page_base p)"
| "cmd_page (TReclaim m p) = Some (page_base p)"
| "cmd_page (TGetConverted mt d a owner v) = Some a"
| "cmd_page (TUnassignBegin p v) = Some (page_base p)"
| "cmd_page (TUnassignComplete a owner mt v) = Some a"
| "cmd_page (TUnlock p) = Some (page_base p)"
| "cmd_page (TLink a b) = Some a"
| "cmd_page (TUnlink a) = Some a"
| "cmd_page _ = None"

fun cmd_info :: "owner_vec \<Rightarrow> tracker_cmd \<Rightarrow> page_info \<Rightarrow> info_result" where
  "cmd_info av (TAssignMapping m p owner) = info_assign av owner Mapped"
| "cmd_info av (TShare mt m p owner) = share_checked mt owner"
| "cmd_info av (TAssignInternal p owner) = info_assign av owner VmState"
| "cmd_info av (TRelease p) = info_release av"
| "cmd_info av (TReleaseByAddr a owner) = release_checked av owner"
| "cmd_info av (TConvert p v) = info_begin_conversion v"
| "cmd_info av (TReclaim m p) = info_reclaim"
| "cmd_info av (TGetConverted mt d a owner v) = convert_and_lock mt owner v"
| "cmd_info av (TUnassignBegin p v) = info_begin_unassignment v"
| "cmd_info av (TUnassignComplete a owner mt v) = unassign_checked av owner mt v"
| "cmd_info av (TUnlock p) = info_unlock"
| "cmd_info av (TLink a b) = info_set_link b"
| "cmd_info av (TUnlink a) = (\<lambda>i. (Ok (), info_unlink i))"
| "cmd_info av _ = (\<lambda>i. (Ok (), i))"

text \<open>The type of an address promises its alignment.\<close>

fun cmd_ok :: "tracker_cmd \<Rightarrow> bool" where
  "cmd_ok (TLink a b) = page_addr_wf b"
| "cmd_ok _ = True"

lemmas tracker_op_defs = assign_page_for_mapping_def share_page_def assign_page_for_internal_state_def
  release_page_def release_page_by_addr_def convert_page_def reclaim_page_def get_converted_page_def
  unassign_page_begin_def unassign_page_complete_def unlock_page_def

interpretation op_unlink: page_op True "\<lambda>i. (Ok (), info_unlink i)"
  by unfold_locales (simp_all add: info_unlink_def info_wf_def)

interpretation op_skip: page_op True "\<lambda>i. (Ok (), i)"
  by unfold_locales simp_all

lemma cmd_info_page_op: "page_op (array_vec_ok MAX_PAGE_OWNERS av \<and> cmd_ok c) (cmd_info av c)"
proof -
  note ops = op_assign.page_op_axioms op_share_checked.page_op_axioms op_release.page_op_axioms
    op_release_checked.page_op_axioms op_begin_conversion.page_op_axioms op_reclaim.page_op_axioms
    op_convert_and_lock.page_op_axioms op_begin_unassignment.page_op_axioms
    op_unassign_checked.page_op_axioms op_unlock.page_op_axioms op_set_link.page_op_axioms
    op_unlink.page_op_axioms op_skip.page_op_axioms
  show ?thesis
    using ops by (cases c) (simp_all add: page_op_def)
qed

interpretation op_cmd: page_op "array_vec_ok MAX_PAGE_OWNERS av \<and> cmd_ok c" "cmd_info av c" for av c
  by (rule cmd_info_page_op)

text \<open>Every call on a page is its operation lifted to the tracker, or leaves the tracker alone.\<close>

lemma tracker_exec_step:
  assumes "cmd_page c = Some a"
  shows "snd (tracker_exec av c t) = tracker_step t a (cmd_info av c)
       \<or> snd (tracker_exec av c t) = t \<and> fst (tracker_exec av c t) \<noteq> Ok ()"
  using assms
  by (cases c)
     (auto simp: tracker_op_defs link_pages_def unlink_page_def tracker_step_eq [of _ _ "\<lambda>i. (Ok (), info_unlink i)"]
       split: option.splits)

lemma tracker_exec_other:
  assumes "cmd_page c = None"
  shows "tracker_pages (snd (tracker_exec av c t)) = tracker_pages t"
  using assms
  by (cases c)
     (auto simp: add_active_guest_def rm_active_guest_def Let_def split: option.splits result.splits)

lemma add_active_guest_wf: "tracker_wf t \<Longrightarrow> tracker_wf (snd (add_active_guest t))"
proof -
  assume t: "tracker_wf t"
  have less: "x < n" if "unat n = unat m + 1" "x < m" for x m n :: u64
    using that by (simp add: word_less_nat_alt)
  have le: "2 \<le> n" if "unat n = unat m + 1" "2 \<le> m" for m n :: u64
    using that by (simp add: word_le_nat_alt)
  have self: "m < n" if "unat n = unat m + 1" for m n :: u64
    using that by (simp add: word_less_nat_alt)
  show ?thesis
    using t
    by (auto simp: add_active_guest_def tracker_wf_def Let_def checked_add_Some pv_push_def
        page_owner_id_new_def owner_hypervisor_def less le self
        split: option.splits if_splits result.splits)
qed

lemma tracker_exec_wf:
  assumes "array_vec_ok MAX_PAGE_OWNERS av" and "tracker_wf t" and "cmd_ok c"
  shows "tracker_wf (snd (tracker_exec av c t))"
proof (cases "cmd_page c")
  case (Some a)
  then show ?thesis
    using tracker_exec_step [OF Some, of av t] op_cmd.step_wf [of av c t a] assms by auto
next
  case None
  then show ?thesis
    using assms(2) add_active_guest_wf [OF assms(2)]
    by (cases c) (auto simp: rm_active_guest_def tracker_wf_def pv_retain_def
        intro: le_trans [OF length_filter_le])
qed

end
