(* ===== verification/Tracker_Properties.thy ===== *)
theory Tracker_Properties
  imports Page_Tracker
begin

text \<open>
  What the page tracker guarantees over whole histories of calls: its invariant, the
  frame of a call, the custody of pages as an abstract stack of owners, the exclusive
  lock on a converted page, and fresh guest identities.
\<close>

section \<open>Invariant and frame\<close>

lemma tracker_exec_mem_type:
  assumes "page_map_wf (tracker_pages t)"
  shows "map_option info_mem_type (page_map_get (tracker_pages (snd (tracker_exec av c t))) b)
       = map_option info_mem_type (page_map_get (tracker_pages t) b)"
proof (cases "cmd_page c")
  case (Some a)
  then show ?thesis
    using tracker_exec_step [OF Some, of av t] op_cmd.step_mem_type [OF assms, of a av c b] by auto
qed (simp add: tracker_exec_other)

lemma tracker_run_wf:
  "array_vec_ok MAX_PAGE_OWNERS av \<Longrightarrow> tracker_wf t \<Longrightarrow> \<forall>c \<in> set cs. cmd_ok c \<Longrightarrow>
   tracker_wf (tracker_run av cs t)"
  by (induction cs arbitrary: t) (simp_all add: tracker_exec_wf)

text \<open>
  C1: every history of tracker calls, successful or not, keeps the tracker in order:
  the page table stays well formed with every page in its invariant, guest identities
  stay distinct, and no page appears, disappears or changes its kind of memory.
\<close>

theorem tracker_history_safe:
  assumes "array_vec_ok MAX_PAGE_OWNERS av" and "tracker_wf t" and "\<forall>c \<in> set cs. cmd_ok c"
  shows "tracker_wf (tracker_run av cs t)
    \<and> (\<forall>b. map_option info_mem_type (page_map_get (tracker_pages (tracker_run av cs t)) b)
          = map_option info_mem_type (page_map_get (tracker_pages t) b))"
  using assms(2,3)
proof (induction cs arbitrary: t)
  case (Cons c cs)
  have "tracker_wf (snd (tracker_exec av c t))"
    using tracker_exec_wf [OF assms(1)] Cons.prems by simp
  moreover have "page_map_wf (tracker_pages t)"
    using Cons.prems(1) by (simp add: tracker_wf_def)
  ultimately show ?case
    using Cons.IH [of "snd (tracker_exec av c t)"] Cons.prems(2) tracker_exec_mem_type by simp
qed simp

definition example_tracker :: page_tracker where
  "example_tracker =
     \<lparr>next_owner_id = 2,
      active_guests = \<lparr>pv_items = [owner_host], pv_capacity = 4,
                       pv_base = PageAddr (raw_supervisor 0x80000000), pv_page_size = Size4k\<rparr>,
      tracker_pages = example_page_map\<rparr>"

lemma example_page_map_wf: "page_map_wf example_page_map"
  by (simp add: page_map_wf_def example_page_map_def entry_pfns_def upt_rec)

lemma example_tracker_wf: "tracker_wf example_tracker"
proof -
  have "info_wf info" if "page_map_get example_page_map a = Some info" for a info
  proof -
    have "info \<in> set (pv_items (pm_pages example_page_map))"
      using that unfolding page_map_get_abs [OF example_page_map_wf] page_map_abs_def
      by (auto dest!: map_of_SomeD set_zip_rightD)
    then show ?thesis
      by (auto simp: example_page_map_def)
  qed
  then show ?thesis
    using example_page_map_wf
    by (simp add: tracker_wf_def example_tracker_def owner_host_def owner_hypervisor_def HOST_def
        HYPERVISOR_def)
qed

definition example_page :: page where
  "example_page = \<lparr>page_base = PageAddr (raw_supervisor 0x90000000), page_len = Size4k,
                   page_typestate = StConvertedClean\<rparr>"

theorem tracker_history_safe_witness:
  "tracker_wf (tracker_run (list_array_vec MAX_PAGE_OWNERS)
     [TAssignMapping StMappableClean example_page owner_host, TAddGuest, TConvert example_page (TlbVersion 0)]
     example_tracker)"
  using tracker_history_safe [OF list_array_vec_ok example_tracker_wf,
      of "[TAssignMapping StMappableClean example_page owner_host, TAddGuest,
           TConvert example_page (TlbVersion 0)]"] by simp

lemma fst_and_then_Err: "fst (and_then x r) = Err e \<Longrightarrow> (\<And>e. r \<noteq> Err e) \<Longrightarrow> fst x = Err e"
  by (cases "fst x") (simp_all add: and_then_def)

lemma page_new_not_Err: "page_new_with_size st a s \<noteq> Err e" "page_new st a \<noteq> Err e"
  by (simp_all add: page_new_with_size_def page_new_def)

lemma tracker_exec_Err:
  assumes "fst (tracker_exec av c t) = Err e" and "cmd_page c = Some a"
  shows "fst (try_update t a (cmd_info av c)) \<noteq> Ok () \<or> snd (tracker_exec av c t) = t"
  using assms
  by (cases c)
     (auto simp: tracker_op_defs link_pages_def fst_try_update fst_unwrap_update page_new_not_Err
       dest!: fst_and_then_Err split: option.splits if_splits)

text \<open>
  C4: a tracker call touches one page. A call about page \<open>a\<close> leaves the info of every
  page with another frame number, the guests and the next identity as they were, and
  a call about \<open>a\<close> that returns an error leaves the whole tracker as it was.
\<close>

theorem tracker_call_frame:
  assumes "tracker_wf t" and "cmd_page c = Some a"
  shows "(page_addr_index b \<noteq> page_addr_index a \<longrightarrow>
           page_map_get (tracker_pages (snd (tracker_exec av c t))) b = page_map_get (tracker_pages t) b)
    \<and> active_guests (snd (tracker_exec av c t)) = active_guests t
    \<and> next_owner_id (snd (tracker_exec av c t)) = next_owner_id t
    \<and> (fst (tracker_exec av c t) = Err e \<longrightarrow> snd (tracker_exec av c t) = t)"
proof -
  have wf: "page_map_wf (tracker_pages t)"
    using assms(1) by (simp add: tracker_wf_def)
  have "snd (tracker_exec av c t) = t" if "fst (tracker_exec av c t) = Err e"
    using tracker_exec_step [OF assms(2), of av t] tracker_exec_Err [OF that assms(2)]
      op_cmd.step_err [of t a av c] by auto
  moreover have "active_guests (tracker_step t a f) = active_guests t"
    "next_owner_id (tracker_step t a f) = next_owner_id t" for f
    by (simp_all add: tracker_step_eq split: option.split)
  ultimately show ?thesis
    using tracker_exec_step [OF assms(2), of av t] tracker_step_get [OF wf, of a "cmd_info av c" b] by auto
qed

theorem tracker_call_frame_witness:
  "page_map_get (tracker_pages (snd (tracker_exec (list_array_vec MAX_PAGE_OWNERS)
       (TReclaim StMappableClean example_page) example_tracker))) (PageAddr (raw_supervisor 0x80001000))
   = page_map_get (tracker_pages example_tracker) (PageAddr (raw_supervisor 0x80001000))"
proof -
  have "page_addr_index (PageAddr (raw_supervisor 0x80001000)) \<noteq> page_addr_index (page_base example_page)"
    by (simp add: page_addr_index_eq raw_supervisor_def example_page_def)
  then show ?thesis
    using tracker_call_frame [OF example_tracker_wf, of "TReclaim StMappableClean example_page"
        "page_base example_page" "PageAddr (raw_supervisor 0x80001000)"] by simp
qed

section \<open>Custody as an abstract specification\<close>

text \<open>
  The abstract view of the tracker: for each frame number the stack of its owners. An
  abstract step stands still, puts one owner on one page's stack, or takes the top
  owner off.
\<close>

type_synonym custody = "nat \<Rightarrow> page_owner_id list option"

inductive custody_step :: "custody \<Rightarrow> custody \<Rightarrow> bool" where
  stay: "custody_step m m"
| give: "m i = Some os \<Longrightarrow> length os < MAX_PAGE_OWNERS \<Longrightarrow> custody_step m (m(i \<mapsto> os @ [owner]))"
| take_back: "m i = Some (os @ [owner]) \<Longrightarrow> custody_step m (m(i \<mapsto> os))"

inductive_cases custody_stepE: "custody_step m m'"

definition tracker_custody :: "page_tracker \<Rightarrow> custody" where
  "tracker_custody t = (\<lambda>i. map_option info_owners (page_map_abs (tracker_pages t) i))"

lemma cmd_info_owners:
  assumes "array_vec_ok MAX_PAGE_OWNERS av"
  shows "info_owners (snd (cmd_info av c p)) = info_owners p
       \<or> (\<exists>owner. length (info_owners p) < MAX_PAGE_OWNERS
             \<and> info_owners (snd (cmd_info av c p)) = info_owners p @ [owner])
       \<or> info_owners p \<noteq> [] \<and> info_owners (snd (cmd_info av c p)) = butlast (info_owners p)"
  using assms
  by (cases c; cases "info_state p")
     (auto simp: info_op_defs pop_eq try_push_eq push_eq share_checked_def release_checked_def
       convert_and_lock_eq unassign_checked_def info_set_link_def info_unlink_def split: option.splits)

lemma page_map_abs_set:
  assumes "page_map_wf pm" and "page_map_get pm a = Some info"
  shows "page_map_abs (page_map_set pm a x) = (page_map_abs pm)(page_addr_index a \<mapsto> x)"
proof -
  obtain k where k: "get_map_index pm a = Some k"
    using assms(2) by (cases "get_map_index pm a") (simp_all add: page_map_get_def)
  note ka = get_map_index_Some [OF assms(1) k]
  have "map_of (zip ks (xs[k := x])) = (map_of (zip ks xs))(ks ! k \<mapsto> x)"
    if "length xs = length ks" "distinct ks" "k < length xs" for ks :: "nat list" and xs
  proof
    fix i
    show "map_of (zip ks (xs[k := x])) i = ((map_of (zip ks xs))(ks ! k \<mapsto> x)) i"
    proof (cases "i \<in> set ks")
      case True
      then obtain j where j: "j < length ks" "i = ks ! j"
        by (auto simp: in_set_conv_nth)
      then show ?thesis
        using that by (auto simp: map_of_zip_nth nth_eq_iff_index_eq nth_list_update)
    next
      case False
      then have "i \<noteq> ks ! k"
        using that by auto
      with False that show ?thesis
        by (simp add: map_of_zip_is_None [THEN iffD2])
    qed
  qed
  then show ?thesis
    using assms(1) ka k by (simp add: page_map_abs_def page_map_set_def pv_set_def page_map_wf_def)
qed

text \<open>
  C3: the tracker implements custody. Seen through the stack of owners of each frame,
  every call is one abstract step: it leaves all stacks alone, hands one page to one
  more owner, or gives one page back to the owner before; nothing else is possible.
\<close>

theorem tracker_refines_custody:
  assumes "array_vec_ok MAX_PAGE_OWNERS av" and "tracker_wf t"
  shows "custody_step (tracker_custody t) (tracker_custody (snd (tracker_exec av c t)))"
proof (cases "cmd_page c")
  case None
  then show ?thesis
    by (simp add: tracker_custody_def tracker_exec_other stay)
next
  case (Some a)
  have wf: "page_map_wf (tracker_pages t)"
    using assms(2) by (simp add: tracker_wf_def)
  show ?thesis
  proof (cases "page_map_get (tracker_pages t) a")
    case None
    then show ?thesis
      using tracker_exec_step [OF Some, of av t] by (auto simp: tracker_step_eq stay)
  next
    case info: (Some info)
    let ?i = "page_addr_index a" and ?os = "info_owners (snd (cmd_info av c info))"
    have i: "tracker_custody t ?i = Some (info_owners info)"
      using info by (simp add: tracker_custody_def page_map_get_abs [OF wf, symmetric])
    have step: "tracker_custody (tracker_step t a (cmd_info av c)) = (tracker_custody t)(?i \<mapsto> ?os)"
      using page_map_abs_set [OF wf info] info by (auto simp: tracker_custody_def tracker_step_eq)
    have "custody_step (tracker_custody t) ((tracker_custody t)(?i \<mapsto> ?os))"
    proof -
      consider "?os = info_owners info"
        | owner where "length (info_owners info) < MAX_PAGE_OWNERS" "?os = info_owners info @ [owner]"
        | "info_owners info \<noteq> []" "?os = butlast (info_owners info)"
        using cmd_info_owners [OF assms(1), of c info] by blast
      then show ?thesis
      proof cases
        case 1
        then show ?thesis
          using i stay [of "tracker_custody t"] by (simp add: fun_upd_idem)
      next
        case 2
        then show ?thesis
          using give [of "tracker_custody t" ?i "info_owners info"] i by simp
      next
        case 3
        then show ?thesis
          using take_back [of "tracker_custody t" ?i "butlast (info_owners info)" "last (info_owners info)"] i
          by simp
      qed
    qed
    with step show ?thesis
      using tracker_exec_step [OF Some, of av t] stay by metis
  qed
qed

theorem tracker_refines_custody_witness:
  "custody_step (tracker_custody example_tracker)
     (tracker_custody (snd (tracker_exec (list_array_vec MAX_PAGE_OWNERS)
        (TAssignMapping StMappableClean example_page owner_host) example_tracker)))"
  by (rule tracker_refines_custody [OF list_array_vec_ok example_tracker_wf])

section \<open>The lock on a converted page\<close>

text \<open>The calls that end the exclusive hold on a locked page.\<close>

fun ends_lock :: "tracker_cmd \<Rightarrow> bool" where
  "ends_lock (TAssignMapping m p owner) = True"
| "ends_lock (TAssignInternal p owner) = True"
| "ends_lock (TReclaim m p) = True"
| "ends_lock (TUnlock p) = True"
| "ends_lock _ = False"

definition page_locked :: "page_tracker \<Rightarrow> supervisor_page_addr \<Rightarrow> bool" where
  "page_locked t a = tracker_check t a (\<lambda>i. info_state i = ConvertedLocked)"

lemma cmd_info_locked:
  "info_state p = ConvertedLocked \<Longrightarrow> \<not> ends_lock c \<Longrightarrow> info_state (snd (cmd_info av c p)) = ConvertedLocked"
  by (cases c)
     (auto simp: info_op_defs share_checked_def release_checked_def convert_and_lock_eq
       unassign_checked_def info_set_link_def info_unlink_def split: option.splits)

lemma page_locked_exec:
  assumes "page_map_wf (tracker_pages t)" and "page_locked t a"
    and "\<not> (ends_lock c \<and> (\<exists>b. cmd_page c = Some b \<and> page_addr_index b = page_addr_index a))"
  shows "page_locked (snd (tracker_exec av c t)) a"
proof (cases "cmd_page c")
  case None
  with assms(2) show ?thesis
    by (simp add: page_locked_def tracker_check_def tracker_exec_other)
next
  case (Some b)
  obtain info where info: "page_map_get (tracker_pages t) a = Some info" "info_state info = ConvertedLocked"
    using assms(2) by (auto simp: page_locked_def tracker_check_def split: option.splits)
  have same: "page_map_get (tracker_pages t) b = Some info" if "page_addr_index a = page_addr_index b"
    using info(1) that by (simp add: page_map_get_abs [OF assms(1)])
  have "page_locked (tracker_step t b (cmd_info av c)) a"
    using info assms(3) Some same cmd_info_locked [of info c av]
    by (auto simp: page_locked_def tracker_check_def tracker_step_get [OF assms(1)])
  then show ?thesis
    using tracker_exec_step [OF Some, of av t] assms(2) by auto
qed

lemma page_locked_run:
  assumes "array_vec_ok MAX_PAGE_OWNERS av" and "tracker_wf t" and "page_locked t a"
    and "\<forall>c \<in> set cs. cmd_ok c"
    and "\<forall>c \<in> set cs. \<not> (ends_lock c \<and> (\<exists>b. cmd_page c = Some b \<and> page_addr_index b = page_addr_index a))"
  shows "page_locked (tracker_run av cs t) a"
  using assms(2-)
proof (induction cs arbitrary: t)
  case (Cons c cs)
  have "page_locked (snd (tracker_exec av c t)) a"
    using Cons.prems by (intro page_locked_exec) (simp_all add: tracker_wf_def)
  then show ?case
    using Cons tracker_exec_wf [OF assms(1)] by simp
qed simp

lemma get_converted_page_Ok:
  assumes "get_converted_page mt d t a owner v = (Ok p, t1)" and "page_map_wf (tracker_pages t)"
  shows "page_locked t1 a" and "t1 = snd (tracker_exec av (TGetConverted mt d a owner v) t)"
    and "\<exists>info. page_map_get (tracker_pages t) a = Some info \<and> info_owner info = Some owner
           \<and> info_mem_type info = mt \<and> (info_state info = Converted \<or> info_is_convertible info v)"
    and "p = \<lparr>page_base = a, page_len = Size4k, page_typestate = d\<rparr>"
proof -
  have ok: "fst (try_update t a (convert_and_lock mt owner v)) = Ok ()"
    and t1: "t1 = tracker_step t a (convert_and_lock mt owner v)" and new: "page_new d a = (Ok p :: (page_tracking_error, _) result)"
    using assms(1) by (auto simp: get_converted_page_def and_then_def result_bind_Ok)
  obtain info where info: "page_map_get (tracker_pages t) a = Some info"
    "fst (convert_and_lock mt owner v info) = Ok ()"
    using ok by (auto simp: fst_try_update split: option.splits)
  then show "\<exists>info. page_map_get (tracker_pages t) a = Some info \<and> info_owner info = Some owner
           \<and> info_mem_type info = mt \<and> (info_state info = Converted \<or> info_is_convertible info v)"
    by (auto simp: convert_and_lock_eq split: if_splits)
  show "page_locked t1 a"
    using info unfolding t1 page_locked_def tracker_check_def
    by (auto simp: tracker_step_get [OF assms(2)] convert_and_lock_eq split: if_splits)
  show "t1 = snd (tracker_exec av (TGetConverted mt d a owner v) t)"
    using t1 by (simp add: get_converted_page_def)
  show "p = \<lparr>page_base = a, page_len = Size4k, page_typestate = d\<rparr>"
    using new by (auto simp: page_new_def page_new_with_size_def split: if_splits)
qed

text \<open>
  C2: a converted page is held by one caller at a time. \<open>get_converted_page\<close> succeeds
  only for the page's owner and only when the page is converted as of the given TLB
  version; from then on, through any calls that do not assign, reclaim or unlock that
  page, every further \<open>get_converted_page\<close> for it, by any owner at any version, fails.
\<close>

theorem converted_page_exclusive:
  assumes "array_vec_ok MAX_PAGE_OWNERS av" and "tracker_wf t"
    and "get_converted_page mt d t a owner v = (Ok p, t1)"
    and "\<forall>c \<in> set cs. cmd_ok c"
    and "\<forall>c \<in> set cs. \<not> (ends_lock c \<and> (\<exists>b. cmd_page c = Some b \<and> page_addr_index b = page_addr_index a))"
  shows "is_owned t a owner \<and> is_converted_page t a owner mt v
    \<and> fst (get_converted_page mt' d' (tracker_run av cs t1) a owner' v') = Err PageNotConvertible"
proof -
  have wf: "page_map_wf (tracker_pages t)"
    using assms(2) by (simp add: tracker_wf_def)
  note got = get_converted_page_Ok [OF assms(3) wf]
  have "tracker_wf t1"
    unfolding got(2) [of av] by (rule tracker_exec_wf [OF assms(1,2)]) simp
  then have "page_locked (tracker_run av cs t1) a"
    using page_locked_run [OF assms(1) _ got(1) assms(4,5)] by simp
  then obtain info where "page_map_get (tracker_pages (tracker_run av cs t1)) a = Some info"
    and "info_state info = ConvertedLocked"
    by (auto simp: page_locked_def tracker_check_def split: option.splits)
  then have "fst (get_converted_page mt' d' (tracker_run av cs t1) a owner' v') = Err PageNotConvertible"
    by (simp add: get_converted_page_def and_then_def fst_try_update convert_and_lock_eq)
  with got(3) show ?thesis
    by (auto simp: is_owned_def is_converted_page_def tracker_check_def)
qed

definition converted_tracker :: page_tracker where
  "converted_tracker = snd (tracker_exec (list_array_vec MAX_PAGE_OWNERS) (TUnlock example_page) example_tracker)"

lemma example_index [simp]:
  "page_addr_index (PageAddr (raw_supervisor 0x90000000)) = 0x90000"
  by (simp add: page_addr_index_eq raw_supervisor_def)

theorem converted_page_exclusive_witness:
  "\<exists>p t1. get_converted_page Ram StConvertedDirty converted_tracker (PageAddr (raw_supervisor 0x90000000))
       owner_hypervisor (TlbVersion 0) = (Ok p, t1)
     \<and> fst (get_converted_page Ram StConvertedDirty
         (tracker_run (list_array_vec MAX_PAGE_OWNERS) [TRelease p, TAddGuest] t1)
         (PageAddr (raw_supervisor 0x90000000)) owner_hypervisor (TlbVersion 1)) = Err PageNotConvertible"
proof -
  let ?a = "PageAddr (raw_supervisor 0x90000000)"
  have wf: "tracker_wf converted_tracker"
    unfolding converted_tracker_def by (rule tracker_exec_wf [OF list_array_vec_ok example_tracker_wf]) simp
  have al: "page_addr_is_aligned ?a Size4k"
    by (simp add: page_addr_is_aligned_iff raw_supervisor_def)
  have "page_map_get (tracker_pages converted_tracker) ?a
      = Some (info_new_hypervisor_owned\<lparr>info_state := Converted\<rparr>)"
    by (simp add: converted_tracker_def unlock_page_def tracker_step_eq example_page_def page_map_get_def
        get_map_index_def example_tracker_def example_page_map_def entry_covers_def page_map_set_def
        pv_get_def pv_set_def info_unlock_def info_new_hypervisor_owned_def)
  then have "get_converted_page Ram StConvertedDirty converted_tracker ?a owner_hypervisor (TlbVersion 0)
      = (Ok \<lparr>page_base = ?a, page_len = Size4k, page_typestate = StConvertedDirty\<rparr>,
         tracker_step converted_tracker ?a (convert_and_lock Ram owner_hypervisor (TlbVersion 0)))"
    using al by (simp add: get_converted_page_def and_then_def fst_try_update convert_and_lock_eq
        info_new_hypervisor_owned_def info_owner_def page_new_def page_new_with_size_def)
  with converted_page_exclusive [OF list_array_vec_ok wf this,
      of "[TRelease \<lparr>page_base = ?a, page_len = Size4k, page_typestate = StConvertedDirty\<rparr>, TAddGuest]"]
  show ?thesis
    by auto
qed

section \<open>Guest identities\<close>

text \<open>The identities that the successful \<open>add_active_guest\<close> calls of a history return.\<close>

fun new_guest :: "tracker_cmd \<Rightarrow> page_tracker \<Rightarrow> page_owner_id option" where
  "new_guest TAddGuest t = (case fst (add_active_guest t) of Ok i \<Rightarrow> Some i | _ \<Rightarrow> None)"
| "new_guest _ t = None"

fun guest_ids :: "owner_vec \<Rightarrow> tracker_cmd list \<Rightarrow> page_tracker \<Rightarrow> page_owner_id list" where
  "guest_ids av [] t = []"
| "guest_ids av (c # cs) t =
     (case new_guest c t of
        None \<Rightarrow> guest_ids av cs (snd (tracker_exec av c t))
      | Some i \<Rightarrow> i # guest_ids av cs (snd (tracker_exec av c t)))"

lemma add_active_guest_id:
  assumes "fst (add_active_guest t) = Ok i"
  shows "owner_raw i = next_owner_id t" and "next_owner_id t < next_owner_id (snd (add_active_guest t))"
    and "i \<noteq> owner_host" and "i \<noteq> owner_hypervisor"
  using assms
  by (auto simp: add_active_guest_def Let_def checked_add_Some word_less_nat_alt page_owner_id_new_def
      owner_host_def owner_hypervisor_def pv_push_def split: option.splits if_splits result.splits)

lemma new_guest_id:
  assumes "new_guest c t = Some i"
  shows "owner_raw i = next_owner_id t" and "next_owner_id t < next_owner_id (snd (tracker_exec av c t))"
    and "i \<noteq> owner_host" and "i \<noteq> owner_hypervisor"
proof -
  have c: "c = TAddGuest" and ok: "fst (add_active_guest t) = Ok i"
    using assms by (cases c; simp split: result.splits)+
  show "owner_raw i = next_owner_id t" and "next_owner_id t < next_owner_id (snd (tracker_exec av c t))"
    and "i \<noteq> owner_host" and "i \<noteq> owner_hypervisor"
    using add_active_guest_id [OF ok] by (simp_all add: c)
qed

lemma next_owner_id_mono: "next_owner_id t \<le> next_owner_id (snd (tracker_exec av c t))"
proof (cases "cmd_page c")
  case (Some a)
  then show ?thesis
    using tracker_exec_step [OF Some, of av t] by (auto simp: tracker_step_eq split: option.splits)
next
  case None
  then show ?thesis
    by (cases c)
       (auto simp: add_active_guest_def rm_active_guest_def Let_def checked_add_Some word_le_nat_alt
         split: option.splits result.splits)
qed

lemma guest_ids_lower: "i \<in> set (guest_ids av cs t) \<Longrightarrow> next_owner_id t \<le> owner_raw i"
proof (induction cs arbitrary: t)
  case (Cons c cs)
  show ?case
  proof (cases "i \<in> set (guest_ids av cs (snd (tracker_exec av c t)))")
    case True
    then show ?thesis
      using Cons.IH next_owner_id_mono order_trans by blast
  next
    case False
    then have "new_guest c t = Some i"
      using Cons.prems by (simp split: option.splits)
    then show ?thesis
      by (simp add: new_guest_id(1))
  qed
qed simp

text \<open>
  C5: no two guests ever share an identity. However guests are added and removed, in
  whatever order with other calls, the identities handed out are pairwise different,
  and none of them is the host's or the hypervisor's.
\<close>

theorem guest_ids_unique:
  "distinct (guest_ids av cs t) \<and> owner_host \<notin> set (guest_ids av cs t)
   \<and> owner_hypervisor \<notin> set (guest_ids av cs t)"
proof (induction cs arbitrary: t)
  case (Cons c cs)
  let ?t = "snd (tracker_exec av c t)"
  show ?case
  proof (cases "new_guest c t")
    case (Some i)
    have "i \<notin> set (guest_ids av cs ?t)"
      using guest_ids_lower [of i av cs ?t] new_guest_id(1) [OF Some]
        new_guest_id(2) [OF Some, of av] by (auto simp: not_le [symmetric])
    then show ?thesis
      using Cons.IH [of ?t] new_guest_id(3,4) [OF Some] Some by auto
  qed (use Cons.IH in simp)
qed simp

end
