(* ===== verification/Page_List.thy ===== *)
theory Page_List
  imports Tracker_Properties
begin

text \<open>
  Lists of pages threaded through the page tracker (\<open>page-tracking/src/page_list.rs\<close>):
  a queue whose links live in the pages' \<open>PageInfo\<close>, so that handing pages around
  needs no memory. The operations run on the tracker and the list together. The
  type-state of the list's pages is an argument.
\<close>

section \<open>Operations\<close>

record page_list =
  pl_head :: "supervisor_page_addr option"
  pl_tail :: "supervisor_page_addr option"
  pl_len :: u64

definition page_list_new :: page_list where
  "page_list_new = \<lparr>pl_head = None, pl_tail = None, pl_len = 0\<rparr>"

text \<open>The loop of \<open>from_raw_parts\<close>; on a cycle of links it does not return.\<close>

partial_function (option) follow_links ::
    "page_tracker \<Rightarrow> supervisor_page_addr \<Rightarrow> u64 \<Rightarrow> (supervisor_page_addr \<times> u64) option" where
  "follow_links t tail len =
     (case linked_page t tail of
        None \<Rightarrow> Some (tail, len)
      | Some a \<Rightarrow> follow_links t a (len + 1))"

definition page_list_from_raw_parts :: "page_tracker \<Rightarrow> supervisor_page_addr \<Rightarrow> page_list option" where
  "page_list_from_raw_parts t head =
     map_option (\<lambda>(tail, len). \<lparr>pl_head = Some head, pl_tail = Some tail, pl_len = len\<rparr>)
       (follow_links t head 1)"

definition page_list_push ::
    "page_tracker \<Rightarrow> page_list \<Rightarrow> page
      \<Rightarrow> (page_tracking_error, unit) result \<times> page_tracker \<times> page_list" where
  "page_list_push t l p =
     (case pl_tail l of
        Some tail_addr \<Rightarrow>
          (case link_pages t tail_addr (page_base p) of
             (Ok _, t') \<Rightarrow> (Ok (), t', l\<lparr>pl_tail := Some (page_base p), pl_len := pl_len l + 1\<rparr>)
           | (Err e, t') \<Rightarrow> (Err e, t', l)
           | (Panic, t') \<Rightarrow> (Panic, t', l))
      | None \<Rightarrow>
          (Ok (), t, l\<lparr>pl_head := Some (page_base p), pl_tail := Some (page_base p),
                       pl_len := pl_len l + 1\<rparr>))"

definition page_list_pop ::
    "page_typestate \<Rightarrow> page_tracker \<Rightarrow> page_list
      \<Rightarrow> ('e, page) result option \<times> page_tracker \<times> page_list" where
  "page_list_pop st t l =
     (case pl_head l of
        None \<Rightarrow> (None, t, l)
      | Some a \<Rightarrow>
          (case unlink_page t a of
             (nxt, t') \<Rightarrow>
               (Some (page_new st a), t',
                l\<lparr>pl_head := nxt, pl_tail := (if nxt = None then None else pl_tail l),
                  pl_len := pl_len l - 1\<rparr>)))"

definition page_list_is_empty :: "page_list \<Rightarrow> bool" where
  "page_list_is_empty l \<longleftrightarrow> pl_head l = None"

definition page_list_peek :: "page_list \<Rightarrow> supervisor_page_addr option" where
  "page_list_peek l = pl_head l"

function contiguous_from :: "page_tracker \<Rightarrow> supervisor_page_addr \<Rightarrow> bool" where
  "contiguous_from t prev =
     (case linked_page t prev of
        None \<Rightarrow> True
      | Some a \<Rightarrow>
          (case checked_add_pages prev 1 of
             None \<Rightarrow> False
           | Some nxt \<Rightarrow> if a = nxt then contiguous_from t nxt else False))"
  by pat_completeness auto
termination
proof (relation "measure (\<lambda>(t, prev). 2 ^ 64 - addr_nat prev)", goal_cases)
  case (2 t prev a nxt)
  then have "addr_nat nxt = addr_nat prev + 4096"
    using checked_add_pages_with_size_Some [of prev 1 Size4k nxt] by (simp add: checked_add_pages_def)
  then show ?case
    using addr_nat_less [of nxt] by simp
qed simp

declare contiguous_from.simps [simp del]

definition page_list_is_contiguous :: "page_tracker \<Rightarrow> page_list \<Rightarrow> bool" where
  "page_list_is_contiguous t l =
     (case pl_head l of None \<Rightarrow> True | Some head \<Rightarrow> contiguous_from t head)"

section \<open>Dropping a list\<close>

text \<open>
  The destructor pops until the list is empty. Each pop either empties the list or
  removes one link from the tracker, so it ends even on a cyclic list.
\<close>

definition link_count :: "page_tracker \<Rightarrow> nat" where
  "link_count t = length (filter (\<lambda>i. info_link i \<noteq> None) (pv_items (pm_pages (tracker_pages t))))"

definition list_work :: "page_tracker \<times> page_list \<Rightarrow> nat" where
  "list_work = (\<lambda>(t, l). if pl_head l = None then 0 else Suc (link_count t))"

lemma filter_length_update:
  "i < length xs \<Longrightarrow> P (xs ! i) \<Longrightarrow> \<not> P x \<Longrightarrow>
   length (filter P (xs[i := x])) < length (filter P xs)"
proof (induction xs arbitrary: i)
  case (Cons y ys)
  then show ?case by (cases i) auto
qed simp

lemma filter_length_update_same:
  "i < length xs \<Longrightarrow> P x = P (xs ! i) \<Longrightarrow> length (filter P (xs[i := x])) = length (filter P xs)"
proof (induction xs arbitrary: i)
  case (Cons y ys)
  then show ?case by (cases i) auto
qed simp

lemma tracker_step_link_count:
  assumes "\<And>i. info_link (snd (f i)) = info_link i"
  shows "link_count (tracker_step t a f) = link_count t"
proof (cases "page_map_get (tracker_pages t) a")
  case (Some info)
  then obtain i where i: "get_map_index (tracker_pages t) a = Some i"
    by (cases "get_map_index (tracker_pages t) a") (simp_all add: page_map_get_def)
  then have "i < length (pv_items (pm_pages (tracker_pages t)))"
    and "pv_items (pm_pages (tracker_pages t)) ! i = info"
    using Some by (simp_all add: page_map_get_def pv_get_def split: if_splits)
  then show ?thesis
    using Some i assms
    by (simp add: tracker_step_eq link_count_def page_map_set_def pv_set_def filter_length_update_same)
qed (simp add: tracker_step_eq)

lemma unlock_page_link_count: "link_count (snd (unlock_page t p)) = link_count t"
  unfolding unlock_page_def snd_updates
  by (rule tracker_step_link_count) (simp add: info_unlock_def split: page_state.split)

lemma unlink_page_work:
  assumes "unlink_page t a = (Some b, t')"
  shows "link_count t' < link_count t"
proof -
  obtain info where info: "page_map_get (tracker_pages t) a = Some info" "info_next info = Some b"
    and t': "t' = t\<lparr>tracker_pages := page_map_set (tracker_pages t) a (info_unlink info)\<rparr>"
    using assms by (auto simp: unlink_page_def split: option.splits)
  obtain i where i: "get_map_index (tracker_pages t) a = Some i"
    using info(1) by (cases "get_map_index (tracker_pages t) a") (simp_all add: page_map_get_def)
  then have "i < length (pv_items (pm_pages (tracker_pages t)))"
    and "pv_items (pm_pages (tracker_pages t)) ! i = info"
    using info(1) by (simp_all add: page_map_get_def pv_get_def split: if_splits)
  moreover have "info_link info \<noteq> None"
    using info(2) by (cases "info_link info") (simp_all add: info_next_def)
  ultimately show ?thesis
    unfolding link_count_def t' using i
    by (simp add: page_map_set_def pv_set_def filter_length_update info_unlink_def)
qed

lemma page_list_pop_work:
  assumes "page_list_pop st t l = (Some p, t', l')"
  shows "list_work (t', l') < list_work (t, l)"
proof -
  obtain a nxt where a: "pl_head l = Some a" "unlink_page t a = (nxt, t')" "pl_head l' = nxt"
    using assms by (auto simp: page_list_pop_def split: option.splits prod.splits)
  then show ?thesis
    using unlink_page_work [of t a _ t'] by (cases nxt) (simp_all add: list_work_def)
qed

function page_list_drop :: "page_typestate \<Rightarrow> page_tracker \<Rightarrow> page_list \<Rightarrow> ('e, page_tracker) result" where
  "page_list_drop st t l =
     (case page_list_pop st t l of
        (None, t', _) \<Rightarrow> Ok t'
      | (Some (Ok _), t', l') \<Rightarrow> page_list_drop st t' l'
      | (Some (Err e), _, _) \<Rightarrow> Err e
      | (Some Panic, _, _) \<Rightarrow> Panic)"
  by pat_completeness auto
termination
  by (relation "measure (\<lambda>(st, t, l). list_work (t, l))") (auto intro: page_list_pop_work sym)

declare page_list_drop.simps [simp del]

lemma locked_pop_work:
  assumes "page_list_pop st t l = (Some p, t', l')" and "unlock_page t' q = (r, t'')"
  shows "list_work (t'', l') < list_work (t, l)"
proof -
  have "link_count t'' = link_count t'"
    using assms(2) unlock_page_link_count [of t' q] by simp
  then show ?thesis
    using page_list_pop_work [OF assms(1)] by (simp add: list_work_def split: if_splits)
qed

text \<open>\<open>LockedPageList\<close> also unlocks the pages left on it.\<close>

function locked_page_list_drop ::
    "page_typestate \<Rightarrow> page_tracker \<Rightarrow> page_list \<Rightarrow> (page_tracking_error, page_tracker) result" where
  "locked_page_list_drop st t l =
     (case page_list_pop st t l of
        (None, t', _) \<Rightarrow> Ok t'
      | (Some (Ok p), t', l') \<Rightarrow>
          (case unlock_page t' p of
             (Ok _, t'') \<Rightarrow> locked_page_list_drop st t'' l'
           | _ \<Rightarrow> Panic)
      | (Some (Err e), _, _) \<Rightarrow> Err e
      | (Some Panic, _, _) \<Rightarrow> Panic)"
  by pat_completeness auto
termination
  by (relation "measure (\<lambda>(st, t, l). list_work (t, l))") (auto intro: locked_pop_work sym)

declare locked_page_list_drop.simps [simp del]

section \<open>The list a page list represents\<close>

text \<open>
  A chain of links through the pages \<open>as\<close>, ending in a page with no link, and the
  list record that stands for it.
\<close>

fun chain :: "page_tracker \<Rightarrow> supervisor_page_addr list \<Rightarrow> bool" where
  "chain t [] = True"
| "chain t [a] = (linked_page t a = None)"
| "chain t (a # b # as) = (linked_page t a = Some b \<and> chain t (b # as))"

definition page_list_rep :: "page_tracker \<Rightarrow> page_list \<Rightarrow> supervisor_page_addr list \<Rightarrow> bool" where
  "page_list_rep t l as \<longleftrightarrow>
     chain t as
   \<and> pl_head l = (if as = [] then None else Some (hd as))
   \<and> pl_tail l = (if as = [] then None else Some (last as))
   \<and> pl_len l = of_nat (length as)
   \<and> distinct (map page_addr_index as)
   \<and> (\<forall>a \<in> set as. page_map_get (tracker_pages t) a \<noteq> None \<and> page_addr_wf a)"

lemma page_list_rep_new: "page_list_rep t page_list_new []"
  by (simp add: page_list_rep_def page_list_new_def)

lemma chain_cong:
  "(\<And>a. a \<in> set as \<Longrightarrow> linked_page t' a = linked_page t a) \<Longrightarrow> chain t' as = chain t as"
  by (induction t as rule: chain.induct) simp_all

lemma chain_append:
  "as \<noteq> [] \<Longrightarrow> chain t (as @ [b]) =
     (linked_page t b = None \<and> linked_page t (last as) = Some b
      \<and> (\<forall>i < length as - 1. linked_page t (as ! i) = Some (as ! Suc i)))"
proof (induction t as rule: chain.induct)
  case (3 t a c as)
  have "(\<forall>i < Suc (length as). linked_page t ((a # c # as) ! i) = Some ((a # c # as) ! Suc i))
      = (linked_page t a = Some c \<and> (\<forall>i < length as. linked_page t ((c # as) ! i) = Some ((c # as) ! Suc i)))"
    by (auto simp: nth_Cons split: nat.splits)
  with 3 show ?case by auto
qed auto

lemma chain_nth:
  "as \<noteq> [] \<Longrightarrow> chain t as =
     (linked_page t (last as) = None
      \<and> (\<forall>i < length as - 1. linked_page t (as ! i) = Some (as ! Suc i)))"
proof (induction t as rule: chain.induct)
  case (3 t a c as)
  have "(\<forall>i < Suc (length as). linked_page t ((a # c # as) ! i) = Some ((a # c # as) ! Suc i))
      = (linked_page t a = Some c \<and> (\<forall>i < length as. linked_page t ((c # as) ! i) = Some ((c # as) ! Suc i)))"
    by (auto simp: nth_Cons split: nat.splits)
  with 3 show ?case by auto
qed auto

lemma linked_page_step:
  assumes "page_map_wf (tracker_pages t)" and "page_map_get (tracker_pages t) a = Some info"
  shows "linked_page (tracker_step t a f) b =
     (if page_addr_index b = page_addr_index a then info_next (snd (f info)) else linked_page t b)"
  using assms by (simp add: linked_page_def tracker_step_get)

lemma linked_page_info:
  "page_map_get (tracker_pages t) a = Some info \<Longrightarrow> linked_page t a = info_next info"
  by (simp add: linked_page_def)

lemma info_next_None:
  assumes "info_wf info"
  shows "(info_next info = None) = (info_link info = None)"
  using assms by (cases "info_link info")
    (auto simp: info_next_def info_wf_def page_addr_new_def page_addr_with_alignment_def
      page_size_is_aligned_iff raw_supervisor_def)

lemma info_next_link:
  assumes "info_link info = Some (page_addr_bits a)" and "page_addr_wf a"
  shows "info_next info = Some (a :: supervisor_page_addr)"
proof -
  have "PageAddr (raw_supervisor (page_addr_bits a)) = a"
    unfolding supervisor_addr_eq_iff addr_nat_def page_addr_bits_def raw_supervisor_def by simp
  then show ?thesis
    using assms by (simp add: info_next_def page_addr_new_def page_addr_with_alignment_def
        page_size_is_aligned_iff raw_supervisor_def page_addr_wf_iff addr_nat_def)
qed

lemma link_pages_Ok:
  assumes wf: "tracker_wf t" and a: "page_map_get (tracker_pages t) a = Some ia" "linked_page t a = None"
    and b: "page_map_get (tracker_pages t) b = Some ib" "linked_page t b = None"
    and b': "page_addr_wf b" "addr_nat b \<noteq> 0"
  obtains t' where "link_pages t a b = (Ok (), t')" and "tracker_wf t'"
    and "\<And>c. linked_page t' c = (if page_addr_index c = page_addr_index a then Some b else linked_page t c)"
    and "\<And>c. (page_map_get (tracker_pages t') c = None) = (page_map_get (tracker_pages t) c = None)"
proof -
  let ?t = "tracker_step t a (info_set_link b)"
  have pwf: "page_map_wf (tracker_pages t)"
    using wf by (simp add: tracker_wf_def)
  have "info_wf ia"
    using wf a(1) by (auto simp: tracker_wf_def)
  then have "info_link ia = None"
    using a by (simp add: linked_page_info info_next_None)
  moreover have "page_addr_bits b \<noteq> 0"
    using b'(2) by (auto simp: addr_nat_def)
  ultimately have set: "info_set_link b ia = (Ok (), ia\<lparr>info_link := Some (page_addr_bits b)\<rparr>)"
    by (simp add: info_set_link_def)
  then have "link_pages t a b = (Ok (), ?t)"
    using a b by (simp add: link_pages_def linked_page_info try_update_def tracker_update_def tracker_step_eq)
  moreover have "tracker_wf ?t"
    using op_set_link.step_wf [OF b'(1) wf] .
  moreover have "linked_page ?t c = (if page_addr_index c = page_addr_index a then Some b else linked_page t c)" for c
    using set by (simp add: linked_page_step [OF pwf a(1)] info_next_link [OF _ b'(1)])
  moreover have "(page_map_get (tracker_pages ?t) c = None) = (page_map_get (tracker_pages t) c = None)" for c
    using page_map_get_abs [OF pwf] by (simp add: tracker_step_get [OF pwf])
  ultimately show thesis
    by (rule that)
qed

lemma supervisor_space_eq: "addr_space (a :: supervisor_page_addr) = addr_space b"
  using supervisor_phys.exhaust by metis

section \<open>A queue\<close>

text \<open>The contract of a queue in a mutable store, and what its clients get from it.\<close>

fun enq_list :: "('a \<Rightarrow> 's \<Rightarrow> 's option) \<Rightarrow> 'a list \<Rightarrow> 's \<Rightarrow> 's option" where
  "enq_list enq [] s = Some s"
| "enq_list enq (x # xs) s = Option.bind (enq x s) (enq_list enq xs)"

fun deq_list :: "('s \<Rightarrow> ('a \<times> 's) option) \<Rightarrow> nat \<Rightarrow> 's \<Rightarrow> 'a list" where
  "deq_list deq 0 s = []"
| "deq_list deq (Suc n) s = (case deq s of None \<Rightarrow> [] | Some (x, s') \<Rightarrow> x # deq_list deq n s')"

locale fifo =
  fixes rep :: "'s \<Rightarrow> 'a list \<Rightarrow> bool" and can :: "'s \<Rightarrow> 'a list \<Rightarrow> 'a \<Rightarrow> bool"
    and enq :: "'a \<Rightarrow> 's \<Rightarrow> 's option" and deq :: "'s \<Rightarrow> ('a \<times> 's) option"
  assumes enq_rep: "rep s xs \<Longrightarrow> can s xs x \<Longrightarrow> \<exists>s'. enq x s = Some s' \<and> rep s' (xs @ [x])"
    and enq_can: "rep s xs \<Longrightarrow> can s xs x \<Longrightarrow> can s xs y \<Longrightarrow> x \<noteq> y \<Longrightarrow> enq x s = Some s' \<Longrightarrow> can s' (xs @ [x]) y"
    and deq_Cons: "rep s (x # xs) \<Longrightarrow> \<exists>s'. deq s = Some (x, s') \<and> rep s' xs"
    and deq_Nil: "rep s [] \<Longrightarrow> deq s = None"
begin

lemma enq_list_rep:
  assumes "rep s xs" and "distinct ys" and "\<And>y. y \<in> set ys \<Longrightarrow> can s xs y"
  shows "\<exists>s'. enq_list enq ys s = Some s' \<and> rep s' (xs @ ys)"
  using assms
proof (induction ys arbitrary: s xs)
  case (Cons y ys)
  then obtain s1 where s1: "enq y s = Some s1" "rep s1 (xs @ [y])"
    using enq_rep by (metis list.set_intros(1))
  moreover have "can s1 (xs @ [y]) z" if "z \<in> set ys" for z
    using enq_can [OF Cons.prems(1) _ _ _ s1(1), of z] Cons.prems that by auto
  ultimately show ?case
    using Cons.IH [of s1 "xs @ [y]"] Cons.prems(2) by auto
qed simp

lemma deq_list_rep: "rep s xs \<Longrightarrow> deq_list deq n s = take n xs"
proof (induction n arbitrary: s xs)
  case (Suc n)
  show ?case
  proof (cases xs)
    case Nil
    then show ?thesis using Suc.prems deq_Nil by simp
  next
    case (Cons y ys)
    then obtain s' where "deq s = Some (y, s')" "rep s' ys"
      using Suc.prems deq_Cons by blast
    then show ?thesis using Suc.IH Cons by simp
  qed
qed simp

lemma first_in_first_out:
  assumes "rep s xs" and "distinct ys" and "\<And>y. y \<in> set ys \<Longrightarrow> can s xs y"
  shows "\<exists>s'. enq_list enq ys s = Some s' \<and> (\<forall>n. deq_list deq n s' = take n (xs @ ys))"
  using enq_list_rep [OF assms] deq_list_rep by metis

end

text \<open>Pushing and popping a page list, by address, as such a queue.\<close>

definition pl_enq ::
    "page_typestate \<Rightarrow> supervisor_page_addr \<Rightarrow> page_tracker \<times> page_list \<Rightarrow> (page_tracker \<times> page_list) option" where
  "pl_enq st a = (\<lambda>(t, l).
     case page_list_push t l \<lparr>page_base = a, page_len = Size4k, page_typestate = st\<rparr> of
       (Ok _, s) \<Rightarrow> Some s
     | _ \<Rightarrow> None)"

definition pl_deq ::
    "page_typestate \<Rightarrow> page_tracker \<times> page_list \<Rightarrow> (supervisor_page_addr \<times> page_tracker \<times> page_list) option" where
  "pl_deq st = (\<lambda>(t, l).
     case (page_list_pop st t l :: (page_tracking_error, page) result option \<times> _) of
       (Some (Ok p), s) \<Rightarrow> Some (page_base p, s)
     | _ \<Rightarrow> None)"

definition pl_rep :: "page_tracker \<times> page_list \<Rightarrow> supervisor_page_addr list \<Rightarrow> bool" where
  "pl_rep = (\<lambda>(t, l) as. tracker_wf t \<and> page_list_rep t l as)"

text \<open>A page can join a list when it is tracked, not page 0, on no list, and not a page of this one.\<close>

definition pl_can :: "page_tracker \<times> page_list \<Rightarrow> supervisor_page_addr list \<Rightarrow> supervisor_page_addr \<Rightarrow> bool" where
  "pl_can = (\<lambda>(t, l) as a.
     page_map_get (tracker_pages t) a \<noteq> None \<and> linked_page t a = None
   \<and> page_addr_wf a \<and> addr_nat a \<noteq> 0 \<and> addr_nat a < 2 ^ 56
   \<and> page_addr_index a \<notin> page_addr_index ` set as)"

lemma page_addr_index_inj:
  assumes "page_addr_wf a" "addr_nat a < 2 ^ 56" "page_addr_wf b" "addr_nat b < 2 ^ 56"
    and "page_addr_index a = page_addr_index (b :: supervisor_page_addr)"
  shows "a = b"
proof -
  have idx: "page_addr_index c = addr_nat c div 4096" if "addr_nat c < 2 ^ 56" for c :: supervisor_page_addr
    unfolding page_addr_index_eq using that by (intro mod_less) (simp add: less_mult_imp_div_less)
  have "addr_nat a div 4096 = addr_nat b div 4096"
    using assms(5) unfolding idx [OF assms(2)] idx [OF assms(4)] .
  moreover have "4096 dvd addr_nat a" "4096 dvd addr_nat b"
    using assms(1,3) by (simp_all add: page_addr_wf_iff)
  ultimately have "addr_nat a = addr_nat b"
    by (metis dvd_div_mult_self)
  then show ?thesis
    by (simp add: supervisor_addr_eq_iff)
qed

lemma linked_page_index:
  "page_map_wf (tracker_pages t) \<Longrightarrow> page_addr_index a = page_addr_index b \<Longrightarrow> linked_page t a = linked_page t b"
  by (simp add: linked_page_def page_map_get_abs)

lemma pl_push_rep:
  assumes rep: "tracker_wf t" "page_list_rep t l as" and can: "pl_can (t, l) as (page_base p)"
  obtains t' l' where "page_list_push t l p = (Ok (), t', l')" and "tracker_wf t'"
    and "page_list_rep t' l' (as @ [page_base p])"
    and "\<And>c. (page_map_get (tracker_pages t') c = None) = (page_map_get (tracker_pages t) c = None)"
    and "\<And>c. linked_page t' c = (if as \<noteq> [] \<and> page_addr_index c = page_addr_index (last as)
                                 then Some (page_base p) else linked_page t c)"
proof (cases "as = []")
  case True
  then have "page_list_push t l p = (Ok (), t, l\<lparr>pl_head := Some (page_base p), pl_tail := Some (page_base p),
      pl_len := pl_len l + 1\<rparr>)"
    using rep(2) by (simp add: page_list_push_def page_list_rep_def)
  then show thesis
    using True rep can by (intro that) (auto simp add: page_list_rep_def pl_can_def)
next
  case False
  let ?b = "page_base p" and ?a = "last as"
  have pwf: "page_map_wf (tracker_pages t)"
    using rep(1) by (simp add: tracker_wf_def)
  obtain ia where a: "page_map_get (tracker_pages t) ?a = Some ia" "linked_page t ?a = None"
    using rep(2) last_in_set [OF False] chain_nth [OF False]
    unfolding page_list_rep_def by blast
  obtain ib where b: "page_map_get (tracker_pages t) ?b = Some ib" "linked_page t ?b = None"
      "page_addr_wf ?b" "addr_nat ?b \<noteq> 0"
    using can unfolding pl_can_def prod.case by blast
  obtain t' where link: "link_pages t ?a ?b = (Ok (), t')" and wf': "tracker_wf t'"
    and next': "\<And>c. linked_page t' c = (if page_addr_index c = page_addr_index ?a then Some ?b else linked_page t c)"
    and dom': "\<And>c. (page_map_get (tracker_pages t') c = None) = (page_map_get (tracker_pages t) c = None)"
    using link_pages_Ok [OF rep(1) a b] by metis
  let ?l = "l\<lparr>pl_tail := Some ?b, pl_len := pl_len l + 1\<rparr>"
  have push: "page_list_push t l p = (Ok (), t', ?l)"
    using rep(2) False link by (simp add: page_list_push_def page_list_rep_def)
  have dist: "distinct (map page_addr_index as)"
    using rep(2) by (simp add: page_list_rep_def)
  have nidx: "page_addr_index (as ! i) \<noteq> page_addr_index ?a" if "i < length as - 1" for i
    using dist that nth_eq_iff_index_eq [of "map page_addr_index as" i "length as - 1"] False
    by (simp add: last_conv_nth)
  have nb: "page_addr_index ?b \<noteq> page_addr_index ?a"
    using can False by (auto simp: pl_can_def)
  have "chain t' (as @ [?b])"
    unfolding chain_append [OF False]
    using rep(2) nidx nb b(2) by (auto simp: next' page_list_rep_def chain_nth [OF False])
  then have "page_list_rep t' ?l (as @ [?b])"
    using rep(2) can False dom' by (auto simp: page_list_rep_def pl_can_def)
  from that [OF push wf' this dom'] show thesis
    using next' False by simp
qed

lemma unlink_page_get:
  assumes wf: "tracker_wf t" and a: "page_map_get (tracker_pages t) a = Some ia"
  shows "unlink_page t a = (linked_page t a, snd (unlink_page t a))"
    and "tracker_wf (snd (unlink_page t a))"
    and "page_map_get (tracker_pages (snd (unlink_page t a))) c =
           (if page_addr_index c = page_addr_index a then Some (info_unlink ia)
            else page_map_get (tracker_pages t) c)"
proof -
  have pwf: "page_map_wf (tracker_pages t)"
    using wf by (simp add: tracker_wf_def)
  show "unlink_page t a = (linked_page t a, snd (unlink_page t a))"
    using a by (simp add: unlink_page_def linked_page_def)
  show "page_map_get (tracker_pages (snd (unlink_page t a))) c =
      (if page_addr_index c = page_addr_index a then Some (info_unlink ia) else page_map_get (tracker_pages t) c)"
    using a pm.get_set_same [OF pwf] page_map_get_set [OF pwf] by (simp add: unlink_page_def)
  show "tracker_wf (snd (unlink_page t a))"
    using op_unlink.step_wf [OF TrueI wf, of a] a by (simp add: unlink_page_def tracker_step_eq)
qed

lemma info_unlink_simps [simp]:
  "info_link (info_unlink i) = None" "info_next (info_unlink i) = None"
  by (simp_all add: info_unlink_def info_next_def)

lemma chain_tl: "chain t (a # as) \<Longrightarrow> chain t as \<and> linked_page t a = (if as = [] then None else Some (hd as))"
  by (cases as) simp_all

lemma pl_pop_rep:
  assumes wf: "tracker_wf t" and rep: "page_list_rep t l (a # as)"
  obtains t' l' where
    "page_list_pop st t l = (Some (Ok \<lparr>page_base = a, page_len = Size4k, page_typestate = st\<rparr> :: ('e, page) result), t', l')"
    and "tracker_wf t'" and "page_list_rep t' l' as"
    and "\<And>c. page_map_get (tracker_pages t') c =
          (if page_addr_index c = page_addr_index a then map_option info_unlink (page_map_get (tracker_pages t) a)
           else page_map_get (tracker_pages t) c)"
proof -
  let ?t = "snd (unlink_page t a)"
  let ?l = "l\<lparr>pl_head := linked_page t a, pl_tail := (if linked_page t a = None then None else pl_tail l),
              pl_len := pl_len l - 1\<rparr>"
  obtain ia where a: "page_map_get (tracker_pages t) a = Some ia" "page_addr_wf a"
    using rep by (auto simp: page_list_rep_def)
  note get = unlink_page_get [OF wf a(1)]
  have tl: "chain t as" "linked_page t a = (if as = [] then None else Some (hd as))"
    using rep chain_tl [of t a as] by (simp_all add: page_list_rep_def)
  have other: "page_addr_index c \<noteq> page_addr_index a" if "c \<in> set as" for c
    using rep that by (auto simp: page_list_rep_def image_iff)
  have pop: "page_list_pop st t l = (Some (Ok \<lparr>page_base = a, page_len = Size4k, page_typestate = st\<rparr> :: ('e, page) result), ?t, ?l)"
  proof -
    have "pl_head l = Some a" "page_new st a = (Ok \<lparr>page_base = a, page_len = Size4k, page_typestate = st\<rparr> :: ('e, _) result)"
      using rep a(2) page_addr_is_aligned_iff [of a Size4k]
      by (simp_all add: page_list_rep_def page_new_def page_new_with_size_def page_addr_wf_def)
    then show ?thesis
      using arg_cong [OF get(1), of fst] by (simp add: page_list_pop_def case_prod_beta)
  qed
  have "chain ?t as"
    using tl(1) other chain_cong [of as ?t t] by (simp add: linked_page_def get(3))
  then have "page_list_rep ?t ?l as"
    using rep other tl(2) by (auto simp: page_list_rep_def get(3))
  from that [OF pop get(2) this] show thesis
    unfolding a(1) option.map using get(3) by blast
qed

lemma pl_can_push:
  assumes "tracker_wf t" "page_list_rep t l as" and "pl_can (t, l) as a" and "pl_can (t, l) as b" and "a \<noteq> b"
    and "pl_enq st a (t, l) = Some s'"
  shows "pl_can s' (as @ [a]) b"
proof -
  let ?p = "\<lparr>page_base = a, page_len = Size4k, page_typestate = st\<rparr>"
  obtain t' l' where push: "page_list_push t l ?p = (Ok (), t', l')"
    and dom: "\<And>c. (page_map_get (tracker_pages t') c = None) = (page_map_get (tracker_pages t) c = None)"
    and next': "\<And>c. linked_page t' c = (if as \<noteq> [] \<and> page_addr_index c = page_addr_index (last as)
                                 then Some a else linked_page t c)"
    using pl_push_rep [OF assms(1,2), of ?p] assms(3) unfolding page.select_convs by metis
  have s': "s' = (t', l')"
    using assms(6) push by (simp add: pl_enq_def)
  have "page_addr_index b \<noteq> page_addr_index a"
    using assms(3,4,5) page_addr_index_inj [of a b] by (auto simp: pl_can_def)
  moreover have "as \<noteq> [] \<Longrightarrow> page_addr_index b \<noteq> page_addr_index (last as)"
    using assms(4) by (auto simp: pl_can_def)
  ultimately show ?thesis
    using assms(4) dom by (auto simp: pl_can_def s' next')
qed

interpretation plq: fifo pl_rep pl_can "pl_enq st" "pl_deq st" for st
proof (unfold_locales, goal_cases)
  case (1 s as a)
  then obtain t l where s: "s = (t, l)" "tracker_wf t" "page_list_rep t l as"
    by (cases s) (simp add: pl_rep_def)
  with 1(2) show ?case
    using pl_push_rep [of t l as "\<lparr>page_base = a, page_len = Size4k, page_typestate = st\<rparr>"]
    by (fastforce simp: pl_enq_def pl_rep_def)
next
  case (2 s as a b s')
  then show ?case
    by (cases s) (auto simp: pl_rep_def intro: pl_can_push)
next
  case (3 s a as)
  then obtain t l where s: "s = (t, l)" "tracker_wf t" "page_list_rep t l (a # as)"
    by (cases s) (simp add: pl_rep_def)
  obtain t' l' where pop: "page_list_pop st t l =
      (Some (Ok \<lparr>page_base = a, page_len = Size4k, page_typestate = st\<rparr> :: (page_tracking_error, page) result), t', l')"
    and "tracker_wf t'" "page_list_rep t' l' as"
    using pl_pop_rep [OF s(2,3)] by metis
  then show ?case
    unfolding pl_rep_def by (intro exI [of _ "(t', l')"]) (simp add: s(1) pl_deq_def)
next
  case (4 s)
  then show ?case
    by (cases s) (simp add: pl_rep_def pl_deq_def page_list_pop_def page_list_rep_def)
qed

section \<open>Dropping and rebuilding a list\<close>

lemma page_list_drop_rep:
  assumes "tracker_wf t" and "page_list_rep t l as"
  shows "\<exists>t'. page_list_drop st t l = (Ok t' :: ('e, _) result) \<and> tracker_wf t'
     \<and> (\<forall>c. page_map_get (tracker_pages t') c =
          (if page_addr_index c \<in> page_addr_index ` set as then map_option info_unlink (page_map_get (tracker_pages t) c)
           else page_map_get (tracker_pages t) c))"
  using assms
proof (induction as arbitrary: t l)
  case Nil
  then show ?case
    by (subst page_list_drop.simps) (simp add: page_list_pop_def page_list_rep_def)
next
  case (Cons a as)
  have pwf: "page_map_wf (tracker_pages t)"
    using Cons.prems(1) by (simp add: tracker_wf_def)
  obtain t1 l1 where pop: "page_list_pop st t l =
      (Some (Ok \<lparr>page_base = a, page_len = Size4k, page_typestate = st\<rparr> :: ('e, page) result), t1, l1)"
    and t1: "tracker_wf t1" "page_list_rep t1 l1 as"
    and get1: "\<And>c. page_map_get (tracker_pages t1) c =
          (if page_addr_index c = page_addr_index a then map_option info_unlink (page_map_get (tracker_pages t) a)
           else page_map_get (tracker_pages t) c)"
    using pl_pop_rep [OF Cons.prems] by metis
  obtain t' where drop: "page_list_drop st t1 l1 = (Ok t' :: ('e, _) result)" "tracker_wf t'"
    and get': "\<And>c. page_map_get (tracker_pages t') c =
          (if page_addr_index c \<in> page_addr_index ` set as then map_option info_unlink (page_map_get (tracker_pages t1) c)
           else page_map_get (tracker_pages t1) c)"
    using Cons.IH [OF t1] by blast
  have "page_addr_index a \<notin> page_addr_index ` set as"
    using Cons.prems(2) by (simp add: page_list_rep_def)
  then have "page_map_get (tracker_pages t') c =
      (if page_addr_index c \<in> page_addr_index ` set (a # as) then map_option info_unlink (page_map_get (tracker_pages t) c)
       else page_map_get (tracker_pages t) c)" for c
    unfolding get' get1 by (simp add: page_map_get_abs [OF pwf])
  moreover have "page_list_drop st t l = (Ok t' :: ('e, _) result)"
    by (subst page_list_drop.simps) (simp add: pop drop)
  ultimately show ?case
    using drop(2) by blast
qed

definition info_dropped :: "page_info \<Rightarrow> page_info" where
  "info_dropped i = (info_unlink i)\<lparr>info_state := Converted\<rparr>"

lemma unlock_page_get:
  assumes wf: "tracker_wf t" and a: "page_map_get (tracker_pages t) (page_base p) = Some ia"
    "info_state ia = ConvertedLocked"
  obtains t' where "unlock_page t p = (Ok (), t')" and "tracker_wf t'"
    and "\<And>c. page_map_get (tracker_pages t') c =
          (if page_addr_index c = page_addr_index (page_base p) then Some (ia\<lparr>info_state := Converted\<rparr>)
           else page_map_get (tracker_pages t) c)"
proof -
  let ?t = "tracker_step t (page_base p) info_unlock"
  have pwf: "page_map_wf (tracker_pages t)"
    using wf by (simp add: tracker_wf_def)
  have unlock: "info_unlock ia = (Ok (), ia\<lparr>info_state := Converted\<rparr>)"
    using a(2) by (simp add: info_unlock_def)
  then have "unlock_page t p = (Ok (), ?t)"
    using a by (simp add: unlock_page_def try_update_def tracker_update_def tracker_step_eq)
  then show thesis
    using that op_unlock.step_wf [OF TrueI wf] tracker_step_get [OF pwf] a unlock by simp
qed

lemma page_list_rep_cong:
  assumes "\<And>a. a \<in> set as \<Longrightarrow> linked_page t' a = linked_page t a"
    and "\<And>a. a \<in> set as \<Longrightarrow> (page_map_get (tracker_pages t') a = None) = (page_map_get (tracker_pages t) a = None)"
  shows "page_list_rep t' l as = page_list_rep t l as"
  using assms chain_cong [of as t' t] by (simp add: page_list_rep_def)

lemma locked_page_list_drop_rep:
  assumes "tracker_wf t" and "page_list_rep t l as" and "\<forall>a \<in> set as. page_locked t a"
  shows "\<exists>t'. locked_page_list_drop st t l = Ok t' \<and> tracker_wf t'
     \<and> (\<forall>c. page_map_get (tracker_pages t') c =
          (if page_addr_index c \<in> page_addr_index ` set as then map_option info_dropped (page_map_get (tracker_pages t) c)
           else page_map_get (tracker_pages t) c))"
  using assms
proof (induction as arbitrary: t l)
  case Nil
  then show ?case
    by (subst locked_page_list_drop.simps) (simp add: page_list_pop_def page_list_rep_def)
next
  case (Cons a as)
  let ?p = "\<lparr>page_base = a, page_len = Size4k, page_typestate = st\<rparr>"
  have pwf: "page_map_wf (tracker_pages t)"
    using Cons.prems(1) by (simp add: tracker_wf_def)
  have fresh: "page_addr_index a \<notin> page_addr_index ` set as"
    using Cons.prems(2) by (simp add: page_list_rep_def)
  obtain ia where ia: "page_map_get (tracker_pages t) a = Some ia" "info_state ia = ConvertedLocked"
    using Cons.prems(3) by (auto simp: page_locked_def tracker_check_def split: option.splits)
  obtain t1 l1 where pop: "page_list_pop st t l = (Some (Ok ?p :: (page_tracking_error, page) result), t1, l1)"
    and t1: "tracker_wf t1" "page_list_rep t1 l1 as"
    and get1: "\<And>c. page_map_get (tracker_pages t1) c =
          (if page_addr_index c = page_addr_index a then map_option info_unlink (page_map_get (tracker_pages t) a)
           else page_map_get (tracker_pages t) c)"
    using pl_pop_rep [OF Cons.prems(1,2)] by metis
  obtain t2 where unlock: "unlock_page t1 ?p = (Ok (), t2)" and t2: "tracker_wf t2"
    and get2: "\<And>c. page_map_get (tracker_pages t2) c =
          (if page_addr_index c = page_addr_index a then Some (info_dropped ia) else page_map_get (tracker_pages t) c)"
    using unlock_page_get [OF t1(1), of ?p "info_unlink ia"] ia
    by (auto simp: get1 info_dropped_def info_unlink_def cong: if_cong)
  have other: "page_addr_index c \<noteq> page_addr_index a" if "c \<in> set as" for c
    using fresh that by (metis imageI)
  then have keep: "page_map_get (tracker_pages t2) c = page_map_get (tracker_pages t1) c"
    "page_map_get (tracker_pages t2) c = page_map_get (tracker_pages t) c" if "c \<in> set as" for c
    using that by (simp_all add: get1 get2)
  have "page_list_rep t2 l1 as"
    using t1(2) page_list_rep_cong [of as t2 t1 l1] keep(1) by (simp add: linked_page_def)
  moreover have "\<forall>c \<in> set as. page_locked t2 c"
    using Cons.prems(3) keep(2) by (simp add: page_locked_def tracker_check_def)
  ultimately obtain t' where drop: "locked_page_list_drop st t2 l1 = Ok t'" "tracker_wf t'"
    and get': "\<And>c. page_map_get (tracker_pages t') c =
          (if page_addr_index c \<in> page_addr_index ` set as then map_option info_dropped (page_map_get (tracker_pages t2) c)
           else page_map_get (tracker_pages t2) c)"
    using Cons.IH [OF t2] by blast
  have "page_map_get (tracker_pages t') c =
      (if page_addr_index c \<in> page_addr_index ` set (a # as) then map_option info_dropped (page_map_get (tracker_pages t) c)
       else page_map_get (tracker_pages t) c)" for c
    unfolding get' get2 using fresh ia(1) by (simp add: page_map_get_abs [OF pwf])
  moreover have "locked_page_list_drop st t l = Ok t'"
    by (subst locked_page_list_drop.simps) (simp add: pop unlock drop)
  ultimately show ?case
    using drop(2) by blast
qed

lemma follow_links_chain:
  "chain t (a # as) \<Longrightarrow> follow_links t a n = Some (last (a # as), n + of_nat (length as))"
proof (induction as arbitrary: a n)
  case Nil
  then show ?case by (subst follow_links.simps) simp
next
  case (Cons b as)
  then show ?case
    by (subst follow_links.simps) (simp add: algebra_simps)
qed

lemma contiguous_from_chain:
  assumes "chain t (a # as)" and "\<forall>b \<in> set (a # as). page_addr_wf b"
  shows "contiguous_from t a =
     (\<forall>i < length as. addr_nat ((a # as) ! Suc i) = addr_nat ((a # as) ! i) + 4096)"
  using assms
proof (induction as arbitrary: a)
  case Nil
  then show ?case by (subst contiguous_from.simps) simp
next
  case (Cons b as)
  have step: "(checked_add_pages a 1 = Some b) = (addr_nat b = addr_nat a + 4096)"
    using checked_add_pages_with_size_Some [of a 1 Size4k b] Cons.prems(2)
    by (auto simp: checked_add_pages_def page_addr_wf_def supervisor_space_eq)
  have "contiguous_from t a = (addr_nat b = addr_nat a + 4096 \<and> contiguous_from t b)"
    using Cons.prems(1) step
    by (subst contiguous_from.simps) (auto split: option.splits)
  moreover have "(\<forall>i < Suc (length as). addr_nat ((a # b # as) ! Suc i) = addr_nat ((a # b # as) ! i) + 4096)
    = (addr_nat b = addr_nat a + 4096 \<and> (\<forall>i < length as. addr_nat ((b # as) ! Suc i) = addr_nat ((b # as) ! i) + 4096))"
    by (auto simp: nth_Cons split: nat.splits)
  ultimately show ?case
    using Cons.IH [of b] Cons.prems by simp
qed

section \<open>Properties\<close>

text \<open>
  C28: a page list is a first-in first-out queue. Pages that are tracked, on no list and
  different from each other and from the list's own can all be pushed, and popping
  then yields the list's pages and the pushed ones in the order they came.
\<close>

theorem page_list_fifo:
  assumes "tracker_wf t" and "page_list_rep t l as" and "distinct bs"
    and "\<forall>b \<in> set bs. pl_can (t, l) as b"
  shows "\<exists>s. enq_list (pl_enq st) bs (t, l) = Some s \<and> (\<forall>n. deq_list (pl_deq st) n s = take n (as @ bs))"
  using plq.first_in_first_out [of "(t, l)" as bs st] assms by (simp add: pl_rep_def)

definition example_frame :: supervisor_page_addr where
  "example_frame = PageAddr (raw_supervisor 0x80000000)"

definition example_frame2 :: supervisor_page_addr where
  "example_frame2 = PageAddr (raw_supervisor 0x90000000)"

lemma example_frame_simps [simp]:
  "page_addr_index example_frame = 0x80000" "page_addr_index example_frame2 = 0x90000"
  "addr_nat example_frame = 0x80000000" "addr_nat example_frame2 = 0x90000000"
  by (simp_all add: page_addr_index_eq raw_supervisor_def example_frame_def example_frame2_def)

lemma example_frame_wf [simp]: "page_addr_wf example_frame" "page_addr_wf example_frame2"
  by (simp_all add: page_addr_wf_iff)

lemma example_frame_neq [simp]: "example_frame \<noteq> example_frame2" "example_frame2 \<noteq> example_frame"
  by (simp_all add: supervisor_addr_eq_iff)

lemma example_frame_get:
  "page_map_get (tracker_pages example_tracker) example_frame = Some info_new"
  "page_map_get (tracker_pages example_tracker) example_frame2 = Some info_new_hypervisor_owned"
  by (simp_all add: page_map_get_def get_map_index_def example_tracker_def example_page_map_def
      entry_covers_def pv_get_def)

theorem page_list_fifo_witness:
  "\<exists>s. enq_list (pl_enq StConvertedClean) [example_frame2, example_frame] (example_tracker, page_list_new) = Some s
     \<and> deq_list (pl_deq StConvertedClean) 5 s = [example_frame2, example_frame]"
proof -
  have "\<forall>b \<in> set [example_frame2, example_frame]. pl_can (example_tracker, page_list_new) [] b"
    by (simp add: pl_can_def linked_page_def example_frame_get info_new_def info_new_hypervisor_owned_def
        info_next_def)
  moreover have "distinct [example_frame2, example_frame]"
    by simp
  ultimately obtain s where
    "enq_list (pl_enq StConvertedClean) [example_frame2, example_frame] (example_tracker, page_list_new) = Some s"
    "\<And>n. deq_list (pl_deq StConvertedClean) n s = take n ([] @ [example_frame2, example_frame])"
    using page_list_fifo [OF example_tracker_wf page_list_rep_new] by blast
  then show ?thesis by simp
qed

text \<open>
  C29: dropping a list of locked pages ends, does not panic, and hands every page back:
  each page of the list is unlinked and unlocked, every other page is as it was, and
  the tracker stays in order.
\<close>

theorem locked_page_list_drop_releases:
  assumes "tracker_wf t" and "page_list_rep t l as" and "\<forall>a \<in> set as. page_locked t a"
  shows "\<exists>t'. locked_page_list_drop st t l = Ok t' \<and> tracker_wf t'
     \<and> (\<forall>c. page_map_get (tracker_pages t') c =
          (if page_addr_index c \<in> page_addr_index ` set as then map_option info_dropped (page_map_get (tracker_pages t) c)
           else page_map_get (tracker_pages t) c))"
  by (rule locked_page_list_drop_rep [OF assms])

definition example_locked_tracker :: page_tracker where
  "example_locked_tracker = example_tracker
     \<lparr>tracker_pages := example_page_map
       \<lparr>pm_pages := \<lparr>pv_items = [info_new\<lparr>info_state := ConvertedLocked, info_owners := [owner_host],
                                       info_link := Some 0x90000000\<rparr>,
                                  info_new_reserved,
                                  info_new\<lparr>info_state := ConvertedLocked, info_owners := [owner_host]\<rparr>],
                     pv_capacity = 85, pv_base = PageAddr (raw_supervisor 0x80000000),
                     pv_page_size = Size4k\<rparr>\<rparr>\<rparr>"

definition example_locked_list :: page_list where
  "example_locked_list = \<lparr>pl_head = Some example_frame, pl_tail = Some example_frame2, pl_len = 2\<rparr>"

lemma example_locked_tracker_wf: "tracker_wf example_locked_tracker"
proof -
  have pwf: "page_map_wf (tracker_pages example_locked_tracker)"
    by (simp add: page_map_wf_def example_locked_tracker_def example_page_map_def entry_pfns_def upt_rec)
  have "info_wf info" if "page_map_get (tracker_pages example_locked_tracker) a = Some info" for a info
  proof -
    have "info \<in> set (pv_items (pm_pages (tracker_pages example_locked_tracker)))"
      using that unfolding page_map_get_abs [OF pwf] page_map_abs_def
      by (auto dest!: map_of_SomeD set_zip_rightD)
    then show ?thesis
      by (auto simp: example_locked_tracker_def info_wf_def info_new_def info_new_reserved_def MAX_PAGE_OWNERS_def)
  qed
  then show ?thesis
    using pwf by (simp add: tracker_wf_def example_locked_tracker_def example_tracker_def owner_host_def
        owner_hypervisor_def HOST_def HYPERVISOR_def)
qed

lemma example_locked_get:
  "page_map_get (tracker_pages example_locked_tracker) example_frame
     = Some (info_new\<lparr>info_state := ConvertedLocked, info_owners := [owner_host], info_link := Some 0x90000000\<rparr>)"
  "page_map_get (tracker_pages example_locked_tracker) example_frame2
     = Some (info_new\<lparr>info_state := ConvertedLocked, info_owners := [owner_host]\<rparr>)"
  by (simp_all add: page_map_get_def get_map_index_def example_locked_tracker_def example_page_map_def
      entry_covers_def pv_get_def)

lemma example_locked_rep: "page_list_rep example_locked_tracker example_locked_list [example_frame, example_frame2]"
proof -
  have "info_next (info_new\<lparr>info_state := ConvertedLocked, info_owners := [owner_host], info_link := Some 0x90000000\<rparr>)
      = Some example_frame2"
    by (rule info_next_link) (simp_all add: example_frame2_def raw_supervisor_def page_addr_bits_def page_addr_wf_iff addr_nat_def)
  then show ?thesis
    by (simp add: page_list_rep_def example_locked_list_def linked_page_def example_locked_get)
       (simp add: info_next_def info_new_def)
qed

theorem locked_page_list_drop_releases_witness:
  "\<exists>t'. locked_page_list_drop StConvertedClean example_locked_tracker example_locked_list = Ok t'
      \<and> \<not> page_locked t' example_frame \<and> linked_page t' example_frame = None"
proof -
  have "\<forall>a \<in> set [example_frame, example_frame2]. page_locked example_locked_tracker a"
    by (simp add: page_locked_def tracker_check_def example_locked_get)
  from locked_page_list_drop_releases [OF example_locked_tracker_wf example_locked_rep this, of StConvertedClean]
  show ?thesis
    by (auto simp: page_locked_def tracker_check_def example_locked_get info_dropped_def info_unlink_def
        linked_page_def info_next_def)
qed

text \<open>
  A list is determined by its first page. On a list that the tracker holds,
  \<open>from_raw_parts\<close> returns and gives back the list, \<open>peek\<close> is its first page, and
  \<open>is_contiguous\<close> says whether each page follows the one before it in memory.
\<close>

theorem page_list_from_head:
  assumes "page_list_rep t l (a # as)"
  shows "page_list_from_raw_parts t a = Some l \<and> page_list_peek l = Some a
    \<and> page_list_is_contiguous t l =
       (\<forall>i < length as. addr_nat ((a # as) ! Suc i) = addr_nat ((a # as) ! i) + 4096)"
proof -
  have l: "chain t (a # as)" "pl_head l = Some a" "pl_tail l = Some (last (a # as))"
    "pl_len l = 1 + of_nat (length as)" "\<forall>b \<in> set (a # as). page_addr_wf b"
    using assms by (simp_all add: page_list_rep_def)
  have "page_list_from_raw_parts t a = Some l"
    using l(2,3,4) by (simp only: page_list_from_raw_parts_def follow_links_chain [OF l(1)]) (cases l, simp)
  then show ?thesis
    using l(2) contiguous_from_chain [OF l(1,5)] by (simp add: page_list_peek_def page_list_is_contiguous_def)
qed

theorem page_list_from_head_witness:
  "page_list_from_raw_parts example_locked_tracker example_frame = Some example_locked_list
   \<and> \<not> page_list_is_contiguous example_locked_tracker example_locked_list"
  using page_list_from_head [OF example_locked_rep] by simp

text \<open>
  Pushing onto an empty list does not look at the page's link, so a page that is already
  on another list becomes the only page of this one with its old link still in place;
  popping it then leaves the list at the other list's next page.
\<close>

lemma page_list_push_linked_page:
  "fst (page_list_push example_locked_tracker page_list_new
          \<lparr>page_base = example_frame, page_len = Size4k, page_typestate = StConvertedClean\<rparr>) = Ok ()
   \<and> linked_page example_locked_tracker example_frame = Some example_frame2"
  using example_locked_rep by (simp add: page_list_push_def page_list_new_def page_list_rep_def)

end
