(* ===== verification/Hyp_Page_Alloc.thy ===== *)
theory Hyp_Page_Alloc
  imports Page_List
begin

text \<open>
  The boot-time page allocator (\<open>HypPageAlloc\<close> in \<open>page-tracking/src/page_tracker.rs\<close>)
  and the construction of the page tracker from it (\<open>PageTracker::from\<close>). The
  allocator walks the page map upwards: it hands out runs of free pages and, when the
  hypervisor has what it needs, drains every remaining free page into the list that
  becomes the memory of the host.
\<close>

section \<open>Searching the page map\<close>

lemma page_map_iter_next_less:
  assumes "page_map_iter_next pm it = Ok (Some (x, it'))"
  shows "length (pv_items (pm_pages pm)) - cur_index it' < length (pv_items (pm_pages pm)) - cur_index it"
  using assms
  by (auto simp: page_map_iter_next_def pv_get_def Let_def result_simps split: if_splits)

text \<open>\<open>iter.find(f).map(|p| p.addr)\<close>; the predicate can panic.\<close>

function page_map_find ::
    "(page_info \<times> supervisor_page_addr \<Rightarrow> ('e, bool) result) \<Rightarrow> page_map \<Rightarrow> page_map_iter
      \<Rightarrow> ('e, supervisor_page_addr option) result" where
  "page_map_find f pm it =
     (case page_map_iter_next pm it of
        Ok None \<Rightarrow> Ok None
      | Ok (Some (x, it')) \<Rightarrow>
          (case f x of
             Ok b \<Rightarrow> if b then Ok (Some (snd x)) else page_map_find f pm it'
           | Err e \<Rightarrow> Err e
           | Panic \<Rightarrow> Panic)
      | Err e \<Rightarrow> Err e
      | Panic \<Rightarrow> Panic)"
  by pat_completeness auto
termination
  by (relation "measure (\<lambda>(f, pm, it). length (pv_items (pm_pages pm)) - cur_index it)")
     (auto intro: page_map_iter_next_less sym)

declare page_map_find.simps [simp del]

definition page_map_search ::
    "(page_info \<times> supervisor_page_addr \<Rightarrow> ('e, bool) result) \<Rightarrow> page_map \<Rightarrow> supervisor_page_addr
      \<Rightarrow> ('e, supervisor_page_addr option) result" where
  "page_map_search f pm a =
     (case page_map_iter_new pm a of None \<Rightarrow> Ok None | Some it \<Rightarrow> page_map_find f pm it)"

definition next_free_page ::
    "page_map \<Rightarrow> supervisor_page_addr \<Rightarrow> ('e, supervisor_page_addr option) result" where
  "next_free_page pm a = page_map_search (\<lambda>(info, _). Ok (info_is_free info)) pm a"

section \<open>The allocator\<close>

record hyp_page_alloc =
  hpa_next_page :: "supervisor_page_addr option"
  hpa_pages :: page_map

definition hyp_page_alloc_new ::
    "hw_mem_region array_vec \<Rightarrow> sparse_vec \<Rightarrow> nat \<Rightarrow> mem \<Rightarrow> hw_mem_map
      \<Rightarrow> ('e, hyp_page_alloc \<times> hw_mem_map \<times> mem) result" where
  "hyp_page_alloc_new rav sav info_size mem m =
     (case regions m of
        [] \<Rightarrow> Panic
      | r # _ \<Rightarrow>
          result_bind (page_map_build_from rav sav info_size mem m) (\<lambda>(pm, m', mem').
            result_bind (next_free_page pm (region_base r)) (\<lambda>n.
              Ok (\<lparr>hpa_next_page = n, hpa_pages = pm\<rparr>, m', mem'))))"

definition pages_remaining :: "hyp_page_alloc \<Rightarrow> ('e, u64) result" where
  "pages_remaining h =
     (case hpa_next_page h of
        None \<Rightarrow> Ok 0
      | Some a \<Rightarrow> result_bind (unwrap_option (page_map_num_after (hpa_pages h) a)) (\<lambda>n. Ok (of_nat n)))"

definition page_is_free :: "page_map \<Rightarrow> supervisor_page_addr \<Rightarrow> bool" where
  "page_is_free pm a = (case page_map_get pm a of None \<Rightarrow> False | Some p \<Rightarrow> info_is_free p)"

definition range_is_free_and_aligned ::
    "page_map \<Rightarrow> u64 \<Rightarrow> u64 \<Rightarrow> supervisor_page_addr \<Rightarrow> ('e, bool) result" where
  "range_is_free_and_aligned pm count align start =
     result_bind (unwrap_option (checked_add_pages start count)) (\<lambda>stop.
       if page_addr_bits start AND (align - 1) \<noteq> 0 then Ok False
       else result_bind (page_addr_iter_from start) (\<lambda>it.
              Ok (list_all (page_is_free pm) (iter_take_until it stop))))"

text \<open>The loop that takes the free pages of a stretch of addresses; others are skipped.\<close>

fun assign_free_pages ::
    "owner_vec \<Rightarrow> page_state \<Rightarrow> supervisor_page_addr list \<Rightarrow> page_map \<Rightarrow> ('e, page_map) result" where
  "assign_free_pages av st [] pm = Ok pm"
| "assign_free_pages av st (a # as) pm =
     (case page_map_get pm a of
        None \<Rightarrow> assign_free_pages av st as pm
      | Some info \<Rightarrow>
          if info_is_free info
          then (case info_assign av owner_hypervisor st info of
                  (Ok _, info') \<Rightarrow> assign_free_pages av st as (page_map_set pm a info')
                | _ \<Rightarrow> Panic)
          else assign_free_pages av st as pm)"

definition alloc_pages ::
    "owner_vec \<Rightarrow> hyp_page_alloc \<Rightarrow> u64 \<Rightarrow> u64 \<Rightarrow> page_state
      \<Rightarrow> ('e, supervisor_phys page_addr_range \<times> hyp_page_alloc) result" where
  "alloc_pages av h count align st =
     result_bind (unwrap_option (hpa_next_page h)) (\<lambda>start_page.
     result_bind
       (page_map_search (\<lambda>(_, a). range_is_free_and_aligned (hpa_pages h) count align a)
          (hpa_pages h) start_page) (\<lambda>found.
     result_bind (unwrap_option found) (\<lambda>first_page.
     result_bind (unwrap_option (checked_add_pages first_page count)) (\<lambda>last_page.
     result_bind (page_addr_iter_from start_page) (\<lambda>it.
     result_bind (assign_free_pages av st (iter_take_until it last_page) (hpa_pages h)) (\<lambda>pm.
     result_bind (next_free_page pm last_page) (\<lambda>n.
       Ok (page_addr_range_new first_page count, \<lparr>hpa_next_page = n, hpa_pages = pm\<rparr>))))))))"

text \<open>Turning an allocated range into a run of pages and cleaning it.\<close>

definition clean_range ::
    "page_typestate \<Rightarrow> mem \<Rightarrow> supervisor_phys page_addr_range \<Rightarrow> ('e, seq_pages \<times> mem) result" where
  "clean_range st mem r =
     result_bind (unwrap (seq_from_mem_range st (range_base r) (range_page_size r) (range_num_pages r))) (\<lambda>sq.
     result_bind (seq_clean mem sq) unwrap_option)"

definition take_pages ::
    "owner_vec \<Rightarrow> mem \<Rightarrow> hyp_page_alloc \<Rightarrow> u64 \<Rightarrow> u64
      \<Rightarrow> ('e, seq_pages \<times> hyp_page_alloc \<times> mem) result" where
  "take_pages av mem h count align =
     result_bind (alloc_pages av h count align ConvertedLocked) (\<lambda>(r, h').
     result_bind (clean_range StConvertedDirty mem r) (\<lambda>(sq, mem'). Ok (sq, h', mem')))"

fun assign_host_pages ::
    "owner_vec \<Rightarrow> page list \<Rightarrow> page_map \<Rightarrow> ('e, page list \<times> page_map) result" where
  "assign_host_pages av [] pm = Ok ([], pm)"
| "assign_host_pages av (p # ps) pm =
     result_bind (unwrap_option (page_map_get pm (page_base p))) (\<lambda>info.
       case info_assign av owner_host VmState info of
         (Ok _, info') \<Rightarrow>
           result_bind (page_new StInternalClean (page_base p)) (\<lambda>q.
           result_bind (assign_host_pages av ps (page_map_set pm (page_base p) info')) (\<lambda>(qs, pm').
             Ok (q # qs, pm')))
       | _ \<Rightarrow> Panic)"

definition take_pages_for_host_state_with_alignment ::
    "owner_vec \<Rightarrow> mem \<Rightarrow> hyp_page_alloc \<Rightarrow> u64 \<Rightarrow> u64
      \<Rightarrow> ('e, seq_pages \<times> hyp_page_alloc \<times> mem) result" where
  "take_pages_for_host_state_with_alignment av mem h count align =
     result_bind (take_pages av mem h count align) (\<lambda>(sq, h', mem').
     result_bind (seq_into_list sq) (\<lambda>ps.
     result_bind (assign_host_pages av ps (hpa_pages h')) (\<lambda>(qs, pm).
     result_bind (unwrap (seq_from_pages qs)) (\<lambda>sq'.
       Ok (sq', h'\<lparr>hpa_pages := pm\<rparr>, mem')))))"

definition take_pages_for_host_state ::
    "owner_vec \<Rightarrow> mem \<Rightarrow> hyp_page_alloc \<Rightarrow> u64 \<Rightarrow> ('e, seq_pages \<times> hyp_page_alloc \<times> mem) result" where
  "take_pages_for_host_state av mem h count =
     take_pages_for_host_state_with_alignment av mem h count (page_size_bytes Size4k)"

definition take_pages_for_hyp_state ::
    "owner_vec \<Rightarrow> mem \<Rightarrow> hyp_page_alloc \<Rightarrow> u64 \<Rightarrow> ('e, seq_pages \<times> hyp_page_alloc \<times> mem) result" where
  "take_pages_for_hyp_state av mem h count =
     result_bind (alloc_pages av h count (page_size_bytes Size4k) HypState) (\<lambda>(r, h').
     result_bind (clean_range StInternalDirty mem r) (\<lambda>(sq, mem'). Ok (sq, h', mem')))"

section \<open>Draining\<close>

definition link_tail :: "page_map \<Rightarrow> supervisor_page_addr option \<Rightarrow> supervisor_page_addr \<Rightarrow> ('e, page_map) result" where
  "link_tail pm tail nxt =
     (case tail of
        None \<Rightarrow> Ok pm
      | Some tail_addr \<Rightarrow>
          result_bind (unwrap_option (page_map_get pm tail_addr)) (\<lambda>info.
            case info_set_link nxt info of
              (Ok _, info') \<Rightarrow> Ok (page_map_set pm tail_addr info')
            | _ \<Rightarrow> Panic))"

definition drain_step ::
    "owner_vec \<Rightarrow> mem \<Rightarrow> page_map \<Rightarrow> supervisor_page_addr option \<Rightarrow> supervisor_page_addr
      \<Rightarrow> ('e, hyp_page_alloc \<times> mem) result" where
  "drain_step av mem pm tail nxt =
     result_bind (unwrap_option (page_map_get pm nxt)) (\<lambda>info.
       case info_assign av owner_hypervisor ConvertedLocked info of
         (Ok _, info') \<Rightarrow>
           result_bind (page_new StConvertedDirty nxt) (\<lambda>page.
           result_bind (unwrap_option (page_clean mem page)) (\<lambda>(_, mem').
           result_bind (link_tail (page_map_set pm nxt info') tail nxt) (\<lambda>pm'.
           result_bind (next_free_page pm' nxt) (\<lambda>n.
             Ok (\<lparr>hpa_next_page = n, hpa_pages = pm'\<rparr>, mem')))))
       | _ \<Rightarrow> Panic)"

partial_function (option) drain_loop ::
    "owner_vec \<Rightarrow> mem \<Rightarrow> hyp_page_alloc \<Rightarrow> supervisor_page_addr option
      \<Rightarrow> ('e, page_map \<times> mem) result option" where
  "drain_loop av mem h tail =
     (case hpa_next_page h of
        None \<Rightarrow> Some (Ok (hpa_pages h, mem))
      | Some nxt \<Rightarrow>
          (case drain_step av mem (hpa_pages h) tail nxt of
             Ok (h', mem') \<Rightarrow> drain_loop av mem' h' (Some nxt)
           | Err e \<Rightarrow> Some (Err e)
           | Panic \<Rightarrow> Some Panic))"

definition hyp_drain ::
    "owner_vec \<Rightarrow> mem \<Rightarrow> hyp_page_alloc \<Rightarrow> ('e, page_map \<times> supervisor_page_addr \<times> mem) result option" where
  "hyp_drain av mem h =
     map_option
       (\<lambda>r. result_bind r (\<lambda>(pm, mem').
              result_bind (unwrap_option (hpa_next_page h)) (\<lambda>head. Ok (pm, head, mem'))))
       (drain_loop av mem h None)"

section \<open>The page tracker at boot\<close>

text \<open>
  \<open>PageTracker::from\<close> up to the drain: two pages for the vector of guests, one page for
  the tracker itself, and a chunk thrown away to align the host's memory. A
  \<open>PageOwnerId\<close> has eight bytes.
\<close>

definition tracker_pages_setup ::
    "owner_vec \<Rightarrow> mem \<Rightarrow> hyp_page_alloc \<Rightarrow> u64
      \<Rightarrow> ('e, page_owner_id raw_page_vec \<times> hyp_page_alloc \<times> mem) result" where
  "tracker_pages_setup av mem h host_alignment =
     result_bind (take_pages_for_host_state av mem h 2) (\<lambda>(guest_pages, h1, mem1).
     result_bind (pv_push (pv_from_pages 8 guest_pages) owner_host) (\<lambda>active_guests.
     result_bind (take_pages_for_host_state av mem1 h1 1) (\<lambda>(state_pages, h2, mem2).
     result_bind (seq_iter_next state_pages) (\<lambda>state_storage_page.
     result_bind (unwrap_option state_storage_page) (\<lambda>_.
     result_bind (take_pages av mem2 h2 (host_alignment div page_size_bytes Size4k) host_alignment) (\<lambda>(_, h3, mem3).
       Ok (active_guests, h3, mem3)))))))"

definition page_tracker_from ::
    "owner_vec \<Rightarrow> mem \<Rightarrow> hyp_page_alloc \<Rightarrow> u64 \<Rightarrow> ('e, page_tracker \<times> page_list \<times> mem) result option" where
  "page_tracker_from av mem h host_alignment =
     (case tracker_pages_setup av mem h host_alignment of
        Ok (guests, h', mem') \<Rightarrow>
          (case hyp_drain av mem' h' of
             Some (Ok (page_map, head_addr, mem'')) \<Rightarrow>
               let t = \<lparr>next_owner_id = 2, active_guests = guests, tracker_pages = page_map\<rparr> in
               map_option (\<lambda>l. Ok (t, l, mem'')) (page_list_from_raw_parts t head_addr)
           | Some (Err e) \<Rightarrow> Some (Err e)
           | Some Panic \<Rightarrow> Some Panic
           | None \<Rightarrow> None)
      | Err e \<Rightarrow> Some (Err e)
      | Panic \<Rightarrow> Some Panic)"

section \<open>The pages of the map by position\<close>

abbreviation map_len :: "page_map \<Rightarrow> nat" where
  "map_len pm \<equiv> length (pv_items (pm_pages pm))"

abbreviation item_at :: "page_map \<Rightarrow> nat \<Rightarrow> page_info" where
  "item_at pm j \<equiv> pv_items (pm_pages pm) ! j"

definition addr_at :: "page_map \<Rightarrow> nat \<Rightarrow> supervisor_page_addr" where
  "addr_at pm j = PageAddr (raw_supervisor (of_nat (entries_pfns (pm_sparse_map pm) ! j * 4096)))"

lemma addr_at_facts:
  assumes "page_map_iter_ok pm" and "j < map_len pm"
  shows addr_at_nat: "addr_nat (addr_at pm j) = entries_pfns (pm_sparse_map pm) ! j * 4096"
    and addr_at_wf: "page_addr_wf (addr_at pm j)"
    and addr_at_low: "addr_nat (addr_at pm j) < 2 ^ 56"
    and addr_at_index: "page_addr_index (addr_at pm j) = entries_pfns (pm_sparse_map pm) ! j"
    and get_map_index_at: "get_map_index pm (addr_at pm j) = Some j"
proof -
  let ?p = "entries_pfns (pm_sparse_map pm) ! j"
  have wf: "page_map_wf pm" and p: "?p \<in> set (entries_pfns (pm_sparse_map pm))"
    using assms by (simp_all add: page_map_iter_ok_def page_map_wf_def)
  then have lt: "?p < 2 ^ 44"
    using assms(1) by (simp add: page_map_iter_ok_def)
  then have lt56: "?p * 4096 < 2 ^ 56"
    by simp
  then have nat: "addr_nat (addr_at pm j) = ?p * 4096"
    unfolding addr_at_def addr_nat_PageAddr raw_supervisor_def raw_addr.sel
    by (intro unat_of_nat_u64) simp
  show "addr_nat (addr_at pm j) = ?p * 4096" "addr_nat (addr_at pm j) < 2 ^ 56"
    using nat lt56 by simp_all
  show "page_addr_wf (addr_at pm j)"
    by (simp add: page_addr_wf_iff nat)
  show idx: "page_addr_index (addr_at pm j) = ?p"
    using lt by (simp add: page_addr_index_eq nat)
  then obtain k where k: "get_map_index pm (addr_at pm j) = Some k"
    using p get_map_index_None [of pm "addr_at pm j"] by (metis not_None_eq)
  then have "k < map_len pm" "entries_pfns (pm_sparse_map pm) ! k = ?p"
    using get_map_index_Some [OF wf] idx by auto
  then have "k = j"
    using wf assms(2) nth_eq_iff_index_eq [of "entries_pfns (pm_sparse_map pm)" k j]
    by (simp add: page_map_wf_def)
  with k show "get_map_index pm (addr_at pm j) = Some j"
    by simp
qed

lemma page_map_get_at:
  "page_map_iter_ok pm \<Longrightarrow> j < map_len pm \<Longrightarrow> page_map_get pm (addr_at pm j) = Some (item_at pm j)"
  by (simp add: page_map_get_def get_map_index_at pv_get_def)

lemma addr_at_eq:
  assumes "page_map_iter_ok pm" and "get_map_index pm a = Some j" and "page_addr_wf a" and "addr_nat a < 2 ^ 56"
  shows "a = addr_at pm j"
proof -
  have j: "j < map_len pm" "entries_pfns (pm_sparse_map pm) ! j = page_addr_index a"
    using get_map_index_Some [of pm a j] assms(1,2) by (simp_all add: page_map_iter_ok_def)
  then show ?thesis
    using page_addr_index_inj [OF assms(3,4) addr_at_wf [OF assms(1) j(1)] addr_at_low [OF assms(1) j(1)]]
      addr_at_index [OF assms(1) j(1)] by simp
qed

lemma page_map_iter_next_addr:
  assumes ok: "page_map_iter_ok pm" and at: "iter_at pm it k" and k: "k < map_len pm"
  obtains it' where "(page_map_iter_next pm it :: ('e, _) result) = Ok (Some ((item_at pm k, addr_at pm k), it'))"
    and "iter_at pm it' (Suc k)"
proof -
  obtain a it' where step: "(page_map_iter_next pm it :: ('e, _) result) = Ok (Some ((item_at pm k, a), it'))"
    and a: "addr_nat a = entries_pfns (pm_sparse_map pm) ! k * 4096" and at': "iter_at pm it' (k + 1)"
    using page_map_iter_next_at [OF ok at k] .
  have "a = addr_at pm k"
    using a addr_at_nat [OF ok k] by (simp add: supervisor_addr_eq_iff)
  with step at' show thesis
    by (intro that) simp_all
qed

lemma page_map_iter_next_end:
  assumes "page_map_iter_ok pm" and "iter_at pm it (map_len pm)"
  shows "page_map_iter_next pm it = Ok None"
proof -
  have "length (pm_sparse_map pm) = cur_sparse_entry it"
    using assms entry_position_bound [of "cur_sparse_entry it" "pm_sparse_map pm" "map_len pm"]
    by (auto simp: iter_at_def Let_def page_map_iter_ok_def page_map_wf_def)
  then show ?thesis
    by (simp add: page_map_iter_next_def)
qed

lemma page_map_find_total:
  assumes "page_map_iter_ok pm" and "iter_at pm it k" and "k \<le> map_len pm"
    and "\<And>j. k \<le> j \<Longrightarrow> j < map_len pm \<Longrightarrow> f (item_at pm j, addr_at pm j) = (Ok (P j) :: ('e, bool) result)"
  shows "page_map_find f pm it = Ok (map_option (addr_at pm) (find P [k..<map_len pm]))"
  using assms(2,3,4)
proof (induction "map_len pm - k" arbitrary: it k)
  case 0
  then show ?case
    using page_map_iter_next_end [OF assms(1), where 'a = 'e] by (subst page_map_find.simps) simp
next
  case (Suc n)
  then have k: "k < map_len pm" by simp
  obtain it' where step: "(page_map_iter_next pm it :: ('e, _) result) = Ok (Some ((item_at pm k, addr_at pm k), it'))"
    and at: "iter_at pm it' (Suc k)"
    using page_map_iter_next_addr [OF assms(1) Suc.prems(1) k] .
  have "page_map_find f pm it' = Ok (map_option (addr_at pm) (find P [Suc k..<map_len pm]))"
    using Suc.hyps(2) k Suc.prems(3) by (intro Suc.hyps(1) at) simp_all
  then show ?case
    using Suc.prems(3) [of k] k by (subst page_map_find.simps) (simp add: step upt_conv_Cons)
qed

lemma page_map_find_Some:
  assumes "page_map_iter_ok pm" and "iter_at pm it k" and "k \<le> map_len pm"
    and "page_map_find f pm it = (Ok (Some a) :: ('e, _) result)"
  obtains j where "k \<le> j" "j < map_len pm" "a = addr_at pm j" "f (item_at pm j, a) = Ok True"
    and "\<And>i. k \<le> i \<Longrightarrow> i < j \<Longrightarrow> f (item_at pm i, addr_at pm i) = Ok False"
proof -
  have "\<exists>j\<ge>k. j < map_len pm \<and> a = addr_at pm j \<and> f (item_at pm j, a) = Ok True
      \<and> (\<forall>i. k \<le> i \<and> i < j \<longrightarrow> f (item_at pm i, addr_at pm i) = Ok False)"
    using assms(2,3,4)
  proof (induction "map_len pm - k" arbitrary: it k)
    case 0
    then show ?case
      using page_map_iter_next_end [OF assms(1), of it, where 'a = 'e] by (simp add: page_map_find.simps [of f pm it])
  next
    case (Suc n)
    then have k: "k < map_len pm" by simp
    obtain it' where step: "(page_map_iter_next pm it :: ('e, _) result) = Ok (Some ((item_at pm k, addr_at pm k), it'))"
      and at: "iter_at pm it' (Suc k)"
      using page_map_iter_next_addr [OF assms(1) Suc.prems(1) k] .
    consider "f (item_at pm k, addr_at pm k) = Ok True" "a = addr_at pm k"
      | "f (item_at pm k, addr_at pm k) = Ok False" "page_map_find f pm it' = Ok (Some a)"
      using Suc.prems(3) by (auto simp: page_map_find.simps [of f pm it] step split: result.splits if_splits)
    then show ?case
    proof cases
      case 1
      with k show ?thesis by auto
    next
      case 2
      have "n = map_len pm - Suc k" and "Suc k \<le> map_len pm"
        using Suc.hyps(2) k by simp_all
      from Suc.hyps(1) [OF this(1) at this(2) 2(2)] obtain j where "Suc k \<le> j" "j < map_len pm"
        "a = addr_at pm j" "f (item_at pm j, a) = Ok True"
        "\<forall>i. Suc k \<le> i \<and> i < j \<longrightarrow> f (item_at pm i, addr_at pm i) = Ok False"
        by auto
      with 2(1) show ?thesis
        by (intro exI [of _ j]) (metis Suc_leD Suc_leI le_neq_implies_less)
    qed
  qed
  then show thesis
    using that by blast
qed

lemma iter_from_wf:
  "page_addr_wf a \<Longrightarrow> page_addr_iter_from a = Ok \<lparr>iter_next = Some a, iter_increment = Size4k\<rparr>"
  by (cases a) (simp add: page_addr_iter_from_def page_addr_iter_new_def page_addr_wf_def page_addr_is_aligned_def
      page_addr_with_alignment_def page_addr_bits_def)

lemma addr_of_nat:
  assumes "x < 2 ^ 64"
  obtains b :: supervisor_page_addr where "addr_nat b = x"
  using that [of "PageAddr (raw_supervisor (of_nat x))"] unat_of_nat_u64 [OF assms]
  by (simp only: addr_nat_PageAddr raw_supervisor_def raw_addr.sel)

text \<open>The pages between two addresses, as the loops of the allocator visit them.\<close>

lemma iter_take_until_set:
  assumes "page_addr_wf a" and "page_addr_wf stop" and "addr_nat a \<le> addr_nat stop"
  shows "set (iter_take_until \<lparr>iter_next = Some a, iter_increment = Size4k\<rparr> stop)
       = {b :: supervisor_page_addr. page_addr_wf b \<and> addr_nat a \<le> addr_nat b \<and> addr_nat b < addr_nat stop}"
    (is "set ?xs = ?S")
proof -
  define n where "n = (addr_nat stop - addr_nat a) div 4096"
  have n: "addr_nat stop = addr_nat a + n * 4096"
    using assms by (simp add: n_def page_addr_wf_iff dvd_diff_nat)
  have "map addr_nat ?xs = map (\<lambda>i. addr_nat a + i * 4096) [0..<n]"
    using iter_take_until_addrs [OF _ n supervisor_space_eq] assms(1) by (simp add: page_addr_wf_def)
  then have "addr_nat ` set ?xs = (\<lambda>i. addr_nat a + i * 4096) ` {0..<n}"
    by (metis list.set_map set_upt)
  moreover have "addr_nat ` ?S = (\<lambda>i. addr_nat a + i * 4096) ` {0..<n}"
  proof (intro equalityI subsetI)
    fix x assume "x \<in> addr_nat ` ?S"
    then have x: "4096 dvd x" "addr_nat a \<le> x" "x < addr_nat a + n * 4096"
      using n by (auto simp: page_addr_wf_iff)
    moreover have "4096 dvd addr_nat a"
      using assms(1) by (simp add: page_addr_wf_iff)
    ultimately have "x = addr_nat a + (x - addr_nat a) div 4096 * 4096"
      by (simp add: dvd_diff_nat)
    moreover from this x(3) have "(x - addr_nat a) div 4096 < n"
      by linarith
    ultimately show "x \<in> (\<lambda>i. addr_nat a + i * 4096) ` {0..<n}"
      by (intro image_eqI [of _ _ "(x - addr_nat a) div 4096"]) simp_all
  next
    fix x assume "x \<in> (\<lambda>i. addr_nat a + i * 4096) ` {0..<n}"
    then obtain i where i: "x = addr_nat a + i * 4096" "i < n"
      by auto
    then have "x < 2 ^ 64"
      using n addr_nat_less [of stop] by linarith
    then obtain b :: supervisor_page_addr where b: "addr_nat b = x"
      by (rule addr_of_nat)
    moreover have "4096 dvd x"
      using i assms(1) by (simp add: page_addr_wf_iff)
    ultimately have "b \<in> ?S"
      using i n by (simp add: page_addr_wf_iff)
    with b show "x \<in> addr_nat ` ?S"
      by blast
  qed
  moreover have "inj (addr_nat :: supervisor_page_addr \<Rightarrow> nat)"
    by (rule injI) (simp add: supervisor_addr_eq_iff)
  ultimately show ?thesis
    using inj_image_eq_iff [of addr_nat "set ?xs" ?S] by simp
qed

section \<open>Taking free pages\<close>

lemma page_map_set_sparse [simp]: "pm_sparse_map (page_map_set pm a info) = pm_sparse_map pm"
  by (simp add: page_map_set_def split: option.split)

lemma page_map_set_iter_ok [simp]: "page_map_iter_ok pm \<Longrightarrow> page_map_iter_ok (page_map_set pm a info)"
  by (simp add: page_map_iter_ok_def page_map_set_wf)

definition taken :: "page_state \<Rightarrow> page_info \<Rightarrow> page_info" where
  "taken st i = i\<lparr>info_state := st\<rparr>"

lemma info_assign_free:
  "info_is_free i \<Longrightarrow> st \<in> {ConvertedLocked, HypState} \<Longrightarrow>
   info_assign av owner_hypervisor st i = (Ok (), taken st i)"
  by (auto simp: info_assign_def info_is_free_def taken_def)

lemma taken_not_free: "st \<in> {ConvertedLocked, HypState} \<Longrightarrow> \<not> info_is_free (taken st i)"
  by (auto simp: info_is_free_def taken_def)

lemma assign_free_pages_Ok:
  assumes "page_map_wf pm" and "st \<in> {ConvertedLocked, HypState}"
  shows "\<exists>pm'. assign_free_pages av st as pm = (Ok pm' :: ('e, _) result)
     \<and> pm_sparse_map pm' = pm_sparse_map pm \<and> page_map_wf pm'
     \<and> (\<forall>b. page_map_get pm' b = map_option (\<lambda>i. if info_is_free i \<and> page_addr_index b \<in> page_addr_index ` set as
                                            then taken st i else i) (page_map_get pm b))"
  using assms(1)
proof (induction as arbitrary: pm)
  case Nil
  then show ?case by (simp add: option.map_ident)
next
  case (Cons a as)
  show ?case
  proof (cases "\<exists>info. page_map_get pm a = Some info \<and> info_is_free info")
    case True
    then obtain info where info: "page_map_get pm a = Some info" "info_is_free info"
      by auto
    let ?pm = "page_map_set pm a (taken st info)"
    have get: "page_map_get ?pm b = (if page_addr_index b = page_addr_index a then Some (taken st info) else page_map_get pm b)" for b
      using pm.get_set [OF Cons.prems] info(1) by simp
    have same: "page_map_get pm b = Some info" if "page_addr_index b = page_addr_index a" for b
      using that info(1) by (simp add: page_map_get_abs [OF Cons.prems])
    obtain pm' where pm': "assign_free_pages av st as ?pm = (Ok pm' :: ('e, _) result)"
      "pm_sparse_map pm' = pm_sparse_map pm" "page_map_wf pm'"
      "\<And>b. page_map_get pm' b = map_option (\<lambda>i. if info_is_free i \<and> page_addr_index b \<in> page_addr_index ` set as
                                            then taken st i else i) (page_map_get ?pm b)"
      using Cons.IH [OF page_map_set_wf [OF Cons.prems], of a "taken st info"] by auto
    have "page_map_get pm' b = map_option (\<lambda>i. if info_is_free i \<and> page_addr_index b \<in> page_addr_index ` set (a # as)
                                            then taken st i else i) (page_map_get pm b)" for b
      using info(2) same [of b] taken_not_free [OF assms(2), of info] by (simp add: pm'(4) get)
    with pm' show ?thesis
      using info info_assign_free [OF info(2) assms(2), of av] by (intro exI [of _ pm']) simp
  next
    case False
    then have "assign_free_pages av st (a # as) pm = (assign_free_pages av st as pm :: ('e, _) result)"
      by (auto split: option.split)
    moreover have "\<not> info_is_free i" if "page_map_get pm b = Some i" "page_addr_index b = page_addr_index a" for b i
      using that False by (simp add: page_map_get_abs [OF Cons.prems])
    then have "map_option (\<lambda>i. if info_is_free i \<and> page_addr_index b \<in> page_addr_index ` set (a # as) then taken st i else i) (page_map_get pm b)
        = map_option (\<lambda>i. if info_is_free i \<and> page_addr_index b \<in> page_addr_index ` set as then taken st i else i) (page_map_get pm b)" for b
      by (cases "page_map_get pm b") auto
    ultimately show ?thesis
      using Cons.IH [OF Cons.prems] by simp
  qed
qed

definition free_run :: "page_map \<Rightarrow> u64 \<Rightarrow> supervisor_page_addr \<Rightarrow> bool" where
  "free_run pm count a \<longleftrightarrow>
     (\<forall>b. page_addr_wf b \<and> addr_nat a \<le> addr_nat b \<and> addr_nat b < addr_nat a + unat count * 4096
        \<longrightarrow> page_is_free pm b)"

lemma checked_add_pages_fits:
  assumes "page_addr_wf (a :: supervisor_page_addr)" and "addr_nat a + unat n * 4096 < 2 ^ 64"
  obtains b where "checked_add_pages a n = Some b" "addr_nat b = addr_nat a + unat n * 4096" "page_addr_wf b"
  using checked_add_pages_with_size_fits [of a Size4k n] assms
  by (auto simp: checked_add_pages_def page_addr_wf_def)

lemma range_is_free_and_aligned_eq:
  assumes "page_addr_wf a" and "addr_nat a + unat count * 4096 < 2 ^ 64"
  shows "range_is_free_and_aligned pm count align a =
     (Ok (page_addr_bits a AND (align - 1) = 0 \<and> free_run pm count a) :: ('e, _) result)"
proof -
  obtain b where b: "checked_add_pages a count = Some b" "addr_nat b = addr_nat a + unat count * 4096" "page_addr_wf b"
    using checked_add_pages_fits [OF assms] .
  have "list_all (page_is_free pm) (iter_take_until \<lparr>iter_next = Some a, iter_increment = Size4k\<rparr> b)
      = free_run pm count a"
    using iter_take_until_set [OF assms(1) b(3)] b(2) by (auto simp: list_all_iff free_run_def)
  then show ?thesis
    by (simp add: range_is_free_and_aligned_def b(1) iter_from_wf [OF assms(1)])
qed

lemma find_index_None: "(find_index p xs i = None) = (find p xs = None)"
  by (induction xs arbitrary: i) auto

lemma page_map_iter_new_None: "(page_map_iter_new pm a = None) = (get_map_index pm a = None)"
  by (simp add: page_map_iter_new_def get_map_index_def find_index_None)

lemma page_map_search_total:
  assumes "page_map_iter_ok pm"
    and "\<And>j. j < map_len pm \<Longrightarrow> f (item_at pm j, addr_at pm j) = (Ok (P j) :: ('e, bool) result)"
  shows "page_map_search f pm a =
     Ok (case get_map_index pm a of
           None \<Rightarrow> None
         | Some k \<Rightarrow> map_option (addr_at pm) (find P [k..<map_len pm]))"
proof (cases "page_map_iter_new pm a")
  case None
  then show ?thesis
    using page_map_iter_new_None [of pm a] by (simp add: page_map_search_def)
next
  case (Some it)
  have wf: "page_map_wf pm"
    using assms(1) by (simp add: page_map_iter_ok_def)
  obtain k where k: "get_map_index pm a = Some k" "iter_at pm it k"
    using page_map_iter_new_at [OF wf Some] .
  have "k \<le> map_len pm"
    using get_map_index_Some(1) [OF wf k(1)] by simp
  then show ?thesis
    using page_map_find_total [OF assms(1) k(2), of f P] assms(2) by (simp add: page_map_search_def Some k(1))
qed

lemma next_free_page_eq:
  assumes "page_map_iter_ok pm"
  shows "next_free_page pm a =
     (Ok (case get_map_index pm a of
            None \<Rightarrow> None
          | Some k \<Rightarrow> map_option (addr_at pm) (find (\<lambda>j. info_is_free (item_at pm j)) [k..<map_len pm])) :: ('e, _) result)"
  unfolding next_free_page_def by (rule page_map_search_total [OF assms]) simp

section \<open>What an allocation does\<close>

definition page_map_sorted :: "page_map \<Rightarrow> bool" where
  "page_map_sorted pm = sorted (entries_pfns (pm_sparse_map pm))"

definition suitable :: "page_map \<Rightarrow> u64 \<Rightarrow> u64 \<Rightarrow> supervisor_page_addr \<Rightarrow> supervisor_page_addr \<Rightarrow> bool" where
  "suitable pm count align start c \<longleftrightarrow>
     page_addr_wf c \<and> addr_nat c < 2 ^ 56 \<and> addr_nat start \<le> addr_nat c \<and> page_map_get pm c \<noteq> None
   \<and> page_addr_bits c AND (align - 1) = 0 \<and> free_run pm count c"

definition alloc_outcome ::
    "page_state \<Rightarrow> page_map \<Rightarrow> u64 \<Rightarrow> u64 \<Rightarrow> supervisor_page_addr
      \<Rightarrow> ('e, supervisor_phys page_addr_range \<times> hyp_page_alloc) result \<Rightarrow> bool" where
  "alloc_outcome st pm count align start res =
     (case res of
        Ok (r, h') \<Rightarrow>
          r = page_addr_range_new (range_base r) count
        \<and> suitable pm count align start (range_base r)
        \<and> (\<forall>c. suitable pm count align start c \<longrightarrow> addr_nat (range_base r) \<le> addr_nat c)
        \<and> pm_sparse_map (hpa_pages h') = pm_sparse_map pm \<and> page_map_wf (hpa_pages h')
        \<and> (\<forall>b. page_addr_wf b \<and> addr_nat b < 2 ^ 56 \<longrightarrow>
              page_map_get (hpa_pages h') b =
              map_option (\<lambda>i. if info_is_free i \<and> addr_nat start \<le> addr_nat b
                                \<and> addr_nat b < addr_nat (range_base r) + unat count * 4096
                             then taken st i else i) (page_map_get pm b))
        \<and> (\<exists>e. addr_nat e = addr_nat (range_base r) + unat count * 4096 \<and> page_addr_wf e
              \<and> next_free_page (hpa_pages h') e = (Ok (hpa_next_page h') :: (unit, _) result))
      | Err e \<Rightarrow> False
      | Panic \<Rightarrow> \<forall>c. \<not> suitable pm count align start c)"

lemma map_position_mono:
  assumes "page_map_iter_ok pm" "page_map_sorted pm" "i < map_len pm" "j < map_len pm"
  shows "(addr_nat (addr_at pm i) \<le> addr_nat (addr_at pm j)) = (i \<le> j)"
proof -
  let ?f = "entries_pfns (pm_sparse_map pm)"
  have len: "map_len pm = length ?f" and d: "distinct ?f"
    using assms(1) by (simp_all add: page_map_iter_ok_def page_map_wf_def)
  have "(?f ! i \<le> ?f ! j) = (i \<le> j)"
    using assms(2,3,4) len d sorted_nth_mono [of ?f i j] sorted_nth_mono [of ?f j i] nth_eq_iff_index_eq [OF d, of i j]
    unfolding page_map_sorted_def by (metis le_antisym nat_le_linear)
  then show ?thesis
    using addr_at_nat [OF assms(1,3)] addr_at_nat [OF assms(1,4)] by simp
qed

lemma suitable_at:
  assumes ok: "page_map_iter_ok pm" "page_map_sorted pm" and k: "k < map_len pm"
  shows "suitable pm count align (addr_at pm k) c =
     (\<exists>j \<ge> k. j < map_len pm \<and> c = addr_at pm j \<and> page_addr_bits c AND (align - 1) = 0 \<and> free_run pm count c)"
proof
  assume s: "suitable pm count align (addr_at pm k) c"
  then obtain j where j: "get_map_index pm c = Some j"
    by (cases "get_map_index pm c") (auto simp: suitable_def page_map_get_def)
  then have "c = addr_at pm j" "j < map_len pm"
    using addr_at_eq [OF ok(1) j] get_map_index_Some(1) [of pm c j] s ok(1)
    by (simp_all add: suitable_def page_map_iter_ok_def)
  with s show "\<exists>j \<ge> k. j < map_len pm \<and> c = addr_at pm j \<and> page_addr_bits c AND (align - 1) = 0 \<and> free_run pm count c"
    using map_position_mono [OF ok k] by (auto simp: suitable_def)
next
  assume "\<exists>j \<ge> k. j < map_len pm \<and> c = addr_at pm j \<and> page_addr_bits c AND (align - 1) = 0 \<and> free_run pm count c"
  then show "suitable pm count align (addr_at pm k) c"
    using map_position_mono [OF ok k] addr_at_wf [OF ok(1)] addr_at_low [OF ok(1)] page_map_get_at [OF ok(1)]
    by (auto simp: suitable_def)
qed

lemma find_upt_Some:
  "find P [k..<n] = Some j \<longleftrightarrow> k \<le> j \<and> j < n \<and> P j \<and> (\<forall>i. k \<le> i \<and> i < j \<longrightarrow> \<not> P i)"
proof -
  have "find P [k..<n] = Some j \<longleftrightarrow> (\<exists>i < n - k. P (k + i) \<and> j = k + i \<and> (\<forall>l < i. \<not> P (k + l)))"
    by (auto simp: find_Some_iff)
  also have "\<dots> \<longleftrightarrow> k \<le> j \<and> j < n \<and> P j \<and> (\<forall>i. k \<le> i \<and> i < j \<longrightarrow> \<not> P i)"
  proof
    assume "\<exists>i < n - k. P (k + i) \<and> j = k + i \<and> (\<forall>l < i. \<not> P (k + l))"
    then show "k \<le> j \<and> j < n \<and> P j \<and> (\<forall>i. k \<le> i \<and> i < j \<longrightarrow> \<not> P i)"
      by (auto simp: le_iff_add)
  qed (auto intro!: exI [of _ "j - k"])
  finally show ?thesis .
qed

lemma find_upt_None: "find P [k..<n] = None \<longleftrightarrow> (\<forall>i. k \<le> i \<and> i < n \<longrightarrow> \<not> P i)"
  by (auto simp: find_None_iff)

lemma index_in_stretch:
  fixes a e b :: supervisor_page_addr
  assumes "page_addr_wf a" "page_addr_wf e" "addr_nat a \<le> addr_nat e" "addr_nat e \<le> 2 ^ 56"
    and "page_addr_wf b" "addr_nat b < 2 ^ 56"
  shows "(page_addr_index b \<in> page_addr_index ` set (iter_take_until \<lparr>iter_next = Some a, iter_increment = Size4k\<rparr> e))
       = (addr_nat a \<le> addr_nat b \<and> addr_nat b < addr_nat e)"
proof -
  have "c = b" if "page_addr_wf c" "addr_nat c < addr_nat e" "page_addr_index b = page_addr_index c" for c
    using page_addr_index_inj [OF assms(5,6) that(1) _ that(3)] that(2) assms(4) by simp
  then show ?thesis
    using assms(5) unfolding iter_take_until_set [OF assms(1,2,3)] by blast
qed

text \<open>
  C8: the boot allocator is first fit and takes only free pages. When a suitable place
  exists (aligned, at or after the next free page, all its pages free) the call returns
  the lowest one; the free pages from the old position to its end get the requested
  state, so nothing is handed out twice, every other page is unchanged, and the
  position moves to the next free page after the run. When there is none it panics.
\<close>

theorem alloc_pages_correct:
  assumes ok: "page_map_iter_ok (hpa_pages h)" "page_map_sorted (hpa_pages h)"
    and start: "hpa_next_page h = Some start" "page_addr_wf start" "addr_nat start < 2 ^ 56"
      "page_map_get (hpa_pages h) start \<noteq> None"
    and st: "st \<in> {ConvertedLocked, HypState}"
    and room: "\<forall>f \<in> set (entries_pfns (pm_sparse_map (hpa_pages h))). f + unat count \<le> 2 ^ 44"
  shows "alloc_outcome st (hpa_pages h) count align start (alloc_pages av h count align st :: ('e, _) result)"
proof -
  let ?pm = "hpa_pages h"
  let ?P = "\<lambda>j. page_addr_bits (addr_at ?pm j) AND (align - 1) = 0 \<and> free_run ?pm count (addr_at ?pm j)"
  have wf: "page_map_wf ?pm"
    using ok(1) by (simp add: page_map_iter_ok_def)
  obtain k where k: "get_map_index ?pm start = Some k" "k < map_len ?pm" "start = addr_at ?pm k"
    using start(4) addr_at_eq [OF ok(1) _ start(2,3)] get_map_index_Some(1) [OF wf]
    by (cases "get_map_index ?pm start") (auto simp: page_map_get_def)
  have fits: "addr_nat (addr_at ?pm j) + unat count * 4096 \<le> 2 ^ 56" if "j < map_len ?pm" for j
  proof -
    have "entries_pfns (pm_sparse_map ?pm) ! j + unat count \<le> 2 ^ 44"
      using room that wf by (simp add: page_map_wf_def)
    then show ?thesis
      using addr_at_nat [OF ok(1) that] by simp
  qed
  have fits64: "addr_nat (addr_at ?pm j) + unat count * 4096 < 2 ^ 64" if "j < map_len ?pm" for j
    by (rule le_less_trans [OF fits [OF that]]) simp
  have search: "page_map_search (\<lambda>(_, a). range_is_free_and_aligned ?pm count align a) ?pm start
      = (Ok (map_option (addr_at ?pm) (find ?P [k..<map_len ?pm])) :: ('e, _) result)"
  proof (subst page_map_search_total [OF ok(1), where P = ?P])
    fix j assume j: "j < map_len ?pm"
    show "(case (item_at ?pm j, addr_at ?pm j) of (_, a) \<Rightarrow> range_is_free_and_aligned ?pm count align a)
        = (Ok (?P j) :: ('e, _) result)"
      unfolding prod.case by (rule range_is_free_and_aligned_eq [OF addr_at_wf [OF ok(1) j] fits64 [OF j]])
  qed (simp add: k(1))
  show ?thesis
  proof (cases "find ?P [k..<map_len ?pm]")
    case None
    then have "alloc_pages av h count align st = (Panic :: ('e, _) result)"
      by (simp add: alloc_pages_def start(1) search)
    moreover have "\<not> suitable ?pm count align start c" for c
      using None unfolding k(3) suitable_at [OF ok k(2)] find_upt_None by auto
    ultimately show ?thesis
      by (simp add: alloc_outcome_def)
  next
    case (Some j)
    then have j: "k \<le> j" "j < map_len ?pm" "?P j" "\<And>i. k \<le> i \<Longrightarrow> i < j \<Longrightarrow> \<not> ?P i"
      by (auto simp: find_upt_Some)
    obtain e where e: "checked_add_pages (addr_at ?pm j) count = Some e"
        "addr_nat e = addr_nat (addr_at ?pm j) + unat count * 4096" "page_addr_wf e"
      using checked_add_pages_fits [OF addr_at_wf [OF ok(1) j(2)] fits64 [OF j(2)]] .
    let ?as = "iter_take_until \<lparr>iter_next = Some start, iter_increment = Size4k\<rparr> e"
    obtain pm' where pm': "assign_free_pages av st ?as ?pm = (Ok pm' :: ('e, _) result)"
      "pm_sparse_map pm' = pm_sparse_map ?pm" "page_map_wf pm'"
      "\<And>b. page_map_get pm' b = map_option (\<lambda>i. if info_is_free i \<and> page_addr_index b \<in> page_addr_index ` set ?as
                                            then taken st i else i) (page_map_get ?pm b)"
      using assign_free_pages_Ok [OF wf st, of av ?as, where 'e = 'e] by blast
    have ok': "page_map_iter_ok pm'"
      using ok(1) pm'(2,3) by (simp add: page_map_iter_ok_def)
    define n where "n = (case get_map_index pm' e of None \<Rightarrow> None
        | Some k \<Rightarrow> map_option (addr_at pm') (find (\<lambda>j. info_is_free (item_at pm' j)) [k..<map_len pm']))"
    have alloc: "alloc_pages av h count align st =
        (Ok (page_addr_range_new (addr_at ?pm j) count, \<lparr>hpa_next_page = n, hpa_pages = pm'\<rparr>) :: ('e, _) result)"
      by (simp add: alloc_pages_def start(1) search Some e(1) iter_from_wf [OF start(2)] pm'(1) next_free_page_eq [OF ok'] n_def)
    have le: "addr_nat start \<le> addr_nat e"
      using map_position_mono [OF ok k(2) j(2)] j(1) unfolding e(2) k(3) by simp
    have e56: "addr_nat e \<le> 2 ^ 56"
      using fits [OF j(2)] unfolding e(2) .
    have "suitable ?pm count align start (addr_at ?pm j)"
      using j(1,2,3) unfolding k(3) suitable_at [OF ok k(2)] by auto
    moreover have "addr_nat (addr_at ?pm j) \<le> addr_nat c" if "suitable ?pm count align start c" for c
    proof -
      obtain i where i: "k \<le> i" "i < map_len ?pm" "c = addr_at ?pm i" "?P i"
        using \<open>suitable ?pm count align start c\<close> unfolding k(3) suitable_at [OF ok k(2)] by blast
      then have "j \<le> i"
        using j(4) [of i] not_le by blast
      then show ?thesis
        using map_position_mono [OF ok j(2) i(2)] i(3) by simp
    qed
    moreover have "page_map_get pm' b = map_option (\<lambda>i. if info_is_free i \<and> addr_nat start \<le> addr_nat b
         \<and> addr_nat b < addr_nat e then taken st i else i) (page_map_get ?pm b)"
      if "page_addr_wf b" "addr_nat b < 2 ^ 56" for b
      unfolding pm'(4) index_in_stretch [OF start(2) e(3) le e56 that] by (rule refl)
    moreover have "next_free_page pm' e = (Ok n :: (unit, _) result)"
      by (simp add: next_free_page_eq [OF ok'] n_def)
    ultimately show ?thesis
      using e(3) pm'(2,3) unfolding alloc_outcome_def alloc e(2) result.case prod.case
      by (simp add: page_addr_range_new_def) (use e(2) in blast)
  qed
qed

section \<open>What draining does\<close>

text \<open>
  The loop of \<open>drain\<close> on positions: take the pages \<open>js\<close> one by one, linking each to the
  one before.
\<close>

definition link_item :: "(nat \<Rightarrow> u64) \<Rightarrow> nat option \<Rightarrow> nat \<Rightarrow> page_info list \<Rightarrow> page_info list" where
  "link_item ad tail j items =
     (case tail of None \<Rightarrow> items | Some l \<Rightarrow> items[l := (items ! l)\<lparr>info_link := Some (ad j)\<rparr>])"

fun drained :: "(nat \<Rightarrow> u64) \<Rightarrow> nat option \<Rightarrow> nat list \<Rightarrow> page_info list \<Rightarrow> page_info list" where
  "drained ad tail [] items = items"
| "drained ad tail (j # js) items =
     drained ad (Some j) js (link_item ad tail j (items[j := taken ConvertedLocked (items ! j)]))"

fun links_ok :: "(nat \<Rightarrow> u64) \<Rightarrow> nat list \<Rightarrow> page_info list \<Rightarrow> bool" where
  "links_ok ad [] items = True"
| "links_ok ad [j] items = (info_link (items ! j) = None)"
| "links_ok ad (i # j # js) items = (info_link (items ! i) = Some (ad j) \<and> links_ok ad (j # js) items)"

definition free_indices :: "page_map \<Rightarrow> nat \<Rightarrow> nat list" where
  "free_indices pm k = filter (\<lambda>j. info_is_free (item_at pm j)) [k..<map_len pm]"

lemma length_link_item [simp]: "length (link_item ad tail j items) = length items"
  by (simp add: link_item_def split: option.split)

lemma link_item_other: "tail \<noteq> Some i \<Longrightarrow> link_item ad tail j items ! i = items ! i"
  by (cases tail) (auto simp: link_item_def)

lemma length_drained [simp]: "length (drained ad tail js items) = length items"
  by (induction js arbitrary: tail items) simp_all

lemma drained_other:
  "i \<notin> set js \<Longrightarrow> tail \<noteq> Some i \<Longrightarrow> drained ad tail js items ! i = items ! i"
proof (induction js arbitrary: tail items)
  case (Cons j js)
  then show ?case
    by (simp add: link_item_other)
qed simp

lemma drained_tail:
  assumes "l < length items" and "l \<notin> set js"
  shows "drained ad (Some l) js items ! l =
     (case js of [] \<Rightarrow> items ! l | j # _ \<Rightarrow> (items ! l)\<lparr>info_link := Some (ad j)\<rparr>)"
proof (cases js)
  case (Cons j js')
  then have "drained ad (Some l) js items ! l
      = link_item ad (Some l) j (items[j := taken ConvertedLocked (items ! j)]) ! l"
    using assms(2) by (auto simp: drained_other)
  then show ?thesis
    using Cons assms by (simp add: link_item_def)
qed simp

lemma drained_in:
  assumes "distinct js" "\<forall>j \<in> set js. j < length items" "\<forall>l. tail = Some l \<longrightarrow> l \<notin> set js" "i \<in> set js"
  shows "drained ad tail js items ! i =
     (taken ConvertedLocked (items ! i))\<lparr>info_link := info_link (drained ad tail js items ! i)\<rparr>"
  using assms
proof (induction js arbitrary: tail items)
  case (Cons j js)
  let ?items = "link_item ad tail j (items[j := taken ConvertedLocked (items ! j)])"
  show ?case
  proof (cases "i = j")
    case True
    have "?items ! j = taken ConvertedLocked (items ! j)"
      using Cons.prems by (subst link_item_other) auto
    then show ?thesis
      using drained_tail [of j ?items js ad] Cons.prems True by (auto simp: taken_def split: list.split)
  next
    case False
    then have i: "i \<in> set js"
      using Cons.prems by simp
    have same: "?items ! i = items ! i"
      using Cons.prems False by (subst link_item_other) auto
    show ?thesis
      using Cons.IH [of ?items "Some j"] Cons.prems i same by simp
  qed
qed simp

lemma drained_links:
  assumes "distinct js" "\<forall>j \<in> set js. j < length items \<and> info_link (items ! j) = None"
    and "\<forall>l. tail = Some l \<longrightarrow> l \<notin> set js"
  shows "links_ok ad js (drained ad tail js items)"
  using assms
proof (induction js arbitrary: tail items)
  case (Cons j js)
  let ?items = "link_item ad tail j (items[j := taken ConvertedLocked (items ! j)])"
  have at: "?items ! i = (if i = j then taken ConvertedLocked (items ! j) else items ! i)" if "i \<in> set (j # js)" for i
    using Cons.prems that by (subst link_item_other) auto
  have "links_ok ad js (drained ad (Some j) js ?items)"
    using Cons.prems at by (intro Cons.IH) auto
  moreover have "drained ad (Some j) js ?items ! j
      = (case js of [] \<Rightarrow> ?items ! j | j' # _ \<Rightarrow> (?items ! j)\<lparr>info_link := Some (ad j')\<rparr>)"
    using Cons.prems by (intro drained_tail) auto
  ultimately show ?case
    using at [of j] Cons.prems by (cases js) (simp_all add: taken_def)
qed simp

lemma page_map_set_at:
  assumes "page_map_iter_ok pm" and "j < map_len pm"
  shows "page_map_set pm (addr_at pm j) info = pm\<lparr>pm_pages := pv_set (pm_pages pm) j info\<rparr>"
  using get_map_index_at [OF assms] by (simp add: page_map_set_def)

lemma pv_set_items: "pv_items (pv_set v j x) = (pv_items v)[j := x]"
  by (simp add: pv_set_def)

lemma addr_at_cong: "pm_sparse_map pm' = pm_sparse_map pm \<Longrightarrow> addr_at pm' = addr_at pm"
  by (simp add: addr_at_def fun_eq_iff)

lemma page_map_iter_ok_cong:
  "page_map_iter_ok pm \<Longrightarrow> pm_sparse_map pm' = pm_sparse_map pm \<Longrightarrow> map_len pm' = map_len pm \<Longrightarrow> page_map_iter_ok pm'"
  by (simp add: page_map_iter_ok_def page_map_wf_def)

lemma link_tail_at:
  assumes ok: "page_map_iter_ok pm" and nz: "addr_nat (addr_at pm j) \<noteq> 0"
    and tail: "\<And>l. tail = Some l \<Longrightarrow> l < map_len pm \<and> info_link (item_at pm l) = None"
  obtains pm' where "link_tail pm (map_option (addr_at pm) tail) (addr_at pm j) = (Ok pm' :: ('e, _) result)"
    and "pm_sparse_map pm' = pm_sparse_map pm"
    and "pv_items (pm_pages pm') = link_item (\<lambda>i. page_addr_bits (addr_at pm i)) tail j (pv_items (pm_pages pm))"
proof (cases tail)
  case None
  then show thesis
    by (intro that [of pm]) (simp_all add: link_tail_def link_item_def)
next
  case (Some l)
  note l = tail [OF Some]
  have "page_addr_bits (addr_at pm j) \<noteq> 0"
    using nz by (auto simp: addr_nat_def)
  then have "info_set_link (addr_at pm j) (item_at pm l)
      = (Ok (), (item_at pm l)\<lparr>info_link := Some (page_addr_bits (addr_at pm j))\<rparr>)"
    using l by (simp add: info_set_link_def)
  then show thesis
    using page_map_get_at [OF ok] page_map_set_at [OF ok] l
    by (intro that [of "pm\<lparr>pm_pages := pv_set (pm_pages pm) l
          ((item_at pm l)\<lparr>info_link := Some (page_addr_bits (addr_at pm j))\<rparr>)\<rparr>"])
       (simp_all add: link_tail_def Some link_item_def pv_set_items)
qed

lemma find_upt_skip:
  assumes "j < n" and "\<not> P j" and "\<And>i. j < i \<Longrightarrow> P i = Q i"
  shows "find P [j..<n] = find Q [Suc j..<n]"
proof -
  have "find P [Suc j..<n] = find Q [Suc j..<n]"
    using assms(3) by (intro find_cong) auto
  then show ?thesis
    using assms(1,2) by (simp add: upt_conv_Cons)
qed

text \<open>One round of the loop, on positions.\<close>

lemma drain_step_at:
  assumes ok: "page_map_iter_ok pm" and j: "j < map_len pm" "info_is_free (item_at pm j)"
    and nz: "addr_nat (addr_at pm j) \<noteq> 0"
    and tail: "\<And>l. tail = Some l \<Longrightarrow> l < j \<and> info_link (item_at pm l) = None"
  obtains pm' where "drain_step av mem pm (map_option (addr_at pm) tail) (addr_at pm j) =
      (Ok (\<lparr>hpa_next_page = map_option (addr_at pm) (find (\<lambda>i. info_is_free (item_at pm i)) [Suc j..<map_len pm]),
            hpa_pages = pm'\<rparr>,
          \<lambda>w. if in_bytes (page_addr_bits (addr_at pm j)) 4096 w then 0 else mem w) :: ('e, _) result)"
    and "pm_sparse_map pm' = pm_sparse_map pm"
    and "pv_items (pm_pages pm') = link_item (\<lambda>i. page_addr_bits (addr_at pm i)) tail j
                                  ((pv_items (pm_pages pm))[j := taken ConvertedLocked (item_at pm j)])"
proof -
  let ?a = "addr_at pm j" and ?i = "taken ConvertedLocked (item_at pm j)"
  define pm1 where "pm1 = page_map_set pm ?a ?i"
  have items1: "pv_items (pm_pages pm1) = (pv_items (pm_pages pm))[j := ?i]"
    by (simp add: pm1_def page_map_set_at [OF ok j(1)] pv_set_items)
  have ok1: "page_map_iter_ok pm1" and at1: "addr_at pm1 = addr_at pm" and sp1: "pm_sparse_map pm1 = pm_sparse_map pm"
    using ok by (simp_all add: pm1_def addr_at_cong [OF page_map_set_sparse])
  have tail1: "l < map_len pm1 \<and> info_link (item_at pm1 l) = None" if "tail = Some l" for l
    using tail [OF that] j(1) by (simp add: items1)
  obtain pm' where link: "link_tail pm1 (map_option (addr_at pm) tail) ?a = (Ok pm' :: ('e, _) result)"
    and sp: "pm_sparse_map pm' = pm_sparse_map pm"
    and items: "pv_items (pm_pages pm') = link_item (\<lambda>i. page_addr_bits (addr_at pm i)) tail j ((pv_items (pm_pages pm))[j := ?i])"
    using link_tail_at [OF ok1 _ tail1, where j = j and 'e = 'e] nz unfolding at1 sp1 items1 by blast
  have len': "map_len pm' = map_len pm"
    by (simp add: items)
  have ok': "page_map_iter_ok pm'" and at': "addr_at pm' = addr_at pm"
    using page_map_iter_ok_cong [OF ok sp len'] addr_at_cong [OF sp] by simp_all
  have "tail \<noteq> Some i" if "j \<le> i" for i
    using tail [of i] that by auto
  then have item': "item_at pm' i = (if i = j then ?i else item_at pm i)" if "j \<le> i" for i
    using that j(1) by (simp add: items link_item_other)
  have "find (\<lambda>i. info_is_free (item_at pm' i)) [j..<map_len pm] = find (\<lambda>i. info_is_free (item_at pm i)) [Suc j..<map_len pm]"
    using j(1) item' taken_not_free [of ConvertedLocked] by (intro find_upt_skip) simp_all
  moreover have "get_map_index pm' ?a = Some j"
    using get_map_index_at [OF ok', of j] j(1) len' at' by simp
  ultimately have free: "next_free_page pm' ?a = (Ok (map_option (addr_at pm)
      (find (\<lambda>i. info_is_free (item_at pm i)) [Suc j..<map_len pm])) :: ('e, _) result)"
    by (simp add: next_free_page_eq [OF ok'] at' len')
  have "page_new StConvertedDirty ?a = (Ok \<lparr>page_base = ?a, page_len = Size4k, page_typestate = StConvertedDirty\<rparr> :: ('e, _) result)"
    using addr_at_wf [OF ok j(1)] by (simp add: page_new_def page_new_with_size_def page_addr_wf_def)
  then have "drain_step av mem pm (map_option (addr_at pm) tail) ?a =
      (Ok (\<lparr>hpa_next_page = map_option (addr_at pm) (find (\<lambda>i. info_is_free (item_at pm i)) [Suc j..<map_len pm]),
            hpa_pages = pm'\<rparr>,
          \<lambda>w. if in_bytes (page_addr_bits ?a) 4096 w then 0 else mem w) :: ('e, _) result)"
    using link free page_map_get_at [OF ok j(1)] info_assign_free [OF j(2), of ConvertedLocked av]
    by (simp add: drain_step_def page_clean_def pm1_def)
  then show thesis
    using sp items by (rule that)
qed

lemma free_indices_Some:
  assumes "find (\<lambda>i. info_is_free (item_at pm i)) [k..<map_len pm] = Some j"
  shows "free_indices pm k = j # free_indices pm (Suc j)"
proof -
  have j: "k \<le> j" "j < map_len pm" "info_is_free (item_at pm j)" "\<forall>i. k \<le> i \<and> i < j \<longrightarrow> \<not> info_is_free (item_at pm i)"
    using assms by (auto simp: find_upt_Some)
  then have "[k..<map_len pm] = [k..<j] @ j # [Suc j..<map_len pm]"
    by (metis le_less_trans upt_conv_Cons upt_add_eq_append le_add_diff_inverse less_imp_le)
  then show ?thesis
    using j(3,4) by (simp add: free_indices_def filter_empty_conv)
qed

lemma free_indices_None:
  "find (\<lambda>i. info_is_free (item_at pm i)) [k..<map_len pm] = None \<Longrightarrow> free_indices pm k = []"
  by (auto simp: free_indices_def find_None_iff filter_empty_conv)

lemma free_indices_cong:
  assumes "map_len pm' = map_len pm" and "\<And>i. k \<le> i \<Longrightarrow> item_at pm' i = item_at pm i"
  shows "free_indices pm' k = free_indices pm k"
  using assms by (auto simp: free_indices_def intro!: filter_cong)

text \<open>The loop empties the list of free pages, whatever is left of it.\<close>

lemma drain_loop_at:
  assumes ok: "page_map_iter_ok pm"
    and fresh: "\<forall>j < map_len pm. info_is_free (item_at pm j) \<longrightarrow> addr_nat (addr_at pm j) \<noteq> 0 \<and> info_link (item_at pm j) = None"
    and tail: "\<And>l. tail = Some l \<Longrightarrow> l < k \<and> info_link (item_at pm l) = None \<and> \<not> info_is_free (item_at pm l)"
  shows "\<exists>pm' mem'. drain_loop av mem \<lparr>hpa_next_page = map_option (addr_at pm) (find (\<lambda>i. info_is_free (item_at pm i)) [k..<map_len pm]),
        hpa_pages = pm\<rparr> (map_option (addr_at pm) tail) = (Some (Ok (pm', mem')) :: ('e, _) result option)
    \<and> pm_sparse_map pm' = pm_sparse_map pm
    \<and> pv_items (pm_pages pm') = drained (\<lambda>i. page_addr_bits (addr_at pm i)) tail (free_indices pm k) (pv_items (pm_pages pm))
    \<and> (\<forall>w. mem' w = (if \<exists>j \<in> set (free_indices pm k). in_bytes (page_addr_bits (addr_at pm j)) 4096 w then 0 else mem w))"
  using ok fresh tail
proof (induction "map_len pm - k" arbitrary: pm mem k tail rule: less_induct)
  case less
  show ?case
  proof (cases "find (\<lambda>i. info_is_free (item_at pm i)) [k..<map_len pm]")
    case None
    then show ?thesis
      by (subst drain_loop.simps) (simp add: free_indices_None)
  next
    case (Some j)
    then have j: "k \<le> j" "j < map_len pm" "info_is_free (item_at pm j)"
      by (auto simp: find_upt_Some)
    let ?ad = "\<lambda>i. page_addr_bits (addr_at pm i)"
    let ?mem = "\<lambda>w. if in_bytes (?ad j) 4096 w then 0 else mem w"
    have nz: "addr_nat (addr_at pm j) \<noteq> 0" "info_link (item_at pm j) = None"
      using less.prems(2) j by simp_all
    have tl: "l < j \<and> info_link (item_at pm l) = None" if "tail = Some l" for l
      using less.prems(3) [OF that] j(1) by simp
    obtain pm1 where step: "drain_step av mem pm (map_option (addr_at pm) tail) (addr_at pm j) =
        (Ok (\<lparr>hpa_next_page = map_option (addr_at pm) (find (\<lambda>i. info_is_free (item_at pm i)) [Suc j..<map_len pm]),
              hpa_pages = pm1\<rparr>, ?mem) :: ('e, _) result)"
      and sp: "pm_sparse_map pm1 = pm_sparse_map pm"
      and items: "pv_items (pm_pages pm1) = link_item ?ad tail j ((pv_items (pm_pages pm))[j := taken ConvertedLocked (item_at pm j)])"
      using drain_step_at [OF less.prems(1) j(2,3) nz(1) tl] .
    have len: "map_len pm1 = map_len pm" and at: "addr_at pm1 = addr_at pm"
      using addr_at_cong [OF sp] by (simp_all add: items)
    have ok1: "page_map_iter_ok pm1"
      using page_map_iter_ok_cong [OF less.prems(1) sp len] .
    have ntail: "tail \<noteq> Some i" if "j \<le> i" for i
      using tl [of i] that by auto
    have after: "item_at pm1 i = item_at pm i" if "Suc j \<le> i" for i
      using that ntail [of i] by (simp add: items link_item_other)
    have find1: "find (\<lambda>i. info_is_free (item_at pm1 i)) [Suc j..<map_len pm1] = find (\<lambda>i. info_is_free (item_at pm i)) [Suc j..<map_len pm]"
      unfolding len using after by (intro find_cong) simp_all
    have free1: "free_indices pm1 (Suc j) = free_indices pm (Suc j)"
      using len after by (rule free_indices_cong)
    have j1: "item_at pm1 j = taken ConvertedLocked (item_at pm j)"
      using ntail [of j] j(2) by (simp add: items link_item_other)
    have before: "\<not> info_is_free (item_at pm1 i) \<or> item_at pm1 i = item_at pm i" for i
    proof (cases "tail = Some i")
      case True
      then have "item_at pm1 i = (item_at pm i)\<lparr>info_link := Some (?ad j)\<rparr>"
        using tl [OF True] j(2) by (simp add: items link_item_def)
      with less.prems(3) [OF True] show ?thesis
        by (simp add: info_is_free_def)
    next
      case False
      then show ?thesis
        using j1 taken_not_free [of ConvertedLocked "item_at pm j"]
        by (cases "i = j") (simp_all add: items link_item_other)
    qed
    have fresh1: "\<forall>i < map_len pm1. info_is_free (item_at pm1 i) \<longrightarrow>
        addr_nat (addr_at pm1 i) \<noteq> 0 \<and> info_link (item_at pm1 i) = None"
      using less.prems(2) before unfolding at len by metis
    have tail1: "l < Suc j \<and> info_link (item_at pm1 l) = None \<and> \<not> info_is_free (item_at pm1 l)" if "Some j = Some l" for l
      using that j1 nz(2) taken_not_free [of ConvertedLocked "item_at pm j"] by (simp add: taken_def)
    have lt: "map_len pm1 - Suc j < map_len pm - k"
      using j(1,2) by (simp add: len)
    obtain pm' mem' where rec: "drain_loop av ?mem \<lparr>hpa_next_page = map_option (addr_at pm) (find (\<lambda>i. info_is_free (item_at pm i)) [Suc j..<map_len pm]),
          hpa_pages = pm1\<rparr> (Some (addr_at pm j)) = (Some (Ok (pm', mem')) :: ('e, _) result option)"
      and "pm_sparse_map pm' = pm_sparse_map pm"
      and "pv_items (pm_pages pm') = drained ?ad (Some j) (free_indices pm (Suc j)) (pv_items (pm_pages pm1))"
      and "\<And>w. mem' w = (if \<exists>i \<in> set (free_indices pm (Suc j)). in_bytes (?ad i) 4096 w then 0 else ?mem w)"
      using less.hyps [where k = "Suc j" and mem = ?mem and pm = pm1 and tail = "Some j", OF lt ok1 fresh1 tail1]
      unfolding find1 free1 at sp option.map by blast
    moreover have "drain_loop av mem \<lparr>hpa_next_page = map_option (addr_at pm) (Some j), hpa_pages = pm\<rparr> (map_option (addr_at pm) tail)
        = (Some (Ok (pm', mem')) :: ('e, _) result option)"
      by (subst drain_loop.simps) (simp add: step rec)
    ultimately show ?thesis
      unfolding Some free_indices_Some [OF Some] by (intro exI [of _ pm'] exI [of _ mem']) (simp add: items)
  qed
qed

lemma links_ok_chain:
  assumes "page_map_iter_ok (tracker_pages t)"
    and "links_ok (\<lambda>i. page_addr_bits (addr_at (tracker_pages t) i)) js (pv_items (pm_pages (tracker_pages t)))"
    and "\<forall>j \<in> set js. j < map_len (tracker_pages t)"
  shows "chain t (map (addr_at (tracker_pages t)) js)"
  using assms(2,3)
proof (induction js rule: induct_list012)
  case (2 j)
  then show ?case
    using page_map_get_at [OF assms(1), of j] by (simp add: linked_page_def info_next_def)
next
  case (3 i j js)
  have "info_next (item_at (tracker_pages t) i) = Some (addr_at (tracker_pages t) j)"
    using 3 addr_at_wf [OF assms(1), of j] by (intro info_next_link) simp_all
  then show ?case
    using 3 page_map_get_at [OF assms(1), of i] by (simp add: linked_page_def)
qed simp

lemma chain_from_raw_parts:
  assumes "chain t as" "as \<noteq> []" "distinct (map page_addr_index as)"
    and "\<forall>a \<in> set as. page_map_get (tracker_pages t) a \<noteq> None \<and> page_addr_wf a"
  obtains l where "page_list_from_raw_parts t (hd as) = Some l" and "page_list_rep t l as"
proof -
  obtain a as' where as: "as = a # as'"
    using assms(2) by (cases as) auto
  let ?l = "\<lparr>pl_head = Some a, pl_tail = Some (last as), pl_len = 1 + of_nat (length as')\<rparr>"
  have "page_list_from_raw_parts t (hd as) = Some ?l"
    using follow_links_chain [of t a as' 1] assms(1) by (simp add: page_list_from_raw_parts_def as)
  moreover have "page_list_rep t ?l as"
    using assms by (simp add: page_list_rep_def as)
  ultimately show thesis
    by (rule that)
qed

lemma free_indices_set: "j \<in> set (free_indices pm k) \<longleftrightarrow> k \<le> j \<and> j < map_len pm \<and> info_is_free (item_at pm j)"
  by (auto simp: free_indices_def)

lemma distinct_free_indices: "distinct (free_indices pm k)"
  by (simp add: free_indices_def)

lemma distinct_frames:
  assumes "page_map_iter_ok pm" and "distinct js" and "\<forall>j \<in> set js. j < map_len pm"
  shows "distinct (map page_addr_index (map (addr_at pm) js))"
proof -
  have "inj_on (page_addr_index \<circ> addr_at pm) (set js)"
    using assms addr_at_index [OF assms(1)] nth_eq_iff_index_eq [of "entries_pfns (pm_sparse_map pm)"]
    by (intro inj_onI) (simp add: page_map_iter_ok_def page_map_wf_def)
  then show ?thesis
    using assms(2) by (simp add: distinct_map comp_def)
qed

text \<open>
  The allocator stands at position \<open>k\<close>: its next page is the first free one from there on.
  A free page is fresh when it has no link and is not page 0.
\<close>

definition position_at :: "hyp_page_alloc \<Rightarrow> nat \<Rightarrow> bool" where
  "position_at h k \<longleftrightarrow>
     hpa_next_page h = map_option (addr_at (hpa_pages h))
       (find (\<lambda>i. info_is_free (item_at (hpa_pages h) i)) [k..<map_len (hpa_pages h)])"

definition free_pages_fresh :: "page_map \<Rightarrow> bool" where
  "free_pages_fresh pm \<longleftrightarrow>
     (\<forall>j < map_len pm. info_is_free (item_at pm j) \<longrightarrow>
        addr_nat (addr_at pm j) \<noteq> 0 \<and> info_link (item_at pm j) = None)"

text \<open>
  A page that \<open>drain\<close> has taken: locked for assignment, otherwise as it was, but for its
  link, which keeps the page in order.
\<close>

definition drained_info :: "page_info \<Rightarrow> page_info \<Rightarrow> bool" where
  "drained_info i i' \<longleftrightarrow>
     i' = i\<lparr>info_state := ConvertedLocked, info_link := info_link i'\<rparr> \<and> (info_wf i \<longrightarrow> info_wf i')"

lemma links_ok_in:
  "links_ok ad js items \<Longrightarrow> j \<in> set js \<Longrightarrow> info_link (items ! j) = None \<or> (\<exists>i \<in> set js. info_link (items ! j) = Some (ad i))"
  by (induction ad js items rule: links_ok.induct) auto

lemma drained_link_wf:
  assumes "page_map_iter_ok pm" and "free_pages_fresh pm" and "j \<in> set (free_indices pm k)"
    and "items' = drained (\<lambda>i. page_addr_bits (addr_at pm i)) None (free_indices pm k) (pv_items (pm_pages pm))"
    and "info_link (items' ! j) = Some n"
  shows "n \<noteq> 0 \<and> 4096 dvd unat n"
proof -
  have "links_ok (\<lambda>i. page_addr_bits (addr_at pm i)) (free_indices pm k) items'"
    using assms(2) unfolding assms(4) free_pages_fresh_def
    by (intro drained_links distinct_free_indices) (simp_all add: free_indices_set)
  from links_ok_in [OF this assms(3)] obtain i where i: "i \<in> set (free_indices pm k)" "n = page_addr_bits (addr_at pm i)"
    using assms(5) by auto
  then have "addr_nat (addr_at pm i) \<noteq> 0" "page_addr_wf (addr_at pm i)"
    using assms(1,2) addr_at_wf by (simp_all add: free_indices_set free_pages_fresh_def)
  then show ?thesis
    by (auto simp: i(2) addr_nat_def page_addr_wf_iff)
qed

lemma drain_facts:
  assumes ok: "page_map_iter_ok (hpa_pages h)"
    and fresh: "free_pages_fresh (hpa_pages h)"
    and k: "position_at h k"
    and some: "hpa_next_page h \<noteq> None"
  shows "\<exists>pm' mem'. hyp_drain av mem h = (Some (Ok (pm', the (hpa_next_page h), mem')) :: ('e, _) result option)
    \<and> pm_sparse_map pm' = pm_sparse_map (hpa_pages h) \<and> page_map_iter_ok pm'
    \<and> (\<forall>t. tracker_pages t = pm' \<longrightarrow>
         (\<exists>l. page_list_from_raw_parts t (the (hpa_next_page h)) = Some l
            \<and> page_list_rep t l (map (addr_at (hpa_pages h)) (free_indices (hpa_pages h) k))))
    \<and> (\<forall>j < map_len (hpa_pages h).
         if j \<in> set (free_indices (hpa_pages h) k) then drained_info (item_at (hpa_pages h) j) (item_at pm' j)
         else item_at pm' j = item_at (hpa_pages h) j)
    \<and> (\<forall>w. mem' w = (if \<exists>j \<in> set (free_indices (hpa_pages h) k).
                           in_bytes (page_addr_bits (addr_at (hpa_pages h) j)) 4096 w then 0 else mem w))"
proof -
  let ?pm = "hpa_pages h" and ?js = "free_indices (hpa_pages h) k"
  let ?ad = "\<lambda>i. page_addr_bits (addr_at ?pm i)"
  let ?n = "find (\<lambda>i. info_is_free (item_at ?pm i)) [k..<map_len ?pm]"
  have next_eq: "hpa_next_page h = map_option (addr_at ?pm) ?n"
    using k by (simp add: position_at_def)
  then obtain j where j: "?n = Some j"
    using some by auto
  have js: "?js = j # free_indices ?pm (Suc j)"
    by (rule free_indices_Some [OF j])
  have h: "h = \<lparr>hpa_next_page = map_option (addr_at ?pm) ?n, hpa_pages = ?pm\<rparr>"
    using next_eq by (cases h) simp
  obtain pm' mem' where loop: "drain_loop av mem h None = (Some (Ok (pm', mem')) :: ('e, _) result option)"
    and sp: "pm_sparse_map pm' = pm_sparse_map ?pm"
    and items: "pv_items (pm_pages pm') = drained ?ad None ?js (pv_items (pm_pages ?pm))"
    and mem': "\<And>w. mem' w = (if \<exists>j \<in> set ?js. in_bytes (?ad j) 4096 w then 0 else mem w)"
    using drain_loop_at [OF ok fresh [unfolded free_pages_fresh_def], of None k av mem, where 'e = 'e] unfolding h [symmetric] by auto
  have ok': "page_map_iter_ok pm'" and at: "addr_at pm' = addr_at ?pm" and len: "map_len pm' = map_len ?pm"
    using page_map_iter_ok_cong [OF ok sp] addr_at_cong [OF sp] by (simp_all add: items)
  have in_range: "\<forall>j \<in> set ?js. j < length (pv_items (pm_pages ?pm))"
    by (simp add: free_indices_set)
  have drain: "hyp_drain av mem h = (Some (Ok (pm', the (hpa_next_page h), mem')) :: ('e, _) result option)"
    using some by (auto simp: hyp_drain_def loop)
  have "\<exists>l. page_list_from_raw_parts t (the (hpa_next_page h)) = Some l
      \<and> page_list_rep t l (map (addr_at ?pm) ?js)" if "tracker_pages t = pm'" for t
  proof -
    have links: "links_ok ?ad ?js (pv_items (pm_pages pm'))"
      using fresh unfolding items free_pages_fresh_def
      by (intro drained_links distinct_free_indices) (simp_all add: free_indices_set)
    have "chain t (map (addr_at ?pm) ?js)"
      using links_ok_chain [of t ?js] ok' links in_range by (simp add: that at len)
    moreover have "distinct (map page_addr_index (map (addr_at ?pm) ?js))"
      using distinct_frames [OF ok distinct_free_indices in_range] .
    moreover have "\<forall>a \<in> set (map (addr_at ?pm) ?js). page_map_get (tracker_pages t) a \<noteq> None \<and> page_addr_wf a"
      using page_map_get_at [OF ok'] addr_at_wf [OF ok] in_range by (auto simp: that at len)
    moreover have "map (addr_at ?pm) ?js \<noteq> []" and hd: "hd (map (addr_at ?pm) ?js) = the (hpa_next_page h)"
      by (simp_all add: js next_eq j)
    ultimately obtain l where "page_list_from_raw_parts t (hd (map (addr_at ?pm) ?js)) = Some l"
      "page_list_rep t l (map (addr_at ?pm) ?js)"
      using chain_from_raw_parts [of t "map (addr_at ?pm) ?js"] by blast
    then show ?thesis
      unfolding hd by blast
  qed
  moreover have "if i \<in> set ?js then drained_info (item_at ?pm i) (item_at pm' i) else item_at pm' i = item_at ?pm i" for i
  proof (cases "i \<in> set ?js")
    case True
    define n where "n = info_link (item_at pm' i)"
    have i': "item_at pm' i = (item_at ?pm i)\<lparr>info_state := ConvertedLocked, info_link := n\<rparr>"
      using drained_in [OF distinct_free_indices in_range _ True, of None ?ad] by (simp add: n_def items taken_def)
    moreover have "info_wf (item_at ?pm i) \<longrightarrow> info_wf (item_at pm' i)"
      using drained_link_wf [OF ok fresh True items] unfolding i' by (auto simp: info_wf_def split: option.splits)
    ultimately show ?thesis
      using True by (simp add: drained_info_def)
  qed (simp add: items drained_other)
  ultimately show ?thesis
    using drain sp mem' ok' by (intro exI [of _ pm'] exI [of _ mem']) blast
qed

text \<open>
  C7: draining ends and leaves no free page behind. It takes every free page from the
  allocator's position on, zeroes it, locks it and chains it, in the order of memory,
  into the list that becomes the host's memory; every other page and every other byte
  of memory is as it was.
\<close>

theorem hyp_drain_correct:
  assumes ok: "page_map_iter_ok (hpa_pages h)"
    and fresh: "free_pages_fresh (hpa_pages h)"
    and k: "position_at h k"
    and some: "hpa_next_page h \<noteq> None"
  shows "\<exists>pm' mem'. hyp_drain av mem h = (Some (Ok (pm', the (hpa_next_page h), mem')) :: ('e, _) result option)
    \<and> pm_sparse_map pm' = pm_sparse_map (hpa_pages h) \<and> page_map_iter_ok pm'
    \<and> (\<forall>t. tracker_pages t = pm' \<longrightarrow>
         (\<exists>l. page_list_from_raw_parts t (the (hpa_next_page h)) = Some l
            \<and> page_list_rep t l (map (addr_at (hpa_pages h)) (free_indices (hpa_pages h) k))))
    \<and> (\<forall>j < map_len (hpa_pages h).
         if j \<in> set (free_indices (hpa_pages h) k) then drained_info (item_at (hpa_pages h) j) (item_at pm' j)
         else item_at pm' j = item_at (hpa_pages h) j)
    \<and> (\<forall>w. mem' w = (if \<exists>j \<in> set (free_indices (hpa_pages h) k).
                           in_bytes (page_addr_bits (addr_at (hpa_pages h) j)) 4096 w then 0 else mem w))"
  by (rule drain_facts [OF assms])

section \<open>Witnesses\<close>

definition example_hyp_alloc :: hyp_page_alloc where
  "example_hyp_alloc = \<lparr>hpa_next_page = Some example_frame, hpa_pages = example_page_map\<rparr>"

lemma example_iter_ok: "page_map_iter_ok example_page_map"
  by (simp add: page_map_iter_ok_def page_map_wf_def example_page_map_def entry_pfns_def upt_rec)

lemma example_alloc_simps [simp]:
  "hpa_pages example_hyp_alloc = example_page_map" "hpa_next_page example_hyp_alloc = Some example_frame"
  by (simp_all add: example_hyp_alloc_def)

lemma example_map_get: "page_map_get example_page_map example_frame = Some info_new"
  using example_frame_get(1) by (simp add: example_tracker_def)

lemma example_addr_at: "addr_at example_page_map 0 = example_frame"
  by (simp add: addr_at_def example_page_map_def entry_pfns_def upt_rec example_frame_def)

lemma example_frame_bits: "page_addr_bits example_frame = 0x80000000"
  by (simp add: example_frame_def page_addr_bits_def raw_supervisor_def)

lemma example_items: "pv_items (pm_pages example_page_map) = [info_new, info_new_reserved, info_new_hypervisor_owned]"
  by (simp add: example_page_map_def)

lemma example_free [simp]:
  "info_is_free info_new" "\<not> info_is_free info_new_reserved" "\<not> info_is_free info_new_hypervisor_owned"
  by (simp_all add: info_is_free_def info_new_def info_new_reserved_def info_new_hypervisor_owned_def)

lemma example_suitable: "suitable example_page_map 1 4096 example_frame example_frame"
proof -
  have "page_is_free example_page_map b"
    if "page_addr_wf b" "addr_nat example_frame \<le> addr_nat b" "addr_nat b < addr_nat example_frame + unat (1 :: u64) * 4096" for b
  proof -
    have "addr_nat b = 0x80000000"
      using that by (auto simp: page_addr_wf_iff dvd_def)
    then have "b = example_frame"
      by (simp add: supervisor_addr_eq_iff)
    then show ?thesis
      by (simp add: page_is_free_def example_map_get info_new_def info_is_free_def)
  qed
  then show ?thesis
    by (simp add: suitable_def free_run_def example_map_get example_frame_bits)
qed

theorem alloc_pages_correct_witness:
  "\<exists>r h'. alloc_pages (list_array_vec MAX_PAGE_OWNERS) example_hyp_alloc 1 4096 HypState = (Ok (r, h') :: (unit, _) result)
     \<and> range_base r = example_frame"
proof -
  let ?x = "alloc_pages (list_array_vec MAX_PAGE_OWNERS) example_hyp_alloc 1 4096 HypState :: (unit, _) result"
  have "page_map_sorted example_page_map"
    by (simp add: page_map_sorted_def example_page_map_def entry_pfns_def upt_rec)
  moreover have "\<forall>f \<in> set (entries_pfns (pm_sparse_map example_page_map)). f + unat (1 :: u64) \<le> 2 ^ 44"
    by (simp add: example_page_map_def entry_pfns_def upt_rec)
  ultimately have "alloc_outcome HypState example_page_map 1 4096 example_frame ?x"
    using alloc_pages_correct [of example_hyp_alloc example_frame HypState 1 4096 "list_array_vec MAX_PAGE_OWNERS", where 'e = unit]
    by (simp add: example_iter_ok example_map_get)
  then obtain r h' where x: "?x = Ok (r, h')" and "suitable example_page_map 1 4096 example_frame (range_base r)"
    and "addr_nat (range_base r) \<le> addr_nat example_frame"
    using example_suitable by (cases ?x) (auto simp: alloc_outcome_def)
  then have "addr_nat (range_base r) = addr_nat example_frame"
    by (simp add: suitable_def)
  with x show ?thesis
    by (simp add: supervisor_addr_eq_iff)
qed

theorem hyp_drain_correct_witness:
  "\<exists>pm' mem'. hyp_drain (list_array_vec MAX_PAGE_OWNERS) (\<lambda>w. 7) example_hyp_alloc
       = (Some (Ok (pm', example_frame, mem')) :: (unit, _) result option) \<and> mem' 0x80000008 = 0 \<and> mem' 0x90000000 = 7"
proof -
  have js: "free_indices example_page_map 0 = [0]"
    by (simp add: free_indices_def example_items upt_rec)
  have "position_at example_hyp_alloc 0"
    by (simp add: position_at_def example_items upt_rec example_addr_at)
  moreover have "free_pages_fresh example_page_map"
    unfolding free_pages_fresh_def
    by (auto simp: example_items less_Suc_eq example_addr_at info_new_def)
  ultimately show ?thesis
    using hyp_drain_correct [of example_hyp_alloc 0 "list_array_vec MAX_PAGE_OWNERS" "\<lambda>w. 7", where 'e = unit]
    by (auto simp: example_iter_ok js example_addr_at in_bytes_def example_frame_bits)
qed

text \<open>
  A run of pages that ends where its stretch of memory ends moves the allocator past
  everything: the address after the run is in no entry of the map, the search for the
  next free page starts nowhere, and the memory behind the gap is never handed out.
\<close>

lemma next_free_page_after_gap:
  "(next_free_page (example_page_map\<lparr>pm_pages := (pm_pages example_page_map)\<lparr>pv_items := [info_new_reserved, info_new_reserved, info_new]\<rparr>\<rparr>)
      (PageAddr (raw_supervisor 0x80002000)) :: (unit, _) result) = Ok None"
proof -
  have idx: "page_addr_index (PageAddr (raw_supervisor 0x80002000)) = 0x80002"
    by (simp add: page_addr_index_eq raw_supervisor_def)
  show ?thesis
    by (simp add: next_free_page_def page_map_search_def page_map_iter_new_def idx example_page_map_def entry_covers_def)
qed

end
