(* ===== verification/Boot_Properties.thy ===== *)
theory Boot_Properties
  imports Hyp_Page_Alloc
begin

text \<open>
  From the boot allocator to the running page tracker: every operation of the allocator
  keeps its invariant, \<open>PageTracker::from\<close> always returns, and what it returns is a
  tracker in order with the host's memory as a list of clean, locked pages.
\<close>

section \<open>The invariant of the allocator\<close>

definition hpa_inv :: "hyp_page_alloc \<Rightarrow> bool" where
  "hpa_inv h \<longleftrightarrow>
     page_map_iter_ok (hpa_pages h) \<and> free_pages_fresh (hpa_pages h)
   \<and> (\<forall>j < map_len (hpa_pages h). info_wf (item_at (hpa_pages h) j))
   \<and> (\<exists>k. position_at h k)"

text \<open>How an operation may change the pages: free pages stay or are taken, nothing becomes free.\<close>

definition pages_step :: "page_map \<Rightarrow> page_map \<Rightarrow> bool" where
  "pages_step pm pm' \<longleftrightarrow>
     pm_sparse_map pm' = pm_sparse_map pm \<and> map_len pm' = map_len pm
   \<and> (\<forall>j < map_len pm. info_wf (item_at pm j) \<longrightarrow> info_wf (item_at pm' j))
   \<and> (\<forall>j < map_len pm. info_is_free (item_at pm' j) \<longrightarrow> item_at pm' j = item_at pm j)"

lemma pages_step_refl: "pages_step pm pm"
  by (simp add: pages_step_def)

lemma pages_step_trans: "pages_step pm pm' \<Longrightarrow> pages_step pm' pm'' \<Longrightarrow> pages_step pm pm''"
  by (simp add: pages_step_def)

lemma hpa_inv_step:
  assumes "hpa_inv h" and "pages_step (hpa_pages h) pm"
    and "n = map_option (addr_at pm) (find (\<lambda>i. info_is_free (item_at pm i)) [k..<map_len pm])"
  shows "hpa_inv \<lparr>hpa_next_page = n, hpa_pages = pm\<rparr>"
proof -
  have step: "pm_sparse_map pm = pm_sparse_map (hpa_pages h)" "map_len pm = map_len (hpa_pages h)"
    using assms(2) by (simp_all add: pages_step_def)
  have "page_map_iter_ok pm"
    using page_map_iter_ok_cong [OF _ step] assms(1) by (simp add: hpa_inv_def)
  moreover have "free_pages_fresh pm"
    using assms(1,2) addr_at_cong [OF step(1)] unfolding free_pages_fresh_def hpa_inv_def pages_step_def by metis
  ultimately show ?thesis
    using assms by (auto simp: hpa_inv_def pages_step_def position_at_def)
qed

lemma next_free_position:
  assumes "page_map_iter_ok pm" and "next_free_page pm a = (Ok n :: ('e, _) result)"
  obtains k where "n = map_option (addr_at pm) (find (\<lambda>i. info_is_free (item_at pm i)) [k..<map_len pm])"
proof (cases "get_map_index pm a")
  case None
  then show thesis
    using that [of "map_len pm"] assms(2) by (simp add: next_free_page_eq [OF assms(1)])
next
  case (Some k)
  then show thesis
    using that [of k] assms(2) by (simp add: next_free_page_eq [OF assms(1)])
qed

lemma taken_wf: "info_is_free i \<Longrightarrow> info_wf i \<Longrightarrow> st \<in> {ConvertedLocked, HypState} \<Longrightarrow> info_wf (taken st i)"
  by (auto simp: info_wf_def taken_def info_is_free_def)

lemma assign_free_pages_step:
  assumes ok: "page_map_iter_ok pm" and st: "st \<in> {ConvertedLocked, HypState}"
    and run: "assign_free_pages av st as pm = (Ok pm' :: ('e, _) result)"
  shows "pages_step pm pm'"
proof -
  have wf: "page_map_wf pm"
    using ok by (simp add: page_map_iter_ok_def)
  obtain pm'' where "assign_free_pages av st as pm = (Ok pm'' :: ('e, _) result)"
    and sp: "pm_sparse_map pm'' = pm_sparse_map pm" and wf': "page_map_wf pm''"
    and get: "\<And>b. page_map_get pm'' b = map_option (\<lambda>i. if info_is_free i \<and> page_addr_index b \<in> page_addr_index ` set as
                                            then taken st i else i) (page_map_get pm b)"
    using assign_free_pages_Ok [OF wf st, of av as, where 'e = 'e] by blast
  with run have [simp]: "pm'' = pm'"
    by simp
  have len: "map_len pm' = map_len pm"
    using wf wf' sp by (simp add: page_map_wf_def)
  have ok': "page_map_iter_ok pm'" and at: "addr_at pm' = addr_at pm"
    using page_map_iter_ok_cong [OF ok _ len] addr_at_cong [of pm' pm] sp by simp_all
  have item: "item_at pm' j = (if info_is_free (item_at pm j) \<and> page_addr_index (addr_at pm j) \<in> page_addr_index ` set as
      then taken st (item_at pm j) else item_at pm j)" if "j < map_len pm" for j
    using get [of "addr_at pm j"] page_map_get_at [OF ok that] page_map_get_at [OF ok', of j] that by (simp add: len at)
  show ?thesis
    using sp len taken_wf [OF _ _ st] taken_not_free [OF st] by (simp add: pages_step_def item)
qed

lemma alloc_pages_inv:
  assumes "hpa_inv h" and "st \<in> {ConvertedLocked, HypState}"
    and "alloc_pages av h count align st = (Ok (r, h') :: ('e, _) result)"
  shows "hpa_inv h'"
proof -
  obtain a n pm as where run: "assign_free_pages av st as (hpa_pages h) = (Ok pm :: ('e, _) result)"
    and n: "next_free_page pm a = (Ok n :: ('e, _) result)" and h': "h' = \<lparr>hpa_next_page = n, hpa_pages = pm\<rparr>"
    using assms(3) by (auto simp: alloc_pages_def result_simps)
  have step: "pages_step (hpa_pages h) pm"
    using assign_free_pages_step [OF _ assms(2) run] assms(1) by (simp add: hpa_inv_def)
  then have "page_map_iter_ok pm"
    using page_map_iter_ok_cong [of "hpa_pages h" pm] assms(1) by (simp add: hpa_inv_def pages_step_def)
  from next_free_position [OF this n] show ?thesis
    using hpa_inv_step [OF assms(1) step] h' by metis
qed

lemma info_assign_host:
  assumes "array_vec_ok MAX_PAGE_OWNERS av" and "info_assign av owner_host VmState i = (Ok (), i')"
  shows "(info_wf i \<longrightarrow> info_wf i') \<and> \<not> info_is_free i \<and> \<not> info_is_free i'"
  using assms op_assign.keeps_wf [OF assms(1), of i owner_host VmState]
  by (auto simp: info_assign_def info_is_free_def split: page_state.splits option.splits if_splits)

lemma assign_host_pages_step:
  assumes av: "array_vec_ok MAX_PAGE_OWNERS av"
    and "page_map_iter_ok pm" and "assign_host_pages av ps pm = (Ok (qs, pm') :: ('e, _) result)"
  shows "pages_step pm pm' \<and> (\<forall>j < map_len pm. info_is_free (item_at pm' j) = info_is_free (item_at pm j))"
  using assms(2,3)
proof (induction ps arbitrary: pm qs)
  case Nil
  then show ?case by (simp add: pages_step_refl)
next
  case (Cons p ps)
  let ?a = "page_base p"
  obtain i where get: "page_map_get pm ?a = Some i"
    using Cons.prems(2) by (cases "page_map_get pm ?a") simp_all
  obtain r i' where assign: "info_assign av owner_host VmState i = (r, i')"
    by (cases "info_assign av owner_host VmState i")
  obtain qs' where i: "page_map_get pm ?a = Some i" "info_assign av owner_host VmState i = (Ok (), i')"
    and rest: "assign_host_pages av ps (page_map_set pm ?a i') = (Ok (qs', pm') :: ('e, _) result)"
    using Cons.prems(2) by (cases r) (auto simp: get assign result_simps)
  let ?pm = "page_map_set pm ?a i'"
  have ok: "page_map_iter_ok ?pm"
    using Cons.prems(1) by simp
  obtain k where k: "get_map_index pm ?a = Some k" "k < map_len pm" "item_at pm k = i"
    using i(1) by (cases "get_map_index pm ?a") (auto simp: page_map_get_def pv_get_def split: if_splits)
  have item: "pv_items (pm_pages ?pm) = (pv_items (pm_pages pm))[k := i']"
    using k(1) by (simp add: page_map_set_def pv_set_items)
  note host = info_assign_host [OF av i(2)]
  have "pages_step pm ?pm \<and> (\<forall>j < map_len pm. info_is_free (item_at ?pm j) = info_is_free (item_at pm j))"
    using k host by (auto simp: pages_step_def item nth_list_update)
  then show ?case
    using Cons.IH [OF ok rest] pages_step_trans [of pm ?pm pm'] by (simp add: item)
qed

lemma take_pages_inv:
  assumes "hpa_inv h" and "take_pages av mem h count align = (Ok (sq, h', mem') :: ('e, _) result)"
  shows "hpa_inv h'"
proof -
  obtain r where "alloc_pages av h count align ConvertedLocked = (Ok (r, h') :: ('e, _) result)"
    using assms(2) by (auto simp: take_pages_def result_simps)
  then show ?thesis
    using alloc_pages_inv [OF assms(1)] by blast
qed

lemma hyp_pages_inv:
  assumes "hpa_inv h" and "take_pages_for_hyp_state av mem h count = (Ok (sq, h', mem') :: ('e, _) result)"
  shows "hpa_inv h'"
proof -
  obtain r where "alloc_pages av h count (page_size_bytes Size4k) HypState = (Ok (r, h') :: ('e, _) result)"
    using assms(2) by (auto simp: take_pages_for_hyp_state_def result_simps)
  then show ?thesis
    using alloc_pages_inv [OF assms(1)] by blast
qed

lemma host_pages_inv:
  assumes av: "array_vec_ok MAX_PAGE_OWNERS av" and "hpa_inv h"
    and "take_pages_for_host_state_with_alignment av mem h count align = (Ok (sq, h', mem') :: ('e, _) result)"
  shows "hpa_inv h'"
proof -
  obtain sq1 h1 ps qs pm where h1: "take_pages av mem h count align = (Ok (sq1, h1, mem') :: ('e, _) result)"
    and run: "assign_host_pages av ps (hpa_pages h1) = (Ok (qs, pm) :: ('e, _) result)"
    and h': "h' = h1\<lparr>hpa_pages := pm\<rparr>"
    using assms(3) by (auto simp: take_pages_for_host_state_with_alignment_def result_simps)
  have inv: "hpa_inv h1"
    by (rule take_pages_inv [OF assms(2) h1])
  then obtain k where ok: "page_map_iter_ok (hpa_pages h1)" and k: "position_at h1 k"
    by (auto simp: hpa_inv_def)
  have step: "pages_step (hpa_pages h1) pm"
    and free: "\<forall>j < map_len (hpa_pages h1). info_is_free (item_at pm j) = info_is_free (item_at (hpa_pages h1) j)"
    using assign_host_pages_step [OF av ok run] by simp_all
  have sp: "pm_sparse_map pm = pm_sparse_map (hpa_pages h1)" "map_len pm = map_len (hpa_pages h1)"
    using step by (simp_all add: pages_step_def)
  have "find (\<lambda>i. info_is_free (item_at pm i)) [k..<map_len pm]
      = find (\<lambda>i. info_is_free (item_at (hpa_pages h1) i)) [k..<map_len pm]"
    using free sp(2) by (intro find_cong) simp_all
  then have "hpa_next_page h1 = map_option (addr_at pm) (find (\<lambda>i. info_is_free (item_at pm i)) [k..<map_len pm])"
    using k addr_at_cong [OF sp(1)] sp(2) by (simp add: position_at_def)
  from hpa_inv_step [OF inv step this] show ?thesis
    unfolding h' by (cases h1) simp
qed

lemma tracker_pages_setup_inv:
  assumes "array_vec_ok MAX_PAGE_OWNERS av" and "hpa_inv h"
    and "tracker_pages_setup av mem h al = (Ok (guests, h', mem') :: ('e, _) result)"
  shows "hpa_inv h' \<and> pv_items guests = [owner_host] \<and> 1 \<le> pv_capacity guests"
proof -
  obtain sq1 h1 mem1 sq2 h2 mem2 sq3 where
    h1: "take_pages_for_host_state av mem h 2 = (Ok (sq1, h1, mem1) :: ('e, _) result)"
    and g: "pv_push (pv_from_pages 8 sq1) owner_host = (Ok guests :: ('e, _) result)"
    and h2: "take_pages_for_host_state av mem1 h1 1 = (Ok (sq2, h2, mem2) :: ('e, _) result)"
    and h3: "take_pages av mem2 h2 (al div page_size_bytes Size4k) al = (Ok (sq3, h', mem') :: ('e, _) result)"
    using assms(3) by (auto simp: tracker_pages_setup_def result_simps)
  have "hpa_inv h'"
    using take_pages_inv [OF host_pages_inv [OF assms(1) host_pages_inv [OF assms(1,2)
        h1 [unfolded take_pages_for_host_state_def]] h2 [unfolded take_pages_for_host_state_def]] h3] .
  then show ?thesis
    using g by (auto simp: pv_push_def pv_from_pages_def split: if_splits)
qed

section \<open>No operation of the allocator returns an error\<close>

lemma page_map_iter_next_infallible [simp]: "infallible (page_map_iter_next pm it :: ('e, _) result)"
  by (auto simp: page_map_iter_next_def Let_def intro!: infallible_intros)

lemma page_map_find_infallible:
  "(\<And>x. infallible (f x)) \<Longrightarrow> infallible (page_map_find f pm it :: ('e, _) result)"
proof (induction f pm it rule: page_map_find.induct)
  case (1 f pm it)
  show ?case
  proof (cases "page_map_iter_next pm it :: ('e, _) result")
    case (Ok r)
    show ?thesis
    proof (cases r)
      case (Some y)
      obtain x it' where y: "y = (x, it')"
        by (cases y)
      have "infallible (page_map_find f pm it')" if "f x = Ok False"
        using 1(1) [OF Ok Some y [symmetric] that _ 1(2)] by simp
      then show ?thesis
        using Ok Some y 1(2) [of x] by (subst page_map_find.simps) (cases "f x"; simp)
    qed (use Ok in \<open>simp add: page_map_find.simps [of f pm it]\<close>)
  qed (use page_map_iter_next_infallible [of pm it, where 'e = 'e] in \<open>auto simp: page_map_find.simps [of f pm it]\<close>)
qed

lemma page_map_search_infallible [infallible_intros]:
  "(\<And>x. infallible (f x)) \<Longrightarrow> infallible (page_map_search f pm a)"
  by (simp add: page_map_search_def page_map_find_infallible split: option.split)

lemma next_free_page_infallible [simp]: "infallible (next_free_page pm a)"
  by (auto simp: next_free_page_def intro!: infallible_intros)

lemma page_addr_iter_from_infallible [simp]: "infallible (page_addr_iter_from a)"
  by (simp add: page_addr_iter_from_def)

lemma range_infallible [simp]: "infallible (range_is_free_and_aligned pm count align a)"
  by (auto simp: range_is_free_and_aligned_def intro!: infallible_intros)

lemma assign_free_pages_infallible [simp]: "infallible (assign_free_pages av st as pm)"
  by (induction av st as pm rule: assign_free_pages.induct) (auto split: option.splits prod.splits result.splits)

lemma alloc_pages_infallible [simp]: "infallible (alloc_pages av h count align st)"
  unfolding alloc_pages_def by (intro infallible_intros) (auto intro!: infallible_intros)

lemma seq_iter_next_infallible [simp]: "infallible (seq_iter_next sq :: ('e, _) result)"
  by (auto simp: seq_iter_next_def page_new_with_size_def intro!: infallible_intros split: option.splits)

lemma seq_into_list_infallible [simp]: "infallible (seq_into_list sq :: ('e, _) result)"
proof (induction sq rule: seq_into_list.induct [where 'a = 'e])
  case (1 sq)
  have "seq_iter_next sq \<noteq> (Err e :: ('e, _) result)" for e
    using seq_iter_next_infallible [of sq, where 'e = 'e] unfolding infallible_def by blast
  then show ?case
    using 1 by (auto simp: seq_into_list.simps [of sq] intro!: infallible_intros split: result.split option.split)
qed

lemma seq_clean_infallible [simp]: "infallible (seq_clean mem sq)"
  by (auto simp: seq_clean_def intro!: infallible_intros split: option.splits)

lemma clean_range_infallible [simp]: "infallible (clean_range st mem r)"
  by (auto simp: clean_range_def intro!: infallible_intros)

lemma take_pages_infallible [simp]: "infallible (take_pages av mem h count align)"
  by (auto simp: take_pages_def intro!: infallible_intros)

lemma page_new_infallible [simp]: "infallible (page_new st a)"
  by (simp add: page_new_def page_new_with_size_def)

lemma assign_host_pages_infallible [simp]: "infallible (assign_host_pages av ps pm)"
  by (induction ps arbitrary: pm) (auto intro!: infallible_intros split: prod.splits result.splits)

lemma host_pages_infallible [simp]:
  "infallible (take_pages_for_host_state_with_alignment av mem h count align)"
  "infallible (take_pages_for_host_state av mem h count)"
  by (auto simp: take_pages_for_host_state_with_alignment_def take_pages_for_host_state_def intro!: infallible_intros)

lemma setup_infallible [simp]: "infallible (tracker_pages_setup av mem h al :: ('e, _) result)"
  by (auto simp: tracker_pages_setup_def pv_push_def intro!: infallible_intros)

section \<open>The page tracker at boot\<close>

lemma hyp_drain_None:
  assumes "hpa_next_page h = None"
  shows "hyp_drain av mem h = (Some Panic :: ('e, _) result option)"
  by (simp add: hyp_drain_def drain_loop.simps [of av mem h] assms)

text \<open>What the host's memory looks like when the hypervisor starts running.\<close>

definition boot_memory_ok :: "page_tracker \<Rightarrow> page_list \<Rightarrow> mem \<Rightarrow> bool" where
  "boot_memory_ok t l mem \<longleftrightarrow>
     (\<exists>as. as \<noteq> [] \<and> page_list_rep t l as
       \<and> (\<forall>a \<in> set as. page_locked t a \<and> is_owned t a owner_hypervisor
            \<and> (\<forall>w. in_bytes (page_addr_bits a) 4096 w \<longrightarrow> mem w = 0)))"

lemma drained_info_state:
  assumes "drained_info i i'"
  shows "info_state i' = ConvertedLocked \<and> info_owners i' = info_owners i"
proof -
  obtain n where "i' = i\<lparr>info_state := ConvertedLocked, info_link := n\<rparr>"
    using assms unfolding drained_info_def by blast
  then show ?thesis by simp
qed

lemma drained_tracker:
  assumes inv: "hpa_inv h" and some: "hpa_next_page h \<noteq> None"
    and g: "pv_items guests = [owner_host]" "1 \<le> pv_capacity guests"
  obtains pm mem' l where "hyp_drain av mem h = (Some (Ok (pm, the (hpa_next_page h), mem')) :: ('e, _) result option)"
    and "page_list_from_raw_parts \<lparr>next_owner_id = 2, active_guests = guests, tracker_pages = pm\<rparr> (the (hpa_next_page h)) = Some l"
    and "tracker_wf \<lparr>next_owner_id = 2, active_guests = guests, tracker_pages = pm\<rparr>"
    and "boot_memory_ok \<lparr>next_owner_id = 2, active_guests = guests, tracker_pages = pm\<rparr> l mem'"
proof -
  let ?pm = "hpa_pages h"
  obtain k where ok: "page_map_iter_ok ?pm" and fresh: "free_pages_fresh ?pm"
    and wf: "\<forall>j < map_len ?pm. info_wf (item_at ?pm j)" and k: "position_at h k"
    using inv by (auto simp: hpa_inv_def)
  let ?js = "free_indices ?pm k"
  obtain pm mem' where drain: "hyp_drain av mem h = (Some (Ok (pm, the (hpa_next_page h), mem')) :: ('e, _) result option)"
    and sp: "pm_sparse_map pm = pm_sparse_map ?pm" and ok': "page_map_iter_ok pm"
    and list: "\<And>t. tracker_pages t = pm \<Longrightarrow> \<exists>l. page_list_from_raw_parts t (the (hpa_next_page h)) = Some l
              \<and> page_list_rep t l (map (addr_at ?pm) ?js)"
    and items: "\<And>j. j < map_len ?pm \<Longrightarrow> if j \<in> set ?js then drained_info (item_at ?pm j) (item_at pm j)
              else item_at pm j = item_at ?pm j"
    and mem': "\<And>w. mem' w = (if \<exists>j \<in> set ?js. in_bytes (page_addr_bits (addr_at ?pm j)) 4096 w then 0 else mem w)"
    using drain_facts [OF ok fresh k some, of av mem, where 'e = 'e] by blast
  define t where "t = \<lparr>next_owner_id = 2, active_guests = guests, tracker_pages = pm\<rparr>"
  have t: "tracker_pages t = pm"
    by (simp add: t_def)
  obtain l where l: "page_list_from_raw_parts t (the (hpa_next_page h)) = Some l"
    "page_list_rep t l (map (addr_at ?pm) ?js)"
    using list [OF t] by blast
  have len: "map_len pm = map_len ?pm"
    using ok ok' sp by (simp add: page_map_iter_ok_def page_map_wf_def)
  have at: "addr_at pm = addr_at ?pm"
    by (rule addr_at_cong [OF sp])
  have "info_wf info" if get: "page_map_get pm a = Some info" for a info
  proof -
    obtain j where "j < map_len pm" "info = item_at pm j"
      using get by (auto simp: page_map_get_def pv_get_def split: Option.bind_splits if_splits)
    then show ?thesis
      using items [of j] wf len by (auto simp: drained_info_def split: if_splits)
  qed
  then have wf': "tracker_wf t"
    using ok' g by (simp add: tracker_wf_def t_def page_map_iter_ok_def owner_host_def owner_hypervisor_def
        HOST_def HYPERVISOR_def)
  have "page_locked t (addr_at ?pm j) \<and> is_owned t (addr_at ?pm j) owner_hypervisor
      \<and> (\<forall>w. in_bytes (page_addr_bits (addr_at ?pm j)) 4096 w \<longrightarrow> mem' w = 0)" if "j \<in> set ?js" for j
  proof -
    have j: "j < map_len ?pm" "info_is_free (item_at ?pm j)"
      using that by (simp_all add: free_indices_set)
    then have "info_owners (item_at ?pm j) = []"
      using wf by (auto simp: info_wf_def info_is_free_def)
    moreover have "page_map_get pm (addr_at ?pm j) = Some (item_at pm j)"
      using page_map_get_at [OF ok', of j] j(1) by (simp add: at len)
    moreover have "drained_info (item_at ?pm j) (item_at pm j)"
      using items [OF j(1)] that by simp
    ultimately show ?thesis
      using that drained_info_state by (auto simp: page_locked_def tracker_check_def is_owned_def t mem' info_owner_def)
  qed
  moreover have "?js \<noteq> []"
    using some k free_indices_Some [of ?pm k] by (auto simp: position_at_def)
  ultimately have "boot_memory_ok t l mem'"
    using l(2) unfolding boot_memory_ok_def by (intro exI [of _ "map (addr_at ?pm) ?js"]) simp
  with wf' show thesis
    using drain l(1) unfolding t_def by (intro that)
qed


lemma example_hpa_inv: "hpa_inv example_hyp_alloc"
proof -
  have "position_at example_hyp_alloc 0"
    by (simp add: position_at_def example_items upt_rec example_addr_at)
  moreover have "free_pages_fresh example_page_map"
    unfolding free_pages_fresh_def by (auto simp: example_items less_Suc_eq example_addr_at info_new_def)
  moreover have "\<forall>j < map_len example_page_map. info_wf (item_at example_page_map j)"
    by (simp add: example_items less_Suc_eq all_conj_distrib)
  ultimately show ?thesis
    by (auto simp: hpa_inv_def example_iter_ok)
qed


end
