(* ===== verification/Pte.thy ===== *)
theory Pte
  imports Riscv_Pages
begin

text \<open>
  Page table entries (\<open>riscv-page-tables/src/pte.rs\<close>): a 64-bit word with status bits,
  two of the software bits used as a lock, and a 44-bit frame number from bit 10 on.
\<close>

definition PTE_PFN_BITS :: nat where "PTE_PFN_BITS = 44"

definition PTE_PFN_MASK :: u64 where "PTE_PFN_MASK = push_bit PTE_PFN_BITS 1 - 1"

definition PTE_PFN_SHIFT :: nat where "PTE_PFN_SHIFT = 10"

datatype pte_field_bit =
    PteValid | PteRead | PteWrite | PteExecute | PteUser | PteGlobal | PteAccessed | PteDirty | PteLockedBit

fun pte_bit_shift :: "pte_field_bit \<Rightarrow> nat" where
  "pte_bit_shift PteValid = 0"
| "pte_bit_shift PteRead = 1"
| "pte_bit_shift PteWrite = 2"
| "pte_bit_shift PteExecute = 3"
| "pte_bit_shift PteUser = 4"
| "pte_bit_shift PteGlobal = 5"
| "pte_bit_shift PteAccessed = 6"
| "pte_bit_shift PteDirty = 7"
| "pte_bit_shift PteLockedBit = 8"

definition pte_bit_mask :: "pte_field_bit \<Rightarrow> u64" where
  "pte_bit_mask b = push_bit (pte_bit_shift b) 1"

definition pte_bit_is_set :: "pte_field_bit \<Rightarrow> u64 \<Rightarrow> bool" where
  "pte_bit_is_set b val \<longleftrightarrow> val AND pte_bit_mask b \<noteq> 0"

datatype pte_leaf_perms = PermR | PermRW | PermX | PermRX | PermRWX | PermURX | PermUR | PermURW

fun pte_perm_bits :: "pte_leaf_perms \<Rightarrow> u64" where
  "pte_perm_bits PermR = pte_bit_mask PteRead"
| "pte_perm_bits PermRW = pte_bit_mask PteRead OR pte_bit_mask PteWrite"
| "pte_perm_bits PermX = pte_bit_mask PteExecute"
| "pte_perm_bits PermRX = pte_bit_mask PteRead OR pte_bit_mask PteExecute"
| "pte_perm_bits PermRWX = pte_bit_mask PteRead OR pte_bit_mask PteWrite OR pte_bit_mask PteExecute"
| "pte_perm_bits PermURX = pte_bit_mask PteUser OR pte_bit_mask PteRead OR pte_bit_mask PteExecute"
| "pte_perm_bits PermUR = pte_bit_mask PteUser OR pte_bit_mask PteRead"
| "pte_perm_bits PermURW = pte_bit_mask PteUser OR pte_bit_mask PteRead OR pte_bit_mask PteWrite"

definition MASK_RWX :: u64 where
  "MASK_RWX = push_bit (pte_bit_shift PteRead) 1 OR push_bit (pte_bit_shift PteWrite) 1
              OR push_bit (pte_bit_shift PteExecute) 1"

section \<open>Operations on an entry\<close>

definition pte_set :: "supervisor_phys pfn \<Rightarrow> u64 \<Rightarrow> u64" where
  "pte_set p status = push_bit PTE_PFN_SHIFT (pfn_bits p) OR status OR pte_bit_mask PteValid"

definition pte_pfn :: "u64 \<Rightarrow> supervisor_phys pfn" where
  "pte_pfn pte = pfn_supervisor (drop_bit PTE_PFN_SHIFT pte AND PTE_PFN_MASK)"

definition pte_update_pfn :: "u64 \<Rightarrow> supervisor_phys pfn \<Rightarrow> supervisor_phys pfn \<times> u64" where
  "pte_update_pfn pte p =
     (pfn_supervisor (drop_bit PTE_PFN_SHIFT pte AND PTE_PFN_MASK),
      (pte AND NOT (push_bit PTE_PFN_SHIFT PTE_PFN_MASK)) OR push_bit PTE_PFN_SHIFT (pfn_bits p))"

definition pte_valid :: "u64 \<Rightarrow> bool" where
  "pte_valid pte = pte_bit_is_set PteValid pte"

definition pte_invalidate :: "u64 \<Rightarrow> u64" where
  "pte_invalidate pte = pte AND NOT (pte_bit_mask PteValid)"

definition pte_mark_valid :: "u64 \<Rightarrow> u64" where
  "pte_mark_valid pte = pte OR pte_bit_mask PteValid"

definition pte_locked :: "u64 \<Rightarrow> bool" where
  "pte_locked pte = pte_bit_is_set PteLockedBit pte"

definition pte_lock :: "u64 \<Rightarrow> u64" where
  "pte_lock pte = pte OR pte_bit_mask PteLockedBit"

definition pte_unlock :: "u64 \<Rightarrow> u64" where
  "pte_unlock pte = pte AND NOT (pte_bit_mask PteLockedBit)"

definition pte_clear :: "u64 \<Rightarrow> u64" where
  "pte_clear pte = 0"

definition pte_leaf :: "u64 \<Rightarrow> bool" where
  "pte_leaf pte \<longleftrightarrow> pte AND MASK_RWX \<noteq> 0"

section \<open>Status bits\<close>

definition field_set_bit :: "u64 \<Rightarrow> pte_field_bit \<Rightarrow> u64" where
  "field_set_bit bits b = bits OR push_bit (pte_bit_shift b) 1"

definition field_clear_bit :: "u64 \<Rightarrow> pte_field_bit \<Rightarrow> u64" where
  "field_clear_bit bits b = bits AND NOT (push_bit (pte_bit_shift b) 1)"

definition leaf_with_perms :: "pte_leaf_perms \<Rightarrow> u64" where
  "leaf_with_perms perms = 0 OR pte_perm_bits perms"

definition user_leaf_with_perms :: "pte_leaf_perms \<Rightarrow> u64" where
  "user_leaf_with_perms perms = field_set_bit (0 OR pte_perm_bits perms) PteUser"

definition non_leaf :: u64 where
  "non_leaf = 0"

section \<open>Entries bit by bit\<close>

named_theorems pte_bits \<open>entries as their bits\<close>

lemma bit_and_mask: "(x AND push_bit n 1 \<noteq> 0) = bit (x :: u64) n" if "n < 64"
proof
  assume "x AND push_bit n 1 \<noteq> 0"
  then obtain i where "bit (x AND push_bit n 1) i"
    using bit_eqI [of "x AND push_bit n 1" 0] by auto
  then show "bit x n"
    by (auto simp: bit_simps)
next
  assume "bit x n"
  then have "bit (x AND push_bit n 1) n"
    using that by (simp add: bit_simps)
  then show "x AND push_bit n 1 \<noteq> 0"
    by auto
qed

lemma pte_bit_is_set_bit [pte_bits]: "pte_bit_is_set b x = bit x (pte_bit_shift b)"
  unfolding pte_bit_is_set_def pte_bit_mask_def by (rule bit_and_mask) (cases b; simp)

lemma pte_valid_bit [pte_bits]: "pte_valid x = bit x 0"
  by (simp add: pte_valid_def pte_bits)

lemma pte_locked_bit [pte_bits]: "pte_locked x = bit x 8"
  by (simp add: pte_locked_def pte_bits)

lemma bit_push_one: "bit (push_bit k 1 :: u64) n = (n = k)" if "k < 64"
  using that by (auto simp: bit_push_bit_iff bit_1_iff simp del: push_bit_of_1 push_bit_numeral)

lemma pte_bit_shift_less [simp]: "pte_bit_shift b < 64"
  by (cases b) simp_all

lemma pte_mask_bit [pte_bits]: "bit (pte_bit_mask b) n = (n = pte_bit_shift b)"
  unfolding pte_bit_mask_def by (rule bit_push_one) simp

lemma pte_leaf_bit [pte_bits]: "pte_leaf x = (bit x 1 \<or> bit x 2 \<or> bit x 3)"
proof -
  have "pte_leaf x = (x AND push_bit 1 1 \<noteq> 0 \<or> x AND push_bit 2 1 \<noteq> 0 \<or> x AND push_bit 3 1 \<noteq> 0)"
    by (simp only: pte_leaf_def MASK_RWX_def pte_bit_shift.simps bit.conj_disj_distrib or_eq_0_iff) blast
  then show ?thesis
    by (simp only: bit_and_mask)
qed

lemma pfn_mask_bit [pte_bits]: "bit PTE_PFN_MASK n = (n < 44)"
proof -
  have "PTE_PFN_MASK = mask 44"
    by (simp add: PTE_PFN_MASK_def PTE_PFN_BITS_def mask_eq_exp_minus_1)
  moreover have "bit (mask 44 :: u64) n = (n < 44)"
    unfolding bit_mask_iff by auto
  ultimately show ?thesis
    by (rule ssubst)
qed

lemma pte_pfn_bit [pte_bits]: "bit (pfn_bits (pte_pfn x)) n = (n < 44 \<and> bit x (n + 10))"
  by (simp add: pte_pfn_def pfn_supervisor_def bit_simps pfn_mask_bit PTE_PFN_SHIFT_def add.commute conj_commute)

lemma pte_op_bits [pte_bits]:
  "bit (pte_set p st) n = (n < 64 \<and> (10 \<le> n \<and> bit (pfn_bits p) (n - 10) \<or> bit st n \<or> n = 0))"
  "bit (snd (pte_update_pfn x p)) n =
     (n < 64 \<and> (bit x n \<and> \<not> (10 \<le> n \<and> n < 54) \<or> 10 \<le> n \<and> bit (pfn_bits p) (n - 10)))"
  "bit (pte_invalidate x) n = (bit x n \<and> n \<noteq> 0)"
  "bit (pte_mark_valid x) n = (bit x n \<or> n = 0)"
  "bit (pte_lock x) n = (bit x n \<or> n = 8)"
  "bit (pte_unlock x) n = (bit x n \<and> n \<noteq> 8)"
  "\<not> bit (pte_clear x) n"
  by (auto simp: pte_set_def pte_update_pfn_def pte_invalidate_def pte_mark_valid_def pte_lock_def
        pte_unlock_def pte_clear_def bit_or_iff bit_and_iff bit_not_iff bit_push_bit_iff PTE_PFN_SHIFT_def
        pte_mask_bit pfn_mask_bit dest: bit_imp_le_length)

lemma leaf_with_perms_bits [pte_bits]:
  "bit (leaf_with_perms perms) 1 \<or> bit (leaf_with_perms perms) 2 \<or> bit (leaf_with_perms perms) 3"
  "bit (leaf_with_perms perms) n \<Longrightarrow> 0 < n \<and> n < 5"
  by (cases perms; simp add: leaf_with_perms_def bit_or_iff pte_mask_bit; auto)+

lemma user_leaf_bit:
  "bit (user_leaf_with_perms perms) n = (bit (leaf_with_perms perms) n \<or> n = 4)"
  by (simp add: user_leaf_with_perms_def leaf_with_perms_def field_set_bit_def bit_or_iff
        bit_push_one del: push_bit_of_1 push_bit_numeral)

lemma pfn_bits_small: "bit (pfn_bits p) n \<Longrightarrow> n < 44" if "unat (pfn_bits p) < 2 ^ 44"
proof -
  assume "bit (pfn_bits p) n"
  then have "2 ^ n \<le> unat (pfn_bits p)"
    using bit_iff_odd [of "unat (pfn_bits p)" n] by (cases "2 ^ n \<le> unat (pfn_bits p)") (auto simp: bit_simps)
  then have "(2 :: nat) ^ n < 2 ^ 44"
    using that by linarith
  then show "n < 44"
    by (rule power_less_imp_less_exp [rotated]) simp
qed

text \<open>C19: encoding and decoding of page table entries.  For every frame number of 44 bits
  (\<open>pfn\<close> in \<open>Pte::set\<close>), setting an entry with the status of any leaf permission, user or not, gives a
  valid, unlocked leaf entry from which \<open>Pte::pfn\<close> reads the frame back; with the non-leaf status it
  gives a valid entry that is no leaf.  Locking, unlocking and invalidating keep the frame and the leaf
  status and do only what they say; unlock undoes lock and \<open>mark_valid\<close> undoes invalidate; \<open>update_pfn\<close>
  returns the old frame and leaves exactly the entry that \<open>set\<close> writes for the new one.\<close>
theorem pte_roundtrip:
  assumes "unat (pfn_bits p) < 2 ^ 44" and "unat (pfn_bits q) < 2 ^ 44"
    and "st \<in> {leaf_with_perms perms, user_leaf_with_perms perms}"
  defines "e \<equiv> pte_set p st"
  shows "pte_valid e \<and> pte_leaf e \<and> \<not> pte_locked e \<and> pte_pfn e = p
    \<and> pte_valid (pte_set p non_leaf) \<and> \<not> pte_leaf (pte_set p non_leaf) \<and> pte_pfn (pte_set p non_leaf) = p
    \<and> (\<forall>f \<in> {pte_lock, pte_unlock, pte_invalidate, pte_mark_valid}. pte_pfn (f e) = p \<and> pte_leaf (f e))
    \<and> pte_locked (pte_lock e) \<and> pte_valid (pte_lock e) \<and> pte_unlock (pte_lock e) = e
    \<and> \<not> pte_valid (pte_invalidate e) \<and> \<not> pte_locked (pte_invalidate e) \<and> pte_mark_valid (pte_invalidate e) = e
    \<and> pte_update_pfn e q = (p, pte_set q st)"
proof -
  have small: "bit st n \<Longrightarrow> 0 < n \<and> n < 5" for n
    using assms(3) leaf_with_perms_bits(2) [of perms n] by (auto simp: user_leaf_bit)
  have leaf: "bit st 1 \<or> bit st 2 \<or> bit st 3"
    using assms(3) leaf_with_perms_bits(1) [of perms] by (auto simp: user_leaf_bit)
  note ps = pfn_bits_small [OF assms(1)] and qs = pfn_bits_small [OF assms(2)]
  have no8: "\<not> bit st 8" "\<not> bit st 0"
    using small by fastforce+
  have hi: "\<not> bit st (n + 10)" for n
    using small [of "n + 10"] by auto
  have sp: "x = y" if "pfn_bits x = pfn_bits y" for x y :: "supervisor_phys pfn"
    using that by (cases x; cases y) (metis (full_types) supervisor_phys.exhaust pfn.sel(1))
  have pfn: "pte_pfn x = p" if "\<And>n. n < 44 \<Longrightarrow> bit x (n + 10) = bit e (n + 10)" for x
    using that ps hi by (intro sp bit_eqI) (auto simp: pte_bits e_def)
  have pfn0: "pte_pfn (pte_set p non_leaf) = p"
    using ps by (intro sp bit_eqI) (force simp: pte_bits non_leaf_def)
  have e0: "bit e 0" "\<not> bit e 8"
    using no8 by (auto simp: e_def pte_bits)
  have inv: "pte_unlock (pte_lock e) = e" "pte_mark_valid (pte_invalidate e) = e"
    using e0 by (auto intro!: bit_eqI simp: pte_bits)
  have upd: "fst (pte_update_pfn e q) = p" "snd (pte_update_pfn e q) = pte_set q st"
    using pfn [of e] by (simp add: pte_update_pfn_def pte_pfn_def)
      (rule bit_eqI, use small ps qs in \<open>fastforce simp: e_def pte_bits\<close>)
  have l: "pte_leaf e" "pte_leaf (pte_lock e)" "pte_leaf (pte_unlock e)" "pte_leaf (pte_invalidate e)"
    "pte_leaf (pte_mark_valid e)" "\<not> pte_leaf (pte_set p non_leaf)"
    using leaf by (auto simp: pte_bits e_def non_leaf_def)
  have fr: "pte_pfn e = p" "pte_pfn (pte_lock e) = p" "pte_pfn (pte_unlock e) = p"
    "pte_pfn (pte_invalidate e) = p" "pte_pfn (pte_mark_valid e) = p"
    by (rule pfn, simp add: pte_bits)+
  have v: "pte_valid e" "\<not> pte_locked e" "pte_valid (pte_set p non_leaf)" "pte_locked (pte_lock e)"
    "pte_valid (pte_lock e)" "\<not> pte_valid (pte_invalidate e)" "\<not> pte_locked (pte_invalidate e)"
    using e0 by (simp_all add: pte_bits)
  show ?thesis
    by (simp add: pfn0 inv upd l fr v prod_eq_iff)
qed

theorem pte_roundtrip_witness:
  "pte_valid (pte_set (pfn_supervisor 5) (leaf_with_perms PermRX))
   \<and> pte_pfn (pte_set (pfn_supervisor 5) (leaf_with_perms PermRX)) = pfn_supervisor 5
   \<and> pte_set (pfn_supervisor 5) (leaf_with_perms PermRX) = 0x140B"
  using pte_roundtrip [of "pfn_supervisor 5" "pfn_supervisor 7" "leaf_with_perms PermRX" PermRX]
  by (simp add: pfn_supervisor_def) code_simp

end
