(* ===== verification/Paging_Mode.thy ===== *)
theory Paging_Mode
  imports Riscv_Pages
begin

text \<open>
  Paging modes (\<open>page_table.rs\<close>, \<open>sv48.rs\<close>, \<open>sv48x4.rs\<close>): the traits \<open>PageTableLevel\<close> and
  \<open>PagingMode\<close> as a record of operations on a type of levels, the two implementations,
  and the laws of a paging mode that the page table code relies on.
\<close>

definition ENTRIES_PER_PAGE :: u64 where "ENTRIES_PER_PAGE = 4096 div 8"

text \<open>
  \<open>pm_below_root\<close> lists the levels under the root in walking order. Code that holds a
  level and calls \<open>next\<close> on it carries the list of the levels still below; the law
  \<open>levels_next\<close> says that the list is the one \<open>next\<close> gives.
\<close>

record 'l paging_mode =
  pm_leaf_page_size :: "'l \<Rightarrow> page_size"
  pm_next :: "'l \<Rightarrow> 'l option"
  pm_addr_shift :: "'l \<Rightarrow> nat"
  pm_addr_width :: "'l \<Rightarrow> nat"
  pm_table_pages :: "'l \<Rightarrow> nat"
  pm_is_leaf :: "'l \<Rightarrow> bool"
  pm_top_level_align :: u64
  pm_root_level :: 'l
  pm_max_pte_pages :: "u64 \<Rightarrow> u64"
  pm_below_root :: "'l list"

section \<open>Sv48\<close>

datatype sv48_level = L1 | L2 | L3 | L4

fun sv48_leaf_page_size :: "sv48_level \<Rightarrow> page_size" where
  "sv48_leaf_page_size L1 = Size4k"
| "sv48_leaf_page_size L2 = Size2M"
| "sv48_leaf_page_size L3 = Size1G"
| "sv48_leaf_page_size L4 = Size512G"

fun sv48_next :: "sv48_level \<Rightarrow> sv48_level option" where
  "sv48_next L1 = None"
| "sv48_next L2 = Some L1"
| "sv48_next L3 = Some L2"
| "sv48_next L4 = Some L3"

fun sv48_addr_shift :: "sv48_level \<Rightarrow> nat" where
  "sv48_addr_shift L1 = 12"
| "sv48_addr_shift L2 = 21"
| "sv48_addr_shift L3 = 30"
| "sv48_addr_shift L4 = 39"

definition sv48_addr_width :: "sv48_level \<Rightarrow> nat" where
  "sv48_addr_width l = 9"

definition sv48_table_pages :: "sv48_level \<Rightarrow> nat" where
  "sv48_table_pages l = 1"

definition sv48_is_leaf :: "sv48_level \<Rightarrow> bool" where
  "sv48_is_leaf l \<longleftrightarrow> l = L1"

definition SATP_MODE :: u64 where "SATP_MODE = 9"

definition sv48_max_pte_pages :: "u64 \<Rightarrow> u64" where
  "sv48_max_pte_pages num_pages =
     (let num_l1_pages = num_pages div ENTRIES_PER_PAGE + 1;
          num_l2_pages = num_l1_pages div ENTRIES_PER_PAGE + 1;
          num_l3_pages = num_l2_pages div ENTRIES_PER_PAGE + 1;
          num_l4_pages = 1
      in num_l1_pages + num_l2_pages + num_l3_pages + num_l4_pages)"

definition sv48 :: "sv48_level paging_mode" where
  "sv48 = \<lparr>pm_leaf_page_size = sv48_leaf_page_size, pm_next = sv48_next,
           pm_addr_shift = sv48_addr_shift, pm_addr_width = sv48_addr_width,
           pm_table_pages = sv48_table_pages, pm_is_leaf = sv48_is_leaf,
           pm_top_level_align = 4 * 1024, pm_root_level = L4,
           pm_max_pte_pages = sv48_max_pte_pages, pm_below_root = [L3, L2, L1]\<rparr>"

section \<open>Sv48x4\<close>

datatype sv48x4_level = L1Table | L2Table | L3Table | L4Table

fun sv48x4_leaf_page_size :: "sv48x4_level \<Rightarrow> page_size" where
  "sv48x4_leaf_page_size L1Table = Size4k"
| "sv48x4_leaf_page_size L2Table = Size2M"
| "sv48x4_leaf_page_size L3Table = Size1G"
| "sv48x4_leaf_page_size L4Table = Size512G"

fun sv48x4_next :: "sv48x4_level \<Rightarrow> sv48x4_level option" where
  "sv48x4_next L1Table = None"
| "sv48x4_next L2Table = Some L1Table"
| "sv48x4_next L3Table = Some L2Table"
| "sv48x4_next L4Table = Some L3Table"

fun sv48x4_addr_shift :: "sv48x4_level \<Rightarrow> nat" where
  "sv48x4_addr_shift L1Table = 12"
| "sv48x4_addr_shift L2Table = 21"
| "sv48x4_addr_shift L3Table = 30"
| "sv48x4_addr_shift L4Table = 39"

fun sv48x4_addr_width :: "sv48x4_level \<Rightarrow> nat" where
  "sv48x4_addr_width L1Table = 9"
| "sv48x4_addr_width L2Table = 9"
| "sv48x4_addr_width L3Table = 9"
| "sv48x4_addr_width L4Table = 11"

fun sv48x4_table_pages :: "sv48x4_level \<Rightarrow> nat" where
  "sv48x4_table_pages L1Table = 1"
| "sv48x4_table_pages L2Table = 1"
| "sv48x4_table_pages L3Table = 1"
| "sv48x4_table_pages L4Table = 4"

definition sv48x4_is_leaf :: "sv48x4_level \<Rightarrow> bool" where
  "sv48x4_is_leaf l \<longleftrightarrow> l = L1Table"

definition HGATP_MODE :: u64 where "HGATP_MODE = 9"

definition sv48x4_max_pte_pages :: "u64 \<Rightarrow> u64" where
  "sv48x4_max_pte_pages num_pages =
     (let num_l1_pages = num_pages div ENTRIES_PER_PAGE + 1;
          num_l2_pages = num_l1_pages div ENTRIES_PER_PAGE + 1;
          num_l3_pages = num_l2_pages div ENTRIES_PER_PAGE + 1;
          num_l4_pages = 4
      in num_l1_pages + num_l2_pages + num_l3_pages + num_l4_pages)"

definition sv48x4 :: "sv48x4_level paging_mode" where
  "sv48x4 = \<lparr>pm_leaf_page_size = sv48x4_leaf_page_size, pm_next = sv48x4_next,
             pm_addr_shift = sv48x4_addr_shift, pm_addr_width = sv48x4_addr_width,
             pm_table_pages = sv48x4_table_pages, pm_is_leaf = sv48x4_is_leaf,
             pm_top_level_align = 16 * 1024, pm_root_level = L4Table,
             pm_max_pte_pages = sv48x4_max_pte_pages, pm_below_root = [L3Table, L2Table, L1Table]\<rparr>"

section \<open>The laws of a paging mode\<close>

definition pm_levels :: "'l paging_mode \<Rightarrow> 'l list" where
  "pm_levels pm = pm_root_level pm # pm_below_root pm"

text \<open>The bits of an address that the index of this level and those above select.\<close>

definition pm_top_bits :: "'l paging_mode \<Rightarrow> nat" where
  "pm_top_bits pm = pm_addr_shift pm (pm_root_level pm) + pm_addr_width pm (pm_root_level pm)"

fun level_chain :: "'l paging_mode \<Rightarrow> 'l list \<Rightarrow> bool" where
  "level_chain pm [] = False"
| "level_chain pm [l] = (pm_next pm l = None \<and> pm_is_leaf pm l \<and> pm_addr_shift pm l = 12)"
| "level_chain pm (l # l' # ls) =
     (pm_next pm l = Some l' \<and> \<not> pm_is_leaf pm l
      \<and> pm_addr_shift pm l = pm_addr_shift pm l' + pm_addr_width pm l'
      \<and> pm_table_pages pm l' = 1 \<and> level_chain pm (l' # ls))"

definition level_ok :: "'l paging_mode \<Rightarrow> 'l \<Rightarrow> bool" where
  "level_ok pm l \<longleftrightarrow> bytes_nat (pm_leaf_page_size pm l) = 2 ^ pm_addr_shift pm l
     \<and> 8 * 2 ^ pm_addr_width pm l = 4096 * pm_table_pages pm l \<and> 12 \<le> pm_addr_shift pm l
     \<and> pm_addr_shift pm l + pm_addr_width pm l \<le> pm_top_bits pm"

locale paging_mode_laws =
  fixes pm :: "'l paging_mode"
  assumes levels_next: "level_chain pm (pm_levels pm)"
    and levels_ok: "list_all (level_ok pm) (pm_levels pm)"
    and sizes_distinct: "distinct (map (pm_leaf_page_size pm) (pm_levels pm))"
    and leaf_4k: "list_all (\<lambda>l. pm_is_leaf pm l = (pm_leaf_page_size pm l = Size4k)) (pm_levels pm)"
    and has_4k: "Size4k \<in> pm_leaf_page_size pm ` set (pm_levels pm)"
    and top_bits: "pm_top_bits pm \<le> 56"
    and top_align: "unat (pm_top_level_align pm) = 4096 * pm_table_pages pm (pm_root_level pm)"

lemmas sv48_defs = sv48_def sv48_addr_width_def sv48_table_pages_def sv48_is_leaf_def

lemmas sv48x4_defs = sv48x4_def sv48x4_is_leaf_def

interpretation sv48: paging_mode_laws sv48
  by unfold_locales (simp_all add: sv48_defs pm_levels_def level_ok_def pm_top_bits_def)

interpretation sv48x4: paging_mode_laws sv48x4
  by unfold_locales (simp_all add: sv48x4_defs pm_levels_def level_ok_def pm_top_bits_def)

end
