(* ===== verification/Page_Table.thy ===== *)
theory Page_Table
  imports Pte Paging_Mode Sequential_Pages Page_Tracker
begin

text \<open>
  Page tables (\<open>riscv-page-tables/src/page_table.rs\<close>): table entries and their kinds,
  the walk, locking and mapping of leaves, the first-stage and the guest-stage tables with
  their mappers. A reference to an entry is the address of its cell together with its level;
  the cells are in memory, so every operation takes the memory and returns it. The mutex
  around the inner table serialises the operations; each is one step of the model. Iterators
  that the operations return are modelled as run to their end.
\<close>

datatype pt_error =
    InsufficientPages seq_pages | InsufficientPtePages | LeafEntryNotTable | TableEntryNotLeaf
  | MisalignedPages seq_pages | UnsupportedPageSizePages seq_pages page_size
  | PageSizeNotSupported page_size | PageSizeMismatch page_size page_size | MappingExists
  | PageNotMapped | PageNotUnmappable | PageNotConverted | PteLocked | PteNotLocked
  | RootPageNotOwned seq_pages | OutOfMapRange | PageNotShareable | AddressMisaligned u64
  | PredicateFailed | AddressOverflow

type_synonym 'a pt_result = "(pt_error, 'a) result"

section \<open>Table entries\<close>

record 'l table_entry_mut =
  te_pte :: u64
  te_level :: 'l
  te_below :: "'l list"

datatype 'l table_entry =
    Unused (entry_ref: "'l table_entry_mut")
  | Invalidated (entry_ref: "'l table_entry_mut")
  | LockedUnmapped (entry_ref: "'l table_entry_mut")
  | Leaf (entry_ref: "'l table_entry_mut")
  | LockedMapped (entry_ref: "'l table_entry_mut")
  | Table (entry_ref: "'l table_entry_mut")

definition entry_from_pte :: "mem \<Rightarrow> 'l table_entry_mut \<Rightarrow> 'l table_entry" where
  "entry_from_pte m r =
     (let pte = m (te_pte r) in
      if \<not> pte_valid pte then
        (if pte_locked pte then LockedUnmapped r
         else if pfn_bits (pte_pfn pte) \<noteq> 0 then Invalidated r
         else Unused r)
      else if \<not> pte_leaf pte then Table r
      else if pte_locked pte then LockedMapped r
      else Leaf r)"

definition pte_write :: "mem \<Rightarrow> 'l table_entry_mut \<Rightarrow> u64 \<Rightarrow> mem" where
  "pte_write m r v = m(te_pte r := v)"

definition unused_map_table :: "mem \<Rightarrow> 'l table_entry_mut \<Rightarrow> supervisor_page_addr \<Rightarrow> mem" where
  "unused_map_table m r a = pte_write m r (pte_set (page_addr_pfn a) non_leaf)"

text \<open>\<open>lock\<close> of the unused, invalidated and leaf entries.\<close>

definition entry_lock :: "mem \<Rightarrow> 'l table_entry_mut \<Rightarrow> mem" where
  "entry_lock m r = pte_write m r (pte_lock (m (te_pte r)))"

text \<open>\<open>page_addr\<close> of the invalidated and leaf entries.\<close>

definition entry_page_addr :: "'l paging_mode \<Rightarrow> mem \<Rightarrow> 'l table_entry_mut \<Rightarrow> supervisor_page_addr pt_result" where
  "entry_page_addr pm m r =
     unwrap_option (page_addr_from_pfn (pte_pfn (m (te_pte r))) (pm_leaf_page_size pm (te_level r)))"

definition entry_clear :: "mem \<Rightarrow> 'l table_entry_mut \<Rightarrow> mem" where
  "entry_clear m r = pte_write m r (pte_clear (m (te_pte r)))"

definition entry_map_leaf ::
    "'l paging_mode \<Rightarrow> mem \<Rightarrow> 'l table_entry_mut \<Rightarrow> supervisor_page_addr \<Rightarrow> u64 \<Rightarrow> unit pt_result \<times> mem" where
  "entry_map_leaf pm m r paddr perms =
     (if \<not> page_addr_is_aligned paddr (pm_leaf_page_size pm (te_level r))
      then (Err (AddressMisaligned (page_addr_bits paddr)), m)
      else (Ok (), pte_write m r (pte_set (page_addr_pfn paddr) perms)))"

definition entry_unlock :: "mem \<Rightarrow> 'l table_entry_mut \<Rightarrow> mem" where
  "entry_unlock m r = pte_write m r (pte_unlock (m (te_pte r)))"

definition entry_update_page_addr ::
    "'l paging_mode \<Rightarrow> mem \<Rightarrow> 'l table_entry_mut \<Rightarrow> supervisor_page_addr
     \<Rightarrow> supervisor_page_addr pt_result \<times> mem" where
  "entry_update_page_addr pm m r paddr =
     (if \<not> page_addr_is_aligned paddr (pm_leaf_page_size pm (te_level r))
      then (Err (AddressMisaligned (page_addr_bits paddr)), m)
      else let (prev_pfn, v) = pte_update_pfn (m (te_pte r)) (page_addr_pfn paddr)
           in (unwrap_option (page_addr_from_pfn prev_pfn (pm_leaf_page_size pm (te_level r))),
               pte_write m r v))"

definition entry_invalidate :: "mem \<Rightarrow> 'l table_entry_mut \<Rightarrow> mem" where
  "entry_invalidate m r = pte_write m r (pte_invalidate (m (te_pte r)))"

definition entry_table_addr :: "mem \<Rightarrow> 'l table_entry_mut \<Rightarrow> supervisor_page_addr pt_result" where
  "entry_table_addr m r = unwrap_option (page_addr_from_pfn (pte_pfn (m (te_pte r))) Size4k)"

section \<open>One table\<close>

record 'l page_table =
  pt_table_addr :: supervisor_page_addr
  pt_level :: 'l
  pt_below :: "'l list"

definition page_table_from_root :: "'l paging_mode \<Rightarrow> seq_pages \<Rightarrow> 'l page_table" where
  "page_table_from_root pm root =
     \<lparr>pt_table_addr = seq_addr root, pt_level = pm_root_level pm, pt_below = pm_below_root pm\<rparr>"

definition page_table_from_pte ::
    "'l paging_mode \<Rightarrow> mem \<Rightarrow> u64 \<Rightarrow> 'l \<Rightarrow> 'l list \<Rightarrow> 'l page_table pt_result" where
  "page_table_from_pte pm m pte level below =
     (if \<not> pte_valid (m pte) then Panic
      else if pm_table_pages pm level \<noteq> 1 then Panic
      else result_bind (unwrap_option (page_addr_from_pfn (pte_pfn (m pte)) Size4k))
             (\<lambda>a. Ok \<lparr>pt_table_addr = a, pt_level = level, pt_below = below\<rparr>))"

text \<open>\<open>PageTablePte::table\<close>: \<open>next().unwrap()\<close> takes the next of the levels below.\<close>

definition entry_table :: "'l paging_mode \<Rightarrow> mem \<Rightarrow> 'l table_entry_mut \<Rightarrow> 'l page_table pt_result" where
  "entry_table pm m r =
     (case te_below r of
        [] \<Rightarrow> Panic
      | l # ls \<Rightarrow> page_table_from_pte pm m (te_pte r) l ls)"

definition table_index_from_addr :: "'l paging_mode \<Rightarrow> u64 \<Rightarrow> 'l \<Rightarrow> u64" where
  "table_index_from_addr pm addr level =
     drop_bit (pm_addr_shift pm level) addr AND (push_bit (pm_addr_width pm level) 1 - 1)"

definition entry_mut :: "'l page_table \<Rightarrow> u64 \<Rightarrow> u64" where
  "entry_mut t index = page_addr_bits (pt_table_addr t) + index * 8"

definition entry_for_index_mut :: "mem \<Rightarrow> 'l page_table \<Rightarrow> u64 \<Rightarrow> 'l table_entry" where
  "entry_for_index_mut m t index =
     entry_from_pte m \<lparr>te_pte = entry_mut t index, te_level = pt_level t, te_below = pt_below t\<rparr>"

definition entry_for_addr_mut :: "'l paging_mode \<Rightarrow> mem \<Rightarrow> 'l page_table \<Rightarrow> 'as raw_addr \<Rightarrow> 'l table_entry" where
  "entry_for_addr_mut pm m t addr =
     entry_for_index_mut m t (table_index_from_addr pm (raw_bits addr) (pt_level t))"

text \<open>
  The closure \<open>get_pte_page\<close> is a function on its own state and the memory; it hands out a page or none.
\<close>

type_synonym 's pte_supply = "'s \<times> mem \<Rightarrow> page option \<times> 's \<times> mem"

definition next_level_or_fill_fn ::
    "'l paging_mode \<Rightarrow> 's pte_supply \<Rightarrow> 's \<times> mem \<Rightarrow> 'l page_table \<Rightarrow> 'as raw_addr
     \<Rightarrow> 'l page_table pt_result \<times> 's \<times> mem" where
  "next_level_or_fill_fn pm get_pte_page sm t addr =
     (case entry_for_addr_mut pm (snd sm) t addr of
        Table r \<Rightarrow> (entry_table pm (snd sm) r, sm)
      | Unused r \<Rightarrow>
          (case get_pte_page sm of
             (None, sm') \<Rightarrow> (Err InsufficientPtePages, sm')
           | (Some p, s', m') \<Rightarrow>
               let m'' = unused_map_table m' r (page_base p) in (entry_table pm m'' r, s', m''))
      | _ \<Rightarrow> (Err MappingExists, sm))"

section \<open>The inner table\<close>

definition page_table_inner_new :: "'l paging_mode \<Rightarrow> seq_pages \<Rightarrow> seq_pages pt_result" where
  "page_table_inner_new pm root =
     (if is_huge (seq_page_size root) then Err (UnsupportedPageSizePages root (seq_page_size root))
      else if page_addr_bits (seq_addr root) AND (pm_top_level_align pm - 1) \<noteq> 0 then Err (MisalignedPages root)
      else if seq_count root < of_nat (pm_table_pages pm (pm_root_level pm)) then Err (InsufficientPages root)
      else Ok root)"

lemma entry_ref_for_index [simp]:
  "entry_ref (entry_for_index_mut m t i)
   = \<lparr>te_pte = entry_mut t i, te_level = pt_level t, te_below = pt_below t\<rparr>"
  by (simp add: entry_for_index_mut_def entry_from_pte_def Let_def)

lemma entry_table_below:
  "entry_table pm m r = Ok t \<Longrightarrow> te_below r = pt_level t # pt_below t"
  by (auto simp: entry_table_def page_table_from_pte_def result_simps
      split: list.splits if_splits option.splits)

text \<open>The loop of \<open>walk\<close>: while the entry is a table, go to its entry for the address.\<close>

function walk_loop :: "'l paging_mode \<Rightarrow> mem \<Rightarrow> 'as raw_addr \<Rightarrow> 'l table_entry \<Rightarrow> 'l table_entry pt_result" where
  "walk_loop pm m addr e =
     (case e of
        Table r \<Rightarrow>
          (case entry_table pm m r of
             Ok t \<Rightarrow> walk_loop pm m addr (entry_for_addr_mut pm m t addr)
           | Err er \<Rightarrow> Err er
           | Panic \<Rightarrow> Panic)
      | _ \<Rightarrow> Ok e)"
  by pat_completeness auto
termination
  by (relation "measure (\<lambda>(pm, m, addr, e). length (te_below (entry_ref e)))")
     (auto simp: entry_for_addr_mut_def dest: entry_table_below)

declare walk_loop.simps [simp del]

definition walk :: "'l paging_mode \<Rightarrow> mem \<Rightarrow> seq_pages \<Rightarrow> 'as raw_addr \<Rightarrow> 'l table_entry pt_result" where
  "walk pm m root vaddr = walk_loop pm m vaddr (entry_for_addr_mut pm m (page_table_from_root pm root) vaddr)"

definition map_leaf ::
    "'l paging_mode \<Rightarrow> seq_pages \<Rightarrow> mem \<Rightarrow> 'as page_addr \<Rightarrow> supervisor_page_addr \<Rightarrow> page_size \<Rightarrow> u64
     \<Rightarrow> unit pt_result \<times> mem" where
  "map_leaf pm root m vaddr paddr page_size perms =
     (case walk pm m root (page_addr_raw vaddr) of
        Ok (LockedUnmapped r) \<Rightarrow>
          if pm_leaf_page_size pm (te_level r) \<noteq> page_size
          then (Err (PageSizeMismatch page_size (pm_leaf_page_size pm (te_level r))), m)
          else entry_map_leaf pm m r paddr perms
      | Ok (Unused r) \<Rightarrow> (Err PteNotLocked, m)
      | Ok (Invalidated r) \<Rightarrow> (Err PteNotLocked, m)
      | Ok (LockedMapped r) \<Rightarrow> (Err MappingExists, m)
      | Ok (Leaf r) \<Rightarrow> (Err MappingExists, m)
      | Ok (Table r) \<Rightarrow> (Panic, m)
      | Err e \<Rightarrow> (Err e, m)
      | Panic \<Rightarrow> (Panic, m))"

definition remap_leaf ::
    "'l paging_mode \<Rightarrow> seq_pages \<Rightarrow> mem \<Rightarrow> 'as page_addr \<Rightarrow> supervisor_page_addr \<Rightarrow> page_size
     \<Rightarrow> supervisor_page_addr pt_result \<times> mem" where
  "remap_leaf pm root m vaddr paddr page_size =
     (case walk pm m root (page_addr_raw vaddr) of
        Ok (LockedUnmapped r) \<Rightarrow> (Err PageNotMapped, m)
      | Ok (Unused r) \<Rightarrow> (Err PageNotMapped, m)
      | Ok (Invalidated r) \<Rightarrow> (Err PageNotMapped, m)
      | Ok (LockedMapped r) \<Rightarrow>
          if pm_leaf_page_size pm (te_level r) \<noteq> page_size
          then (Err (PageSizeMismatch page_size (pm_leaf_page_size pm (te_level r))), m)
          else entry_update_page_addr pm m r paddr
      | Ok (Leaf r) \<Rightarrow> (Err PteNotLocked, m)
      | Ok (Table r) \<Rightarrow> (Panic, m)
      | Err e \<Rightarrow> (Err e, m)
      | Panic \<Rightarrow> (Panic, m))"

text \<open>
  The loop of \<open>lock_leaf_for_mapping\<close> goes down to the level whose leaves have the page size,
  filling in tables; it leaves with the table of that level.
\<close>

lemma next_level_below:
  "next_level_or_fill_fn pm get_pte_page sm t addr = (Ok t', sm') \<Longrightarrow> pt_below t = pt_level t' # pt_below t'"
  using entry_table_below
  by (fastforce simp: next_level_or_fill_fn_def entry_for_addr_mut_def entry_for_index_mut_def
        entry_from_pte_def Let_def split: table_entry.splits option.splits prod.splits if_splits)

function fill_to_level ::
    "'l paging_mode \<Rightarrow> 's pte_supply \<Rightarrow> 's \<times> mem \<Rightarrow> 'l page_table \<Rightarrow> 'as raw_addr \<Rightarrow> page_size
     \<Rightarrow> 'l page_table pt_result \<times> 's \<times> mem" where
  "fill_to_level pm get_pte_page sm t addr page_size =
     (if pm_leaf_page_size pm (pt_level t) = page_size then (Ok t, sm)
      else (case next_level_or_fill_fn pm get_pte_page sm t addr of
              (Ok t', sm') \<Rightarrow> fill_to_level pm get_pte_page sm' t' addr page_size
            | (Err e, sm') \<Rightarrow> (Err e, sm')
            | (Panic, sm') \<Rightarrow> (Panic, sm')))"
  by pat_completeness auto
termination
  by (relation "measure (\<lambda>(pm, g, sm, t, addr, ps). length (pt_below t))")
     (auto dest!: next_level_below [OF sym])

declare fill_to_level.simps [simp del]

definition lock_leaf_for_mapping ::
    "'l paging_mode \<Rightarrow> seq_pages \<Rightarrow> 's pte_supply \<Rightarrow> 's \<times> mem \<Rightarrow> 'as page_addr \<Rightarrow> page_size
     \<Rightarrow> unit pt_result \<times> 's \<times> mem" where
  "lock_leaf_for_mapping pm root get_pte_page sm vaddr page_size =
     (case fill_to_level pm get_pte_page sm (page_table_from_root pm root) (page_addr_raw vaddr) page_size of
        (Ok t, s, m) \<Rightarrow>
          (case entry_for_addr_mut pm m t (page_addr_raw vaddr) of
             Invalidated r \<Rightarrow> (Ok (), s, entry_lock m r)
           | Unused r \<Rightarrow> (Ok (), s, entry_lock m r)
           | LockedMapped r \<Rightarrow> (Err PteLocked, s, m)
           | LockedUnmapped r \<Rightarrow> (Err PteLocked, s, m)
           | Leaf r \<Rightarrow> (Err MappingExists, s, m)
           | Table r \<Rightarrow> (Err TableEntryNotLeaf, s, m))
      | (Err e, sm') \<Rightarrow> (Err e, sm')
      | (Panic, sm') \<Rightarrow> (Panic, sm'))"

definition lock_leaf_for_remapping ::
    "'l paging_mode \<Rightarrow> seq_pages \<Rightarrow> mem \<Rightarrow> 'as page_addr \<Rightarrow> unit pt_result \<times> mem" where
  "lock_leaf_for_remapping pm root m vaddr =
     (case walk pm m root (page_addr_raw vaddr) of
        Ok (Invalidated r) \<Rightarrow> (Err PageNotMapped, m)
      | Ok (Unused r) \<Rightarrow> (Err PageNotMapped, m)
      | Ok (LockedMapped r) \<Rightarrow> (Err PteLocked, m)
      | Ok (LockedUnmapped r) \<Rightarrow> (Err PteLocked, m)
      | Ok (Leaf r) \<Rightarrow> (Ok (), entry_lock m r)
      | Ok (Table r) \<Rightarrow> (Err TableEntryNotLeaf, m)
      | Err e \<Rightarrow> (Err e, m)
      | Panic \<Rightarrow> (Panic, m))"

definition unlock_leaf ::
    "'l paging_mode \<Rightarrow> seq_pages \<Rightarrow> mem \<Rightarrow> 'as page_addr \<Rightarrow> unit pt_result \<times> mem" where
  "unlock_leaf pm root m vaddr =
     (case walk pm m root (page_addr_raw vaddr) of
        Ok (LockedUnmapped r) \<Rightarrow> (Ok (), entry_unlock m r)
      | Ok (LockedMapped r) \<Rightarrow> (Ok (), entry_unlock m r)
      | Ok _ \<Rightarrow> (Err PteNotLocked, m)
      | Err e \<Rightarrow> (Err e, m)
      | Panic \<Rightarrow> (Panic, m))"

definition get_mapped_4k_leaf ::
    "'l paging_mode \<Rightarrow> seq_pages \<Rightarrow> mem \<Rightarrow> 'as page_addr \<Rightarrow> 'l table_entry_mut pt_result" where
  "get_mapped_4k_leaf pm root m vaddr =
     result_bind (walk pm m root (page_addr_raw vaddr))
       (\<lambda>e. case e of
              Leaf r \<Rightarrow>
                if \<not> pm_is_leaf pm (te_level r)
                then Err (PageSizeNotSupported (pm_leaf_page_size pm (te_level r))) else Ok r
            | _ \<Rightarrow> Err PageNotMapped)"

definition get_invalidated_4k_leaf ::
    "'l paging_mode \<Rightarrow> seq_pages \<Rightarrow> mem \<Rightarrow> 'as page_addr \<Rightarrow> 'l table_entry_mut pt_result" where
  "get_invalidated_4k_leaf pm root m vaddr =
     result_bind (walk pm m root (page_addr_raw vaddr))
       (\<lambda>e. case e of
              Invalidated r \<Rightarrow>
                if \<not> pm_is_leaf pm (te_level r)
                then Err (PageSizeNotSupported (pm_leaf_page_size pm (te_level r))) else Ok r
            | _ \<Rightarrow> Err PageNotConverted)"

section \<open>First-stage tables\<close>

text \<open>The loop of both \<open>map_range\<close>: lock the entry of each address, stop at the first error.\<close>

fun lock_loop ::
    "'l paging_mode \<Rightarrow> seq_pages \<Rightarrow> 's pte_supply \<Rightarrow> 's \<times> mem \<Rightarrow> page_size \<Rightarrow> u64 \<Rightarrow> 'as page_addr list
     \<Rightarrow> unit pt_result \<times> u64 \<times> 's \<times> mem" where
  "lock_loop pm root get_pte_page sm page_size n [] = (Ok (), n, sm)"
| "lock_loop pm root get_pte_page sm page_size n (a # as) =
     (case lock_leaf_for_mapping pm root get_pte_page sm a page_size of
        (Ok _, sm') \<Rightarrow> lock_loop pm root get_pte_page sm' page_size (n + 1) as
      | (Err e, sm') \<Rightarrow> (Err e, n, sm')
      | (Panic, sm') \<Rightarrow> (Panic, n, sm'))"

definition first_stage_new :: "'l paging_mode \<Rightarrow> page \<Rightarrow> seq_pages pt_result" where
  "first_stage_new pm root = page_table_inner_new pm (seq_from_page root)"

record 'as first_stage_mapper =
  fsm_vaddr :: "'as page_addr"
  fsm_page_size :: page_size
  fsm_num_pages :: u64

definition first_stage_map_range ::
    "'l paging_mode \<Rightarrow> seq_pages \<Rightarrow> 's pte_supply \<Rightarrow> 's \<times> mem \<Rightarrow> 'as page_addr \<Rightarrow> page_size \<Rightarrow> u64
     \<Rightarrow> 'as first_stage_mapper pt_result \<times> 's \<times> mem" where
  "first_stage_map_range pm root get_pte_page sm addr page_size n =
     (if \<not> page_addr_is_aligned addr page_size then (Err (AddressMisaligned (page_addr_bits addr)), sm)
      else case page_addr_iter_new addr page_size of
        None \<Rightarrow> (Err (AddressMisaligned (page_addr_bits addr)), sm)
      | Some it \<Rightarrow>
          if checked_add_pages_with_size addr n page_size = None then (Err OutOfMapRange, sm)
          else (case lock_loop pm root get_pte_page sm page_size 0 (page_addr_iter_take (unat n) it) of
                  (Ok _, _, sm') \<Rightarrow>
                    (Ok \<lparr>fsm_vaddr = addr, fsm_page_size = page_size, fsm_num_pages = n\<rparr>, sm')
                | (Err e, _, sm') \<Rightarrow> (Err e, sm')
                | (Panic, _, sm') \<Rightarrow> (Panic, sm')))"

text \<open>
  The operations on ranges first check every address and only then change the table: the
  first loop stops at the first error, the second is the iterator that the caller runs.
\<close>

fun each_ok :: "('a \<Rightarrow> unit pt_result) \<Rightarrow> 'a list \<Rightarrow> unit pt_result" where
  "each_ok f [] = Ok ()"
| "each_ok f (a # as) = result_bind (f a) (\<lambda>_. each_ok f as)"

fun yield_each ::
    "(mem \<Rightarrow> 'a \<Rightarrow> supervisor_page_addr option pt_result \<times> mem) \<Rightarrow> mem \<Rightarrow> 'a list
     \<Rightarrow> supervisor_page_addr list pt_result \<times> mem" where
  "yield_each f m [] = (Ok [], m)"
| "yield_each f m (a # as) =
     (case f m a of
        (Ok y, m') \<Rightarrow>
          (case yield_each f m' as of
             (Ok ys, m'') \<Rightarrow> (Ok (case y of None \<Rightarrow> ys | Some p \<Rightarrow> p # ys), m'')
           | r \<Rightarrow> r)
      | (Err e, m') \<Rightarrow> (Err e, m')
      | (Panic, m') \<Rightarrow> (Panic, m'))"

definition first_stage_check :: "'l paging_mode \<Rightarrow> seq_pages \<Rightarrow> mem \<Rightarrow> 'as page_addr \<Rightarrow> unit pt_result" where
  "first_stage_check pm root m addr =
     result_bind (walk pm m root (page_addr_raw addr))
       (\<lambda>e. case e of
              Leaf r \<Rightarrow>
                if \<not> pm_is_leaf pm (te_level r)
                then Err (PageSizeNotSupported (pm_leaf_page_size pm (te_level r))) else Ok ()
            | _ \<Rightarrow> Err PageNotMapped)"

definition first_stage_take ::
    "'l paging_mode \<Rightarrow> seq_pages \<Rightarrow> mem \<Rightarrow> 'as page_addr \<Rightarrow> supervisor_page_addr option pt_result \<times> mem" where
  "first_stage_take pm root m va =
     (case result_bind (unwrap (get_mapped_4k_leaf pm root m va))
             (\<lambda>r. result_bind (entry_page_addr pm m r) (\<lambda>paddr. Ok (r, paddr))) of
        Ok (r, paddr) \<Rightarrow> (Ok (Some paddr), entry_clear m r)
      | Err e \<Rightarrow> (Err e, m)
      | Panic \<Rightarrow> (Panic, m))"

definition range_addrs :: "'as page_addr \<Rightarrow> u64 \<Rightarrow> 'as page_addr list pt_result" where
  "range_addrs base n =
     result_bind (page_addr_iter_from base) (\<lambda>it. Ok (page_addr_iter_take (unat n) it))"

text \<open>The two loops of a range operation over the addresses of the range.\<close>

definition check_then_yield ::
    "('as page_addr \<Rightarrow> unit pt_result) \<Rightarrow> (mem \<Rightarrow> 'as page_addr \<Rightarrow> supervisor_page_addr option pt_result \<times> mem)
     \<Rightarrow> mem \<Rightarrow> 'as page_addr \<Rightarrow> u64 \<Rightarrow> supervisor_page_addr list pt_result \<times> mem" where
  "check_then_yield chk f m base n =
     (case result_bind (ok_or (checked_add_pages base n) AddressOverflow)
             (\<lambda>_. result_bind (range_addrs base n)
               (\<lambda>as. result_bind (each_ok chk as) (\<lambda>_. Ok as))) of
        Ok as \<Rightarrow> yield_each f m as
      | Err e \<Rightarrow> (Err e, m)
      | Panic \<Rightarrow> (Panic, m))"

definition first_stage_unmap_range ::
    "'l paging_mode \<Rightarrow> seq_pages \<Rightarrow> mem \<Rightarrow> 'as page_addr \<Rightarrow> page_size \<Rightarrow> u64
     \<Rightarrow> supervisor_page_addr list pt_result \<times> mem" where
  "first_stage_unmap_range pm root m base page_size n =
     (if is_huge page_size then (Err (PageSizeNotSupported page_size), m)
      else check_then_yield (first_stage_check pm root m) (first_stage_take pm root) m base n)"

definition first_stage_map_addr ::
    "'l paging_mode \<Rightarrow> seq_pages \<Rightarrow> 'as first_stage_mapper \<Rightarrow> mem \<Rightarrow> 'as page_addr \<Rightarrow> supervisor_page_addr \<Rightarrow> u64
     \<Rightarrow> unit pt_result \<times> mem" where
  "first_stage_map_addr pm root mapper m vaddr paddr pte_perms =
     (if \<not> page_addr_is_aligned paddr (fsm_page_size mapper)
      then (Err (AddressMisaligned (page_addr_bits paddr)), m)
      else if page_addr_lt vaddr (fsm_vaddr mapper)
              \<or> page_addr_bits vaddr \<ge> page_addr_bits (fsm_vaddr mapper)
                                        + fsm_num_pages mapper * page_size_bytes (fsm_page_size mapper)
      then (Err OutOfMapRange, m)
      else map_leaf pm root m vaddr paddr (fsm_page_size mapper) pte_perms)"

section \<open>Guest-stage tables\<close>

record guest_stage_table =
  gst_root :: seq_pages
  gst_owner :: page_owner_id

definition guest_stage_new ::
    "'l paging_mode \<Rightarrow> seq_pages \<Rightarrow> page_owner_id \<Rightarrow> page_tracker \<Rightarrow> guest_stage_table pt_result" where
  "guest_stage_new pm root owner tracker =
     result_bind (seq_page_addrs root)
       (\<lambda>as. if \<not> list_all (\<lambda>paddr. is_owned tracker paddr owner) as then Err (RootPageNotOwned root)
             else result_bind (page_table_inner_new pm root)
                    (\<lambda>inner. Ok \<lparr>gst_root = inner, gst_owner = owner\<rparr>))"

record 'as guest_stage_mapper =
  gsm_vaddr :: "'as page_addr"
  gsm_num_pages :: u64

text \<open>\<open>Drop for GuestStageMapper\<close>: the results of \<open>unlock_leaf\<close> are ignored.\<close>

fun unlock_loop :: "'l paging_mode \<Rightarrow> seq_pages \<Rightarrow> mem \<Rightarrow> 'as page_addr list \<Rightarrow> unit pt_result \<times> mem" where
  "unlock_loop pm root m [] = (Ok (), m)"
| "unlock_loop pm root m (a # as) =
     (case unlock_leaf pm root m a of
        (Panic, m') \<Rightarrow> (Panic, m')
      | (_, m') \<Rightarrow> unlock_loop pm root m' as)"

definition guest_mapper_drop ::
    "'l paging_mode \<Rightarrow> seq_pages \<Rightarrow> 'as guest_stage_mapper \<Rightarrow> mem \<Rightarrow> unit pt_result \<times> mem" where
  "guest_mapper_drop pm root mapper m =
     (case range_addrs (gsm_vaddr mapper) (gsm_num_pages mapper) of
        Ok as \<Rightarrow> unlock_loop pm root m as
      | Err e \<Rightarrow> (Err e, m)
      | Panic \<Rightarrow> (Panic, m))"

text \<open>An error in the loop drops the mapper, which covers the entries locked so far.\<close>

definition guest_stage_map_range ::
    "'l paging_mode \<Rightarrow> guest_stage_table \<Rightarrow> 's pte_supply \<Rightarrow> 's \<times> mem \<Rightarrow> 'as page_addr \<Rightarrow> page_size \<Rightarrow> u64
     \<Rightarrow> 'as guest_stage_mapper pt_result \<times> 's \<times> mem" where
  "guest_stage_map_range pm g get_pte_page sm addr page_size n =
     (if is_huge page_size then (Err (PageSizeNotSupported page_size), sm)
      else case range_addrs addr n of
        Ok as \<Rightarrow>
          (case lock_loop pm (gst_root g) get_pte_page sm page_size 0 as of
             (Ok _, k, sm') \<Rightarrow> (Ok \<lparr>gsm_vaddr = addr, gsm_num_pages = k\<rparr>, sm')
           | (Err e, k, s, m) \<Rightarrow>
               (case guest_mapper_drop pm (gst_root g) \<lparr>gsm_vaddr = addr, gsm_num_pages = k\<rparr> m of
                  (Panic, m') \<Rightarrow> (Panic, s, m')
                | (_, m') \<Rightarrow> (Err e, s, m'))
           | (Panic, k, sm') \<Rightarrow> (Panic, sm'))
      | Err e \<Rightarrow> (Err e, sm)
      | Panic \<Rightarrow> (Panic, sm))"

fun relock_loop ::
    "'l paging_mode \<Rightarrow> seq_pages \<Rightarrow> mem \<Rightarrow> u64 \<Rightarrow> 'as page_addr list \<Rightarrow> unit pt_result \<times> u64 \<times> mem" where
  "relock_loop pm root m n [] = (Ok (), n, m)"
| "relock_loop pm root m n (a # as) =
     (case lock_leaf_for_remapping pm root m a of
        (Ok _, m') \<Rightarrow> relock_loop pm root m' (n + 1) as
      | (Err e, m') \<Rightarrow> (Err e, n, m')
      | (Panic, m') \<Rightarrow> (Panic, n, m'))"

definition guest_stage_remap_range ::
    "'l paging_mode \<Rightarrow> guest_stage_table \<Rightarrow> mem \<Rightarrow> 'as page_addr \<Rightarrow> page_size \<Rightarrow> u64
     \<Rightarrow> 'as guest_stage_mapper pt_result \<times> mem" where
  "guest_stage_remap_range pm g m addr page_size n =
     (if is_huge page_size then (Err (PageSizeNotSupported page_size), m)
      else case range_addrs addr n of
        Ok as \<Rightarrow>
          (case relock_loop pm (gst_root g) m 0 as of
             (Ok _, k, m') \<Rightarrow> (Ok \<lparr>gsm_vaddr = addr, gsm_num_pages = k\<rparr>, m')
           | (Err e, k, m') \<Rightarrow>
               (case guest_mapper_drop pm (gst_root g) \<lparr>gsm_vaddr = addr, gsm_num_pages = k\<rparr> m' of
                  (Panic, m'') \<Rightarrow> (Panic, m'')
                | (_, m'') \<Rightarrow> (Err e, m''))
           | (Panic, k, m') \<Rightarrow> (Panic, m'))
      | Err e \<Rightarrow> (Err e, m)
      | Panic \<Rightarrow> (Panic, m))"

definition invalidate_check ::
    "'l paging_mode \<Rightarrow> seq_pages \<Rightarrow> mem \<Rightarrow> bool \<Rightarrow> (supervisor_page_addr \<Rightarrow> bool) \<Rightarrow> 'as page_addr \<Rightarrow> unit pt_result" where
  "invalidate_check pm root m sparse pred va =
     result_bind (walk pm m root (page_addr_raw va))
       (\<lambda>e. case e of
              Leaf r \<Rightarrow>
                if \<not> pm_is_leaf pm (te_level r)
                then Err (PageSizeNotSupported (pm_leaf_page_size pm (te_level r)))
                else result_bind (entry_page_addr pm m r)
                       (\<lambda>a. if \<not> pred a then Err PredicateFailed else Ok ())
            | Unused r \<Rightarrow> if sparse then Ok () else Err PageNotMapped
            | _ \<Rightarrow> Err PageNotMapped)"

definition invalidate_take ::
    "'l paging_mode \<Rightarrow> seq_pages \<Rightarrow> mem \<Rightarrow> 'as page_addr \<Rightarrow> supervisor_page_addr option pt_result \<times> mem" where
  "invalidate_take pm root m va =
     (case get_mapped_4k_leaf pm root m va of
        Ok r \<Rightarrow>
          let m' = entry_invalidate m r
          in (result_bind (entry_page_addr pm m' r) (\<lambda>a. Ok (Some a)), m')
      | Err e \<Rightarrow> (Ok None, m)
      | Panic \<Rightarrow> (Panic, m))"

text \<open>\<open>pred\<close> is a function of the address: the callers' closures only query the page tracker.\<close>

definition do_invalidate_range ::
    "'l paging_mode \<Rightarrow> guest_stage_table \<Rightarrow> mem \<Rightarrow> 'as page_addr \<Rightarrow> u64 \<Rightarrow> bool \<Rightarrow> (supervisor_page_addr \<Rightarrow> bool)
     \<Rightarrow> supervisor_page_addr list pt_result \<times> mem" where
  "do_invalidate_range pm g m vaddr len sparse pred =
     check_then_yield (invalidate_check pm (gst_root g) m sparse pred) (invalidate_take pm (gst_root g)) m
       vaddr (num_4k_pages len)"

definition invalidate_range ::
    "'l paging_mode \<Rightarrow> guest_stage_table \<Rightarrow> mem \<Rightarrow> 'as page_addr \<Rightarrow> u64 \<Rightarrow> (supervisor_page_addr \<Rightarrow> bool)
     \<Rightarrow> supervisor_page_addr list pt_result \<times> mem" where
  "invalidate_range pm g m vaddr len pred = do_invalidate_range pm g m vaddr len False pred"

definition invalidate_range_sparse ::
    "'l paging_mode \<Rightarrow> guest_stage_table \<Rightarrow> mem \<Rightarrow> 'as page_addr \<Rightarrow> u64 \<Rightarrow> (supervisor_page_addr \<Rightarrow> bool)
     \<Rightarrow> supervisor_page_addr list pt_result \<times> mem" where
  "invalidate_range_sparse pm g m vaddr len pred = do_invalidate_range pm g m vaddr len True pred"

definition unmap_check ::
    "'l paging_mode \<Rightarrow> seq_pages \<Rightarrow> mem \<Rightarrow> (supervisor_page_addr \<Rightarrow> bool) \<Rightarrow> 'as page_addr \<Rightarrow> unit pt_result" where
  "unmap_check pm root m pred va =
     result_bind (walk pm m root (page_addr_raw va))
       (\<lambda>e. case e of
              Invalidated r \<Rightarrow>
                if \<not> pm_is_leaf pm (te_level r)
                then Err (PageSizeNotSupported (pm_leaf_page_size pm (te_level r)))
                else result_bind (entry_page_addr pm m r)
                       (\<lambda>a. if \<not> pred a then Err PredicateFailed else Ok ())
            | Unused r \<Rightarrow> Ok ()
            | _ \<Rightarrow> Err PageNotUnmappable)"

definition unmap_take ::
    "'l paging_mode \<Rightarrow> seq_pages \<Rightarrow> mem \<Rightarrow> 'as page_addr \<Rightarrow> supervisor_page_addr option pt_result \<times> mem" where
  "unmap_take pm root m va =
     (case get_invalidated_4k_leaf pm root m va of
        Ok r \<Rightarrow>
          (case entry_page_addr pm m r of
             Ok paddr \<Rightarrow> (Ok (Some paddr), entry_clear m r)
           | Err e \<Rightarrow> (Err e, m)
           | Panic \<Rightarrow> (Panic, m))
      | Err e \<Rightarrow> (Ok None, m)
      | Panic \<Rightarrow> (Panic, m))"

definition unmap_range ::
    "'l paging_mode \<Rightarrow> guest_stage_table \<Rightarrow> mem \<Rightarrow> 'as page_addr \<Rightarrow> u64 \<Rightarrow> (supervisor_page_addr \<Rightarrow> bool)
     \<Rightarrow> supervisor_page_addr list pt_result \<times> mem" where
  "unmap_range pm g m vaddr len pred =
     check_then_yield (unmap_check pm (gst_root g) m pred) (unmap_take pm (gst_root g)) m
       vaddr (num_4k_pages len)"

text \<open>The check and the yield of \<open>get_mapped_pages\<close> and \<open>get_invalidated_pages\<close>, over the lookup of a leaf.\<close>

definition pages_check ::
    "'l paging_mode \<Rightarrow> mem \<Rightarrow> ('as page_addr \<Rightarrow> 'l table_entry_mut pt_result) \<Rightarrow> (supervisor_page_addr \<Rightarrow> bool)
     \<Rightarrow> 'as page_addr \<Rightarrow> unit pt_result" where
  "pages_check pm m get_leaf pred va =
     result_bind (get_leaf va)
       (\<lambda>r. result_bind (entry_page_addr pm m r)
         (\<lambda>a. if \<not> pred a then Err PredicateFailed else Ok ()))"

definition pages_take ::
    "'l paging_mode \<Rightarrow> (mem \<Rightarrow> 'as page_addr \<Rightarrow> 'l table_entry_mut pt_result) \<Rightarrow> mem \<Rightarrow> 'as page_addr
     \<Rightarrow> supervisor_page_addr option pt_result \<times> mem" where
  "pages_take pm get_leaf m va =
     (result_bind (unwrap (get_leaf m va))
        (\<lambda>r. result_bind (entry_page_addr pm m r) (\<lambda>a. Ok (Some a))), m)"

definition get_mapped_pages ::
    "'l paging_mode \<Rightarrow> guest_stage_table \<Rightarrow> mem \<Rightarrow> 'as page_addr \<Rightarrow> u64 \<Rightarrow> (supervisor_page_addr \<Rightarrow> bool)
     \<Rightarrow> supervisor_page_addr list pt_result \<times> mem" where
  "get_mapped_pages pm g m vaddr len pred =
     check_then_yield (pages_check pm m (get_mapped_4k_leaf pm (gst_root g) m) pred)
       (pages_take pm (get_mapped_4k_leaf pm (gst_root g))) m vaddr (num_4k_pages len)"

definition get_invalidated_pages ::
    "'l paging_mode \<Rightarrow> guest_stage_table \<Rightarrow> mem \<Rightarrow> 'as page_addr \<Rightarrow> u64 \<Rightarrow> (supervisor_page_addr \<Rightarrow> bool)
     \<Rightarrow> supervisor_page_addr list pt_result \<times> mem" where
  "get_invalidated_pages pm g m vaddr len pred =
     check_then_yield (pages_check pm m (get_invalidated_4k_leaf pm (gst_root g) m) pred)
       (pages_take pm (get_invalidated_4k_leaf pm (gst_root g))) m vaddr (num_4k_pages len)"

fun all_unused :: "'l paging_mode \<Rightarrow> mem \<Rightarrow> seq_pages \<Rightarrow> 'as page_addr list \<Rightarrow> bool pt_result" where
  "all_unused pm m root [] = Ok True"
| "all_unused pm m root (a # as) =
     result_bind (walk pm m root (page_addr_raw a))
       (\<lambda>e. case e of Unused r \<Rightarrow> all_unused pm m root as | _ \<Rightarrow> Ok False)"

definition range_is_empty ::
    "'l paging_mode \<Rightarrow> guest_stage_table \<Rightarrow> mem \<Rightarrow> 'as page_addr \<Rightarrow> u64 \<Rightarrow> bool pt_result" where
  "range_is_empty pm g m vaddr len =
     result_bind (range_addrs vaddr (num_4k_pages len)) (all_unused pm m (gst_root g))"

section \<open>Dropping a guest-stage table\<close>

definition table_indices :: "'l paging_mode \<Rightarrow> 'l page_table \<Rightarrow> u64 list" where
  "table_indices pm t = map of_nat [0..<2 ^ pm_addr_width pm (pt_level t)]"

definition unwrap_tracker :: "unit tracker_result \<Rightarrow> unit pt_result \<times> page_tracker" where
  "unwrap_tracker r = (unwrap (fst r), snd r)"

definition release_entry_page ::
    "'l paging_mode \<Rightarrow> owner_vec \<Rightarrow> mem \<Rightarrow> page_owner_id \<Rightarrow> 'l table_entry_mut \<Rightarrow> page_tracker
     \<Rightarrow> unit pt_result \<times> page_tracker" where
  "release_entry_page pm av m owner r tr =
     (case entry_page_addr pm m r of
        Ok a \<Rightarrow> unwrap_tracker (release_page_by_addr av tr a owner)
      | Err e \<Rightarrow> (Err e, tr)
      | Panic \<Rightarrow> (Panic, tr))"

definition release_table_page ::
    "owner_vec \<Rightarrow> mem \<Rightarrow> 'l table_entry_mut \<Rightarrow> page_tracker \<Rightarrow> unit pt_result \<times> page_tracker" where
  "release_table_page av m r tr =
     (case result_bind (entry_table_addr m r) (page_new StInternalDirty) of
        Ok p \<Rightarrow> unwrap_tracker (release_page av tr p)
      | Err e \<Rightarrow> (Err e, tr)
      | Panic \<Rightarrow> (Panic, tr))"

text \<open>
  \<open>release_pages\<close> over the indices still to visit: a table is released after the pages in it.
\<close>

function release_pages ::
    "'l paging_mode \<Rightarrow> owner_vec \<Rightarrow> mem \<Rightarrow> page_owner_id \<Rightarrow> 'l page_table \<Rightarrow> u64 list \<Rightarrow> page_tracker
     \<Rightarrow> unit pt_result \<times> page_tracker" where
  "release_pages pm av m owner t [] tr = (Ok (), tr)"
| "release_pages pm av m owner t (i # is) tr =
     (case (case entry_for_index_mut m t i of
              Table r \<Rightarrow>
                (case entry_table pm m r of
                   Ok t' \<Rightarrow>
                     (case release_pages pm av m owner t' (table_indices pm t') tr of
                        (Ok _, tr') \<Rightarrow> release_table_page av m r tr'
                      | res \<Rightarrow> res)
                 | Err e \<Rightarrow> (Err e, tr)
                 | Panic \<Rightarrow> (Panic, tr))
            | Leaf r \<Rightarrow> release_entry_page pm av m owner r tr
            | Invalidated r \<Rightarrow> release_entry_page pm av m owner r tr
            | _ \<Rightarrow> (Ok (), tr)) of
        (Ok _, tr') \<Rightarrow> release_pages pm av m owner t is tr'
      | res \<Rightarrow> res)"
  by pat_completeness auto
termination
proof (relation "measures [\<lambda>(pm, av, m, owner, t, is, tr). length (pt_below t),
                           \<lambda>(pm, av, m, owner, t, is, tr). length is]", goal_cases)
  case (2 pm av m owner t i "is" tr r t')
  then have "te_below r = pt_below t"
    by (metis entry_ref_for_index table_entry.sel(6) table_entry_mut.select_convs(3))
  then have "length (pt_below t) = Suc (length (pt_below t'))"
    using entry_table_below [OF 2(2)] by (metis length_Cons)
  then show ?case
    by simp
qed simp_all

declare release_pages.simps [simp del]

fun release_each :: "owner_vec \<Rightarrow> page list \<Rightarrow> page_tracker \<Rightarrow> unit pt_result \<times> page_tracker" where
  "release_each av [] tr = (Ok (), tr)"
| "release_each av (p # ps) tr =
     (case unwrap_tracker (release_page av tr p) of
        (Ok _, tr') \<Rightarrow> release_each av ps tr'
      | res \<Rightarrow> res)"

definition guest_stage_drop ::
    "'l paging_mode \<Rightarrow> owner_vec \<Rightarrow> guest_stage_table \<Rightarrow> mem \<Rightarrow> page_tracker \<Rightarrow> unit pt_result \<times> page_tracker" where
  "guest_stage_drop pm av g m tr =
     (let t = page_table_from_root pm (gst_root g) in
      case release_pages pm av m (gst_owner g) t (table_indices pm t) tr of
        (Ok _, tr') \<Rightarrow>
          (case result_bind (unwrap (seq_from_mem_range StInternalDirty (seq_addr (gst_root g)) Size4k
                                       (seq_count (gst_root g)))) seq_into_list of
             Ok ps \<Rightarrow> release_each av ps tr'
           | Err e \<Rightarrow> (Err e, tr')
           | Panic \<Rightarrow> (Panic, tr'))
      | res \<Rightarrow> res)"

section \<open>Mapping through a mapper\<close>

definition map_page ::
    "'l paging_mode \<Rightarrow> guest_stage_table \<Rightarrow> 'as guest_stage_mapper \<Rightarrow> mem \<Rightarrow> 'as page_addr \<Rightarrow> page
     \<Rightarrow> unit pt_result \<times> mem" where
  "map_page pm g mapper m vaddr page_to_map =
     (if is_huge (page_len page_to_map) then (Err (PageSizeNotSupported (page_len page_to_map)), m)
      else case checked_add_pages (gsm_vaddr mapper) (gsm_num_pages mapper) of
        None \<Rightarrow> (Panic, m)
      | Some end_vaddr \<Rightarrow>
          if page_addr_lt vaddr (gsm_vaddr mapper) \<or> page_addr_le end_vaddr vaddr then (Err OutOfMapRange, m)
          else map_leaf pm (gst_root g) m vaddr (page_base page_to_map) (page_len page_to_map)
                 (user_leaf_with_perms PermRWX))"

definition remap_page ::
    "'l paging_mode \<Rightarrow> guest_stage_table \<Rightarrow> 'as guest_stage_mapper \<Rightarrow> mem \<Rightarrow> 'as page_addr \<Rightarrow> page
     \<Rightarrow> supervisor_page_addr pt_result \<times> mem" where
  "remap_page pm g mapper m vaddr page_to_map =
     (if is_huge (page_len page_to_map) then (Err (PageSizeNotSupported (page_len page_to_map)), m)
      else case checked_add_pages (gsm_vaddr mapper) (gsm_num_pages mapper) of
        None \<Rightarrow> (Panic, m)
      | Some end_vaddr \<Rightarrow>
          if page_addr_lt vaddr (gsm_vaddr mapper) \<or> page_addr_le end_vaddr vaddr then (Err OutOfMapRange, m)
          else remap_leaf pm (gst_root g) m vaddr (page_base page_to_map) (page_len page_to_map))"

end
