(* ===== verification/Page_Table_Inv.thy ===== *)
theory Page_Table_Inv
  imports Page_Table
begin

text \<open>
  The invariant of a page table in memory and the effect of a write to an entry. A ghost map
  gives for each table page the levels from its own downwards and the number of the block of
  addresses it translates; every cell then belongs to one level and one block, so a walk
  ends in the cell of the block the address is in, and two addresses share that cell only
  when they are in the same block.
\<close>

type_synonym 'l table_map = "u64 \<Rightarrow> ('l list \<times> nat) option"

definition is_table :: "u64 \<Rightarrow> bool" where
  "is_table v \<longleftrightarrow> pte_valid v \<and> \<not> pte_leaf v"

definition is_unused :: "u64 \<Rightarrow> bool" where
  "is_unused v \<longleftrightarrow> \<not> pte_valid v \<and> \<not> pte_locked v \<and> pfn_bits (pte_pfn v) = 0"

text \<open>The block of the address at a level: the address bits from the level's shift to the top.\<close>

definition va_block :: "'l paging_mode \<Rightarrow> 'l \<Rightarrow> u64 \<Rightarrow> nat" where
  "va_block pm l a = (unat a mod 2 ^ pm_top_bits pm) div 2 ^ pm_addr_shift pm l"

definition slot_of :: "'l paging_mode \<Rightarrow> 'l table_map \<Rightarrow> 'l table_entry_mut \<Rightarrow> nat \<Rightarrow> bool" where
  "slot_of pm T r B \<longleftrightarrow>
     (\<exists>t P i. T t = Some (te_level r # te_below r, P) \<and> i < 2 ^ pm_addr_width pm (te_level r)
        \<and> te_pte r = t + of_nat i * 8 \<and> B = P * 2 ^ pm_addr_width pm (te_level r) + i)"

definition table_bytes :: "'l paging_mode \<Rightarrow> 'l list \<Rightarrow> nat" where
  "table_bytes pm ls = 8 * 2 ^ pm_addr_width pm (hd ls)"

definition entry_ok :: "'l paging_mode \<Rightarrow> 'l table_map \<Rightarrow> 'l table_entry_mut \<Rightarrow> nat \<Rightarrow> u64 \<Rightarrow> bool" where
  "entry_ok pm T r B v \<longleftrightarrow>
     (if is_table v then te_below r \<noteq> [] \<and> T (push_bit 12 (pfn_bits (pte_pfn v))) = Some (te_below r, B)
      else page_addr_from_pfn (pte_pfn v) (pm_leaf_page_size pm (te_level r)) \<noteq> None)"

definition tables_ok :: "'l paging_mode \<Rightarrow> seq_pages \<Rightarrow> 'l table_map \<Rightarrow> bool" where
  "tables_ok pm root T \<longleftrightarrow>
     T (page_addr_bits (seq_addr root)) = Some (pm_levels pm, 0)
     \<and> (\<forall>t ls P. T t = Some (ls, P) \<longrightarrow>
          ls \<noteq> [] \<and> (\<exists>us. pm_levels pm = us @ ls) \<and> 4096 dvd unat t \<and> unat t + table_bytes pm ls \<le> 2 ^ 56)
     \<and> (\<forall>t ls P t' ls' P'. T t = Some (ls, P) \<longrightarrow> T t' = Some (ls', P') \<longrightarrow> t \<noteq> t' \<longrightarrow>
          unat t + table_bytes pm ls \<le> unat t' \<or> unat t' + table_bytes pm ls' \<le> unat t)"

definition pt_inv :: "'l paging_mode \<Rightarrow> seq_pages \<Rightarrow> 'l table_map \<Rightarrow> mem \<Rightarrow> bool" where
  "pt_inv pm root T m \<longleftrightarrow> tables_ok pm root T \<and> (\<forall>r B. slot_of pm T r B \<longrightarrow> entry_ok pm T r B (m (te_pte r)))"

text \<open>What a walk that starts at one entry ends in.\<close>

definition ref_at :: "'l paging_mode \<Rightarrow> 'l page_table \<Rightarrow> u64 \<Rightarrow> 'l table_entry_mut" where
  "ref_at pm t a = \<lparr>te_pte = entry_mut t (table_index_from_addr pm a (pt_level t)),
                    te_level = pt_level t, te_below = pt_below t\<rparr>"

inductive reach :: "'l paging_mode \<Rightarrow> mem \<Rightarrow> u64 \<Rightarrow> 'l table_entry_mut \<Rightarrow> 'l table_entry_mut \<Rightarrow> bool"
  for pm m a where
  reach_here: "\<not> is_table (m (te_pte r)) \<Longrightarrow> reach pm m a r r"
| reach_down: "is_table (m (te_pte r)) \<Longrightarrow> entry_table pm m r = Ok t \<Longrightarrow> reach pm m a (ref_at pm t a) r'
    \<Longrightarrow> reach pm m a r r'"

lemma reach_end: "reach pm m a r r' \<Longrightarrow> \<not> is_table (m (te_pte r'))"
  by (induction rule: reach.induct) simp_all

lemma reach_fun: "reach pm m a r r' \<Longrightarrow> reach pm m a r r'' \<Longrightarrow> r' = r''"
proof (induction rule: reach.induct)
  case (reach_here r)
  then show ?case
    by (auto elim: reach.cases)
next
  case (reach_down r t r')
  from reach_down.prems show ?case
    by (cases rule: reach.cases) (use reach_down in auto)
qed

definition root_ref :: "'l paging_mode \<Rightarrow> seq_pages \<Rightarrow> u64 \<Rightarrow> 'l table_entry_mut" where
  "root_ref pm root a = ref_at pm (page_table_from_root pm root) a"

definition pt_reach :: "'l paging_mode \<Rightarrow> mem \<Rightarrow> seq_pages \<Rightarrow> u64 \<Rightarrow> 'l table_entry_mut \<Rightarrow> bool" where
  "pt_reach pm m root a r = reach pm m a (root_ref pm root a) r"

lemma entry_for_addr_ref: "entry_for_addr_mut pm m t addr = entry_from_pte m (ref_at pm t (raw_bits addr))"
  by (simp add: entry_for_addr_mut_def entry_for_index_mut_def ref_at_def)

lemma entry_from_pte_ref [simp]: "entry_ref (entry_from_pte m r) = r"
  by (simp add: entry_from_pte_def Let_def)

lemma entry_from_pte_cases:
  "entry_from_pte m r = Table r' \<longleftrightarrow> r' = r \<and> is_table (m (te_pte r))"
  "entry_from_pte m r = Unused r' \<longleftrightarrow> r' = r \<and> is_unused (m (te_pte r))"
  "entry_from_pte m r = Leaf r' \<longleftrightarrow>
     r' = r \<and> pte_valid (m (te_pte r)) \<and> pte_leaf (m (te_pte r)) \<and> \<not> pte_locked (m (te_pte r))"
  "entry_from_pte m r = LockedMapped r' \<longleftrightarrow>
     r' = r \<and> pte_valid (m (te_pte r)) \<and> pte_leaf (m (te_pte r)) \<and> pte_locked (m (te_pte r))"
  "entry_from_pte m r = LockedUnmapped r' \<longleftrightarrow>
     r' = r \<and> \<not> pte_valid (m (te_pte r)) \<and> pte_locked (m (te_pte r))"
  "entry_from_pte m r = Invalidated r' \<longleftrightarrow>
     r' = r \<and> \<not> pte_valid (m (te_pte r)) \<and> \<not> pte_locked (m (te_pte r)) \<and> pfn_bits (pte_pfn (m (te_pte r))) \<noteq> 0"
  by (auto simp: entry_from_pte_def Let_def is_table_def is_unused_def)

lemma walk_loop_reach:
  "reach pm m (raw_bits a) r r' \<Longrightarrow> walk_loop pm m a (entry_from_pte m r) = Ok (entry_from_pte m r')"
proof (induction r r' rule: reach.induct)
  case (reach_here r)
  then show ?case
    by (subst walk_loop.simps) (auto simp: entry_from_pte_def Let_def is_table_def)
next
  case (reach_down r t r')
  then have "entry_from_pte m r = Table r"
    by (simp add: entry_from_pte_cases)
  then show ?case
    using reach_down by (subst walk_loop.simps) (simp add: entry_for_addr_ref)
qed

lemma walk_reach: "pt_reach pm m root (raw_bits a) r \<Longrightarrow> walk pm m root a = Ok (entry_from_pte m r)"
  unfolding walk_def pt_reach_def root_ref_def entry_for_addr_ref by (rule walk_loop_reach)

section \<open>Arithmetic of blocks\<close>

lemma push_one_mask: "push_bit n 1 - 1 = (mask n :: u64)"
  by (simp add: mask_eq_exp_minus_1)

lemma table_index_nat:
  "unat (table_index_from_addr pm a l) = unat a div 2 ^ pm_addr_shift pm l mod 2 ^ pm_addr_width pm l"
  unfolding table_index_from_addr_def push_one_mask
  unfolding take_bit_eq_mask [symmetric] unsigned_take_bit_eq unat_drop_bit_eq
  by (simp only: take_bit_eq_mod drop_bit_eq_div)

lemma va_block_index:
  assumes "pm_addr_shift pm l + pm_addr_width pm l \<le> pm_top_bits pm"
  shows "va_block pm l a mod 2 ^ pm_addr_width pm l = unat (table_index_from_addr pm a l)"
proof -
  have "take_bit (pm_addr_width pm l) (drop_bit (pm_addr_shift pm l) (take_bit (pm_top_bits pm) (unat a)))
        = take_bit (pm_addr_width pm l) (drop_bit (pm_addr_shift pm l) (unat a))"
    using assms by (simp add: drop_bit_take_bit)
  then show ?thesis
    unfolding va_block_def table_index_nat take_bit_eq_mod drop_bit_eq_div .
qed

lemma va_block_up:
  assumes "va_block pm l a = va_block pm l b" and "pm_addr_shift pm l \<le> pm_addr_shift pm l'"
  shows "va_block pm l' a = va_block pm l' b"
proof -
  obtain k where k: "pm_addr_shift pm l' = pm_addr_shift pm l + k"
    using assms(2) le_Suc_ex by blast
  have "va_block pm l' c = va_block pm l c div 2 ^ k" for c
    unfolding va_block_def k power_add div_mult2_eq ..
  then show ?thesis
    using assms(1) by simp
qed

section \<open>Walks under the invariant\<close>

lemma suffix_chain:
  "level_chain pm (us @ ls) \<Longrightarrow> ls \<noteq> [] \<Longrightarrow> level_chain pm ls"
proof (induction us)
  case (Cons u us)
  then show ?case
    by (cases "us @ ls") auto
qed simp

lemma chain_shift:
  "level_chain pm (us @ l # ls) \<Longrightarrow> pm_addr_shift pm l \<le> pm_addr_shift pm (hd (us @ [l]))"
proof (induction us)
  case (Cons u us)
  then show ?case
    by (cases us) auto
qed simp

lemma tables_okD:
  assumes "tables_ok pm root T" and "T t = Some (ls, P)"
  shows "ls \<noteq> []" "\<exists>us. pm_levels pm = us @ ls" "4096 dvd unat t" "unat t + table_bytes pm ls \<le> 2 ^ 56"
  using assms unfolding tables_ok_def by blast+

lemma tables_disjoint:
  assumes "tables_ok pm root T" and "T t = Some (ls, P)" and "T t' = Some (ls', P')" and "t \<noteq> t'"
  shows "unat t + table_bytes pm ls \<le> unat t' \<or> unat t' + table_bytes pm ls' \<le> unat t"
  using assms unfolding tables_ok_def by blast

lemma slot_nat:
  assumes "unat t + 8 * n \<le> 2 ^ 56" and "i < n"
  shows "unat (t + of_nat i * 8 :: u64) = unat t + 8 * i"
proof -
  have "unat (of_nat i * 8 :: u64) = i * 8"
    using assms by (simp add: unat_word_ariths unat_of_nat)
  then show ?thesis
    using assms by (subst unat_add_lem [THEN iffD1]) simp_all
qed

context paging_mode_laws
begin

lemma level_of_table:
  assumes "tables_ok pm root T" and "T t = Some (l # ls, P)"
  shows "level_ok pm l" "level_chain pm (l # ls)"
  using tables_okD(2) [OF assms] levels_ok levels_next
  by (auto simp: list_all_iff intro: suffix_chain)

lemma slot_nat_of:
  assumes "tables_ok pm root T" and "T t = Some (l # ls, P)" and "i < 2 ^ pm_addr_width pm l"
  shows "unat (t + of_nat i * 8) = unat t + 8 * i"
  using tables_okD(4) [OF assms(1,2)] assms(3) by (intro slot_nat) (auto simp: table_bytes_def)

lemma slot_unique:
  assumes ok: "tables_ok pm root T" and r: "slot_of pm T r B" and r': "slot_of pm T r' B'"
    and eq: "te_pte r = te_pte r'"
  shows "r = r' \<and> B = B'"
proof -
  obtain t P i where t: "T t = Some (te_level r # te_below r, P)" "i < 2 ^ pm_addr_width pm (te_level r)"
    "te_pte r = t + of_nat i * 8" "B = P * 2 ^ pm_addr_width pm (te_level r) + i"
    using r unfolding slot_of_def by blast
  obtain t' P' i' where t': "T t' = Some (te_level r' # te_below r', P')" "i' < 2 ^ pm_addr_width pm (te_level r')"
    "te_pte r' = t' + of_nat i' * 8" "B' = P' * 2 ^ pm_addr_width pm (te_level r') + i'"
    using r' unfolding slot_of_def by blast
  have n: "unat t + 8 * i = unat t' + 8 * i'"
    using slot_nat_of [OF ok t(1,2)] slot_nat_of [OF ok t'(1,2)] t(3) t'(3) eq by simp
  have "t = t'"
    using tables_disjoint [OF ok t(1) t'(1)] n t(2) t'(2) by (fastforce simp: table_bytes_def)
  then show ?thesis
    using n t t' eq by (auto simp: table_entry_mut.equality)
qed

lemma slot_of_table:
  assumes ok: "tables_ok pm root T" and t: "T (page_addr_bits (pt_table_addr t)) = Some (pt_level t # pt_below t, P)"
    and P: "P = unat a mod 2 ^ pm_top_bits pm div 2 ^ (pm_addr_shift pm (pt_level t) + pm_addr_width pm (pt_level t))"
  shows "slot_of pm T (ref_at pm t a) (va_block pm (pt_level t) a)"
proof -
  let ?i = "unat (table_index_from_addr pm a (pt_level t))"
  have "pm_addr_shift pm (pt_level t) + pm_addr_width pm (pt_level t) \<le> pm_top_bits pm"
    using level_of_table(1) [OF ok t] by (simp add: level_ok_def)
  then have i: "va_block pm (pt_level t) a mod 2 ^ pm_addr_width pm (pt_level t) = ?i"
    by (rule va_block_index)
  have P': "va_block pm (pt_level t) a div 2 ^ pm_addr_width pm (pt_level t) = P"
    unfolding P va_block_def power_add div_mult2_eq ..
  have "?i < 2 ^ pm_addr_width pm (pt_level t)"
    unfolding i [symmetric] by simp
  moreover have "va_block pm (pt_level t) a = P * 2 ^ pm_addr_width pm (pt_level t) + ?i"
    using P' i by (metis div_mod_decomp)
  ultimately show ?thesis
    unfolding slot_of_def ref_at_def entry_mut_def
    using t by (intro exI [of _ "page_addr_bits (pt_table_addr t)"] exI [of _ P] exI [of _ ?i]) simp
qed

lemma root_slot: "tables_ok pm root T \<Longrightarrow> slot_of pm T (root_ref pm root a) (va_block pm (pm_root_level pm) a)"
  using slot_of_table [of root T "page_table_from_root pm root" 0 a]
  by (simp add: root_ref_def page_table_from_root_def tables_ok_def pm_levels_def pm_top_bits_def)

text \<open>An entry that points to a table leads to the cell of the address in that table.\<close>

lemma entry_table_slot:
  assumes inv: "pt_inv pm root T m" and r: "slot_of pm T r (va_block pm (te_level r) a)"
    and tab: "is_table (m (te_pte r))"
  obtains t where "entry_table pm m r = Ok t" "te_below r = pt_level t # pt_below t"
    "slot_of pm T (ref_at pm t a) (va_block pm (pt_level t) a)"
    "T (page_addr_bits (pt_table_addr t)) = Some (te_below r, va_block pm (te_level r) a)"
proof -
  have ok: "tables_ok pm root T" and e: "entry_ok pm T r (va_block pm (te_level r) a) (m (te_pte r))"
    using inv r by (auto simp: pt_inv_def)
  obtain l ls where b: "te_below r = l # ls"
    using e tab by (auto simp: entry_ok_def neq_Nil_conv)
  obtain t0 P where t0: "T t0 = Some (te_level r # l # ls, P)"
    using r b by (auto simp: slot_of_def)
  have chain: "pm_table_pages pm l = 1" "pm_addr_shift pm (te_level r) = pm_addr_shift pm l + pm_addr_width pm l"
    using level_of_table(2) [OF ok t0] by auto
  define a' where "a' = PageAddr (raw_supervisor (push_bit 12 (pfn_bits (pte_pfn (m (te_pte r))))))"
  have al: "4096 dvd unat (push_bit 12 (pfn_bits (pte_pfn (m (te_pte r)))))"
    using tables_okD(3) [OF ok] e tab by (auto simp: entry_ok_def)
  have "page_addr_from_pfn (pte_pfn (m (te_pte r))) Size4k = Some a'"
    using al by (simp add: page_addr_from_pfn_def page_addr_with_alignment_def a'_def PFN_SHIFT_def
        pte_pfn_def pfn_supervisor_def raw_supervisor_def page_size_is_aligned_iff)
  let ?t = "\<lparr>pt_table_addr = a', pt_level = l, pt_below = ls\<rparr>"
  have T: "T (page_addr_bits a') = Some (l # ls, va_block pm (te_level r) a)"
    using e tab b by (simp add: entry_ok_def a'_def page_addr_bits_def raw_supervisor_def)
  have "slot_of pm T (ref_at pm ?t a) (va_block pm (pt_level ?t) a)"
    using T chain(2) by (intro slot_of_table [OF ok]) (simp_all add: va_block_def)
  moreover have "entry_table pm m r = Ok ?t"
    using \<open>page_addr_from_pfn _ _ = Some a'\<close> tab b chain
    by (simp add: entry_table_def page_table_from_pte_def is_table_def)
  ultimately show ?thesis
    using T b by (intro that [of ?t]) simp_all
qed

lemma pt_invD: "pt_inv pm root T m \<Longrightarrow> slot_of pm T r B \<Longrightarrow> entry_ok pm T r B (m (te_pte r))"
  by (simp add: pt_inv_def)

lemma entry_table_cong: "m' (te_pte r) = m (te_pte r) \<Longrightarrow> entry_table pm m' r = entry_table pm m r"
  by (simp add: entry_table_def page_table_from_pte_def split: list.split)

lemma reach_total:
  assumes inv: "pt_inv pm root T m" and r: "slot_of pm T r (va_block pm (te_level r) a)"
  shows "\<exists>r'. reach pm m a r r'"
  using r
proof (induction "te_below r" arbitrary: r)
  case Nil
  have "\<not> is_table (m (te_pte r))"
    using pt_invD [OF inv Nil.prems] Nil.hyps by (auto simp: entry_ok_def)
  then show ?case
    by (blast intro: reach_here)
next
  case (Cons l ls)
  show ?case
  proof (cases "is_table (m (te_pte r))")
    case True
    then obtain t where t: "entry_table pm m r = Ok t" "te_below r = pt_level t # pt_below t"
      "slot_of pm T (ref_at pm t a) (va_block pm (pt_level t) a)"
      using entry_table_slot [OF inv Cons.prems] by metis
    then have "\<exists>r'. reach pm m a (ref_at pm t a) r'"
      using Cons.hyps by (intro Cons.hyps(1)) (simp_all add: ref_at_def)
    then show ?thesis
      using True t by (blast intro: reach_down)
  qed (blast intro: reach_here)
qed

lemma reach_slot:
  assumes inv: "pt_inv pm root T m" and "reach pm m a r r'" and "slot_of pm T r (va_block pm (te_level r) a)"
  shows "slot_of pm T r' (va_block pm (te_level r') a)
    \<and> (\<exists>us. te_level r # te_below r = us @ te_level r' # te_below r')"
  using assms(2,3)
proof (induction rule: reach.induct)
  case (reach_here r)
  then show ?case
    by (auto intro: exI [of _ "[]"])
next
  case (reach_down r t r')
  then have t: "te_below r = pt_level t # pt_below t"
    "slot_of pm T (ref_at pm t a) (va_block pm (pt_level t) a)"
    using entry_table_slot [OF inv reach_down.prems reach_down.hyps(1)] by (metis result.inject(1))+
  then obtain us where "pt_level t # pt_below t = us @ te_level r' # te_below r'"
    and "slot_of pm T r' (va_block pm (te_level r') a)"
    using reach_down.IH by (auto simp: ref_at_def)
  then show ?case
    using t(1) by (auto intro: exI [of _ "te_level r # us"])
qed

text \<open>Cells that are no tables may change: the walk goes as before to where it ended.\<close>

lemma reach_resume:
  assumes inv: "pt_inv pm root T m" and "reach pm m a r r'" and "slot_of pm T r (va_block pm (te_level r) a)"
    and same: "\<And>s B. slot_of pm T s B \<Longrightarrow> is_table (m (te_pte s)) \<Longrightarrow> m' (te_pte s) = m (te_pte s)"
    and "reach pm m' a r' r''"
  shows "reach pm m' a r r''"
  using assms(2,3,5)
proof (induction rule: reach.induct)
  case (reach_down r t r')
  have sl: "slot_of pm T (ref_at pm t a) (va_block pm (te_level (ref_at pm t a)) a)"
    using entry_table_slot [OF inv reach_down.prems(1) reach_down.hyps(1)] reach_down.hyps(2)
    by (metis result.inject(1) ref_at_def table_entry_mut.select_convs(2))
  have "m' (te_pte r) = m (te_pte r)"
    using same reach_down by blast
  moreover from this have "entry_table pm m' r = Ok t"
    using reach_down.hyps(2) entry_table_cong by metis
  ultimately show ?case
    using reach_down sl by (metis reach.reach_down)
qed simp

text \<open>Addresses in the block of the final level walk to the same cell.\<close>

lemma reach_same_block:
  assumes inv: "pt_inv pm root T m" and "reach pm m a r r'" and "slot_of pm T r (va_block pm (te_level r) a)"
    and "va_block pm (te_level r') a = va_block pm (te_level r') b"
  shows "reach pm m b r r'"
  using assms(2-4)
proof (induction rule: reach.induct)
  case (reach_here r)
  then show ?case
    by (blast intro: reach.reach_here)
next
  case (reach_down r t r')
  obtain t0: "te_below r = pt_level t # pt_below t"
    and sl: "slot_of pm T (ref_at pm t a) (va_block pm (te_level (ref_at pm t a)) a)"
    and T: "T (page_addr_bits (pt_table_addr t)) = Some (te_below r, va_block pm (te_level r) a)"
    using entry_table_slot [OF inv reach_down.prems(1) reach_down.hyps(1)] reach_down.hyps(2)
    by (metis result.inject(1) ref_at_def table_entry_mut.select_convs(2))
  obtain us where us: "pt_level t # pt_below t = us @ te_level r' # te_below r'"
    using reach_slot [OF inv reach_down.hyps(3) sl] by (auto simp: ref_at_def)
  have lv: "level_ok pm (pt_level t)" "level_chain pm (pt_level t # pt_below t)"
    using level_of_table [of root T] inv T t0 by (auto simp: pt_inv_def)
  have "hd (us @ [te_level r']) = pt_level t"
    using us by (cases us) auto
  then have "pm_addr_shift pm (te_level r') \<le> pm_addr_shift pm (pt_level t)"
    using chain_shift [of pm us "te_level r'" "te_below r'"] lv(2) by (simp only: us)
  then have "va_block pm (pt_level t) a = va_block pm (pt_level t) b"
    using reach_down.prems(2) by (rule va_block_up [rotated])
  then have "table_index_from_addr pm a (pt_level t) = table_index_from_addr pm b (pt_level t)"
    using va_block_index [of pm "pt_level t" a] va_block_index [of pm "pt_level t" b] lv(1)
    by (simp add: level_ok_def word_unat_eq_iff)
  then have "ref_at pm t a = ref_at pm t b"
    by (simp add: ref_at_def)
  then show ?case
    using reach_down sl by (metis reach.reach_down)
qed

end

section \<open>Frames and entries\<close>

lemma pfn_bits_nat: "unat (pfn_bits (page_addr_pfn a)) = addr_nat a div 4096 mod 2 ^ 44"
  using page_addr_index_eq [of a] by (simp add: page_addr_index_def)

lemma pte_pfn_set:
  assumes "\<And>n. bit st n \<Longrightarrow> n < 10"
  shows "pte_pfn (pte_set (page_addr_pfn (a :: supervisor_page_addr)) st) = page_addr_pfn a"
proof -
  have "unat (pfn_bits (page_addr_pfn a)) < 2 ^ 44"
    by (simp add: pfn_bits_nat)
  note p = pfn_bits_small [OF this]
  have "pfn_bits (pte_pfn (pte_set (page_addr_pfn a) st)) = pfn_bits (page_addr_pfn a)"
    using p assms by (intro bit_eqI) (fastforce simp: pte_bits)
  then show ?thesis
    by (cases "page_addr_pfn a"; cases "pte_pfn (pte_set (page_addr_pfn a) st)")
       (metis (full_types) supervisor_phys.exhaust pfn.sel(1))
qed

lemma page_addr_push:
  assumes "4096 dvd addr_nat a" and "addr_nat a < 2 ^ 56"
  shows "push_bit 12 (pfn_bits (page_addr_pfn a)) = page_addr_bits a"
proof -
  have "unat (pfn_bits (page_addr_pfn a)) = addr_nat a div 4096"
    using assms(2) by (simp add: pfn_bits_nat)
  then have "unat (push_bit 12 (pfn_bits (page_addr_pfn a))) = addr_nat a"
    using assms by (simp add: unat_word_ariths push_bit_eq_mult)
  then show ?thesis
    by (simp add: addr_nat_def word_unat_eq_iff)
qed

lemma from_pfn_aligned:
  "page_addr_from_pfn p s \<noteq> None \<longleftrightarrow> bytes_nat s dvd unat (pfn_bits p) * 4096 mod 2 ^ 64"
  by (simp add: page_addr_from_pfn_def page_addr_with_alignment_def page_size_is_aligned_iff PFN_SHIFT_def
        unat_word_ariths push_bit_eq_mult)

lemma from_pfn_of_page:
  assumes "page_addr_is_aligned a s"
  shows "page_addr_from_pfn (page_addr_pfn a) s \<noteq> None"
proof -
  have "bytes_nat s dvd addr_nat a"
    using assms by (simp add: page_addr_is_aligned_iff)
  moreover have "bytes_nat s dvd 2 ^ 56"
    by (cases s) simp_all
  moreover have "4096 dvd addr_nat a"
    using assms dvd_trans [of 4096 "bytes_nat s"] by (cases s) (auto simp: page_addr_is_aligned_iff)
  then have "addr_nat a div 4096 mod 2 ^ 44 * 4096 = addr_nat a mod 2 ^ 56"
    by (auto simp: mult_mod_right mult.commute)
  ultimately show ?thesis
    unfolding from_pfn_aligned pfn_bits_nat by (simp add: dvd_mod)
qed

end
