(* ===== verification/Page_Table_Ops.thy ===== *)
theory Page_Table_Ops
  imports Page_Table_Inv
begin

text \<open>
  What the operations on one leaf do, over the view of a table: the entry, with its level, that
  each address translates through, or none when the entry is unused. Writing an entry changes the
  view of one block of addresses; filling in a missing table changes no view at all.
\<close>

definition cell_view :: "'l \<Rightarrow> u64 \<Rightarrow> ('l \<times> u64) option" where
  "cell_view l v = (if is_unused v then None else Some (l, v))"

definition pt_view :: "'l paging_mode \<Rightarrow> mem \<Rightarrow> seq_pages \<Rightarrow> u64 \<Rightarrow> ('l \<times> u64) option" where
  "pt_view pm m root a =
     (case walk pm m root (RawAddr a ()) of
        Ok e \<Rightarrow> cell_view (te_level (entry_ref e)) (m (te_pte (entry_ref e)))
      | _ \<Rightarrow> None)"

text \<open>The view after the block of one address at one level is given another entry.\<close>

definition block_upd :: "'l paging_mode \<Rightarrow> (u64 \<Rightarrow> ('l \<times> u64) option) \<Rightarrow> 'l \<Rightarrow> u64 \<Rightarrow> u64 \<Rightarrow> u64 \<Rightarrow> ('l \<times> u64) option" where
  "block_upd pm f l a v b = (if va_block pm l b = va_block pm l a then cell_view l v else f b)"

lemma view_reach: "pt_reach pm m root a r \<Longrightarrow> pt_view pm m root a = cell_view (te_level r) (m (te_pte r))"
  using walk_reach [of pm m root "RawAddr a ()" r] by (simp add: pt_view_def)

definition cell_ok :: "'l paging_mode \<Rightarrow> 'l \<Rightarrow> u64 \<Rightarrow> bool" where
  "cell_ok pm l v \<longleftrightarrow> \<not> is_table v \<and> page_addr_from_pfn (pte_pfn v) (pm_leaf_page_size pm l) \<noteq> None"

lemma entry_ok_cell: "cell_ok pm (te_level r) v \<Longrightarrow> entry_ok pm T r B v"
  by (simp add: cell_ok_def entry_ok_def)

context paging_mode_laws
begin

lemma pt_reach_ex: "pt_inv pm root T m \<Longrightarrow> \<exists>r. pt_reach pm m root a r"
  unfolding pt_reach_def using root_slot
  by (intro reach_total) (auto simp: pt_inv_def root_ref_def ref_at_def page_table_from_root_def)

lemma root_ref_slot:
  "pt_inv pm root T m \<Longrightarrow> slot_of pm T (root_ref pm root a) (va_block pm (te_level (root_ref pm root a)) a)"
  using root_slot by (auto simp: pt_inv_def root_ref_def ref_at_def page_table_from_root_def)

lemma pt_reach_slot:
  "pt_inv pm root T m \<Longrightarrow> pt_reach pm m root a r \<Longrightarrow> slot_of pm T r (va_block pm (te_level r) a)"
  unfolding pt_reach_def using reach_slot root_ref_slot by blast

lemma pt_reach_cell:
  assumes "pt_inv pm root T m" and "pt_reach pm m root a r"
  shows "cell_ok pm (te_level r) (m (te_pte r))"
proof -
  have "\<not> is_table (m (te_pte r))"
    using assms(2) unfolding pt_reach_def by (rule reach_end)
  then show ?thesis
    using pt_invD [OF assms(1) pt_reach_slot [OF assms]] by (simp add: entry_ok_def cell_ok_def)
qed

lemma pt_reach_resume:
  assumes "pt_inv pm root T m" and "pt_reach pm m root a r"
    and "\<And>s B. slot_of pm T s B \<Longrightarrow> is_table (m (te_pte s)) \<Longrightarrow> m' (te_pte s) = m (te_pte s)"
    and "reach pm m' a r r'"
  shows "pt_reach pm m' root a r'"
  using assms root_ref_slot unfolding pt_reach_def by (blast intro: reach_resume)

lemma root_ref_same_block:
  assumes "va_block pm (pm_root_level pm) a = va_block pm (pm_root_level pm) b"
  shows "root_ref pm root a = root_ref pm root b"
proof -
  have "pm_addr_shift pm (pm_root_level pm) + pm_addr_width pm (pm_root_level pm) \<le> pm_top_bits pm"
    by (simp add: pm_top_bits_def)
  then have "table_index_from_addr pm a (pm_root_level pm) = table_index_from_addr pm b (pm_root_level pm)"
    using assms va_block_index [of pm "pm_root_level pm"] by (metis word_unat_eq_iff)
  then show ?thesis
    by (simp add: root_ref_def ref_at_def page_table_from_root_def)
qed

lemma pt_reach_same_block:
  assumes inv: "pt_inv pm root T m" and r: "pt_reach pm m root a r"
    and b: "va_block pm (te_level r) a = va_block pm (te_level r) b"
  shows "pt_reach pm m root b r"
proof -
  obtain us where us: "pm_levels pm = us @ te_level r # te_below r"
    using reach_slot [OF inv r [unfolded pt_reach_def] root_ref_slot [OF inv]]
    by (auto simp: pm_levels_def root_ref_def ref_at_def page_table_from_root_def)
  have "hd (us @ [te_level r]) = pm_root_level pm"
    using us by (cases us) (auto simp: pm_levels_def)
  then have "pm_addr_shift pm (te_level r) \<le> pm_addr_shift pm (pm_root_level pm)"
    using chain_shift [of pm us "te_level r" "te_below r"] levels_next us by simp
  then have "root_ref pm root a = root_ref pm root b"
    using b by (intro root_ref_same_block) (rule va_block_up)
  then show ?thesis
    using reach_same_block [OF inv r [unfolded pt_reach_def] root_ref_slot [OF inv] b] by (simp add: pt_reach_def)
qed

text \<open>Two addresses end in one cell exactly when they are in the same block of its level.\<close>

lemma pt_reach_block_iff:
  assumes inv: "pt_inv pm root T m" and r: "pt_reach pm m root a r" and r': "pt_reach pm m root b r'"
  shows "te_pte r' = te_pte r \<longleftrightarrow> va_block pm (te_level r) b = va_block pm (te_level r) a"
    and "te_pte r' = te_pte r \<Longrightarrow> r' = r"
proof -
  have u: "te_pte r' = te_pte r \<Longrightarrow> r' = r \<and> va_block pm (te_level r') b = va_block pm (te_level r) a"
    using slot_unique [OF _ pt_reach_slot [OF inv r'] pt_reach_slot [OF inv r]] inv by (auto simp: pt_inv_def)
  have "va_block pm (te_level r) b = va_block pm (te_level r) a \<Longrightarrow> r' = r"
    using pt_reach_same_block [OF inv r] r' reach_fun unfolding pt_reach_def
    by (metis pt_reach_def root_ref_same_block)
  then show "te_pte r' = te_pte r \<longleftrightarrow> va_block pm (te_level r) b = va_block pm (te_level r) a"
    using u by blast
  show "te_pte r' = te_pte r \<Longrightarrow> r' = r"
    using u by blast
qed

lemma pt_write:
  assumes inv: "pt_inv pm root T m" and r: "pt_reach pm m root a r" and v: "cell_ok pm (te_level r) v"
  shows "pt_inv pm root T (pte_write m r v)"
    and "pt_view pm (pte_write m r v) root = block_upd pm (pt_view pm m root) (te_level r) a v"
    and "pt_reach pm (pte_write m r v) root a r"
proof -
  let ?m = "pte_write m r v"
  have nt: "\<not> is_table (m (te_pte r))" "\<not> is_table v"
    using pt_reach_cell [OF inv r] v by (auto simp: cell_ok_def)
  show "pt_inv pm root T ?m"
    using inv v slot_unique [OF _ _ pt_reach_slot [OF inv r]]
    unfolding pt_inv_def pte_write_def by (auto intro: entry_ok_cell)
  have go: "pt_reach pm ?m root b rb" if "pt_reach pm m root b rb" for b rb
  proof (rule pt_reach_resume [OF inv that])
    show "reach pm ?m b rb rb"
      using that nt reach_end [of pm m b _ rb] unfolding pt_reach_def
      by (intro reach_here) (auto simp: pte_write_def)
  qed (use nt in \<open>auto simp: pte_write_def\<close>)
  show "pt_reach pm ?m root a r"
    using go r .
  show "pt_view pm ?m root = block_upd pm (pt_view pm m root) (te_level r) a v"
  proof
    fix b
    obtain rb where rb: "pt_reach pm m root b rb"
      using pt_reach_ex [OF inv] by blast
    show "pt_view pm ?m root b = block_upd pm (pt_view pm m root) (te_level r) a v b"
      using view_reach [OF go [OF rb]] view_reach [OF rb] pt_reach_block_iff [OF inv r rb]
      by (auto simp: block_upd_def pte_write_def)
  qed
qed

text \<open>A page that no table of the hierarchy uses, with all its cells zero.\<close>

end

definition fresh_addr :: "'l paging_mode \<Rightarrow> 'l table_map \<Rightarrow> supervisor_page_addr \<Rightarrow> bool" where
  "fresh_addr pm T a \<longleftrightarrow> 4096 dvd addr_nat a \<and> addr_nat a + 4096 \<le> 2 ^ 56
     \<and> (\<forall>t ls P. T t = Some (ls, P) \<longrightarrow> addr_nat a + 4096 \<le> unat t \<or> unat t + table_bytes pm ls \<le> addr_nat a)"

definition zero_page :: "mem \<Rightarrow> supervisor_page_addr \<Rightarrow> bool" where
  "zero_page m a \<longleftrightarrow> (\<forall>c. in_bytes (page_addr_bits a) 4096 c \<longrightarrow> m c = 0)"

lemma is_unused_zero [simp]: "is_unused 0" "\<not> is_table 0"
  by (simp_all add: is_unused_def is_table_def pte_valid_bit pte_locked_bit pte_pfn_def pfn_supervisor_def)

lemma is_unused_not_table: "is_unused v \<Longrightarrow> \<not> is_table v"
  by (simp add: is_unused_def is_table_def)

lemma is_table_set_non_leaf: "is_table (pte_set p non_leaf)"
  by (simp add: is_table_def pte_bits non_leaf_def)

context paging_mode_laws
begin

lemma slot_in_table:
  assumes "tables_ok pm root T" and "T t = Some (l # ls, P)" and "i < 2 ^ pm_addr_width pm l"
  shows "in_bytes t (table_bytes pm (l # ls)) (t + of_nat i * 8)"
  using slot_nat_of [OF assms] assms(3) by (simp add: in_bytes_def table_bytes_def)

lemma fresh_not_slot:
  assumes "tables_ok pm root T" and "fresh_addr pm T p" and "slot_of pm T r B"
  shows "\<not> in_bytes (page_addr_bits p) 4096 (te_pte r)"
proof -
  obtain t P i where t: "T t = Some (te_level r # te_below r, P)" "i < 2 ^ pm_addr_width pm (te_level r)"
    "te_pte r = t + of_nat i * 8"
    using assms(3) unfolding slot_of_def by blast
  have "in_bytes t (table_bytes pm (te_level r # te_below r)) (te_pte r)"
    using slot_in_table [OF assms(1) t(1,2)] t(3) by simp
  then show ?thesis
    using assms(2) t(1) unfolding fresh_addr_def in_bytes_def addr_nat_def by fastforce
qed

lemma zero_cell_ok: "cell_ok pm l 0"
  using from_pfn_aligned [of "Pfn 0 SupervisorPhys"] by (simp add: cell_ok_def pte_pfn_def pfn_supervisor_def)

lemma tables_ok_add:
  assumes ok: "tables_ok pm root T" and p: "fresh_addr pm T p" and t: "T t = Some (l # l' # ls, P)"
  shows "tables_ok pm root (T(page_addr_bits p \<mapsto> (l' # ls, B)))"
proof -
  obtain us where us: "pm_levels pm = us @ l # l' # ls"
    using tables_okD(2) [OF ok t] by blast
  have one: "pm_table_pages pm l' = 1" "level_ok pm l'"
    using level_of_table(2) [OF ok t] levels_ok us by (auto simp: list_all_iff)
  then have b: "table_bytes pm (l' # ls) = 4096"
    by (simp add: table_bytes_def level_ok_def)
  have ne: "t' \<noteq> page_addr_bits p" if "T t' = Some x" for t' x
    using p that b unfolding fresh_addr_def addr_nat_def
    by (cases x) (fastforce simp: table_bytes_def)
  have "pm_levels pm = (us @ [l]) @ l' # ls"
    using us by simp
  then show ?thesis
    using ok p ne b unfolding tables_ok_def fresh_addr_def
    by (auto simp: addr_nat_def split: if_splits simp del: append_assoc) blast+
qed

lemma entry_table_bits:
  "entry_table pm' m r = Ok t \<Longrightarrow> page_addr_bits (pt_table_addr t) = push_bit 12 (pfn_bits (pte_pfn (m (te_pte r))))"
  by (auto simp: entry_table_def page_table_from_pte_def page_addr_from_pfn_def page_addr_with_alignment_def
      page_addr_bits_def PFN_SHIFT_def result_simps split: list.splits if_splits)

lemma slot_of_mono:
  "(\<And>t x. T t = Some x \<Longrightarrow> T' t = Some x) \<Longrightarrow> slot_of pm T r B \<Longrightarrow> slot_of pm T' r B"
  unfolding slot_of_def by blast

lemma fill_inv:
  assumes inv: "pt_inv pm root T m" and r: "slot_of pm T r B" and un: "is_unused (m (te_pte r))"
    and below: "te_below r \<noteq> []" and p: "fresh_addr pm T p" "zero_page m' p"
    and m': "\<And>c. \<not> in_bytes (page_addr_bits p) 4096 c \<Longrightarrow> m' c = m c"
  shows "pt_inv pm root (T(page_addr_bits p \<mapsto> (te_below r, B))) (unused_map_table m' r p)"
proof -
  let ?T = "T(page_addr_bits p \<mapsto> (te_below r, B))" and ?m = "unused_map_table m' r p"
  have ok: "tables_ok pm root T"
    using inv by (simp add: pt_inv_def)
  obtain l ls t P where b: "te_below r = l # ls" and t: "T t = Some (te_level r # l # ls, P)"
    using below r by (auto simp: slot_of_def neq_Nil_conv)
  have ok': "tables_ok pm root ?T"
    using tables_ok_add [OF ok p(1) t] b by simp
  have pT: "T (page_addr_bits p) = None"
    using p(1) tables_okD(4) [OF ok] ok unfolding fresh_addr_def addr_nat_def
    by (cases "T (page_addr_bits p)") (fastforce simp: table_bytes_def)+
  have old: "slot_of pm ?T s C" if "slot_of pm T s C" for s C
    using that pT by (elim slot_of_mono [rotated]) auto
  have push: "push_bit 12 (pfn_bits (pte_pfn (pte_set (page_addr_pfn p) non_leaf))) = page_addr_bits p"
    using p(1) by (subst pte_pfn_set) (auto simp: non_leaf_def fresh_addr_def intro!: page_addr_push)
  have "entry_ok pm ?T s C (?m (te_pte s))" if s: "slot_of pm ?T s C" for s C
  proof (cases "te_pte s = te_pte r")
    case True
    then have "s = r \<and> C = B"
      using slot_unique [OF ok' s old [OF r]] by blast
    then show ?thesis
      using below push by (simp add: entry_ok_def unused_map_table_def pte_write_def is_table_set_non_leaf)
  next
    case False
    then have m: "?m (te_pte s) = m' (te_pte s)"
      by (simp add: unused_map_table_def pte_write_def)
    obtain t' P' i where t': "?T t' = Some (te_level s # te_below s, P')" "i < 2 ^ pm_addr_width pm (te_level s)"
      "te_pte s = t' + of_nat i * 8" "C = P' * 2 ^ pm_addr_width pm (te_level s) + i"
      using s unfolding slot_of_def by blast
    show ?thesis
    proof (cases "t' = page_addr_bits p")
      case True
      have "in_bytes t' (table_bytes pm (te_level s # te_below s)) (te_pte s)"
        using slot_in_table [OF ok' t'(1,2)] t'(3) by simp
      moreover have "table_bytes pm (te_level s # te_below s) = 4096"
        using True t'(1) b level_of_table [OF ok' t'(1)] level_of_table(2) [OF ok t]
        by (auto simp: table_bytes_def level_ok_def)
      ultimately have "m' (te_pte s) = 0"
        using p(2) True by (simp add: zero_page_def)
      then show ?thesis
        using m zero_cell_ok entry_ok_cell by metis
    next
      case False
      then have sT: "slot_of pm T s C"
        using t' unfolding slot_of_def by auto
      have "m' (te_pte s) = m (te_pte s)"
        using m' fresh_not_slot [OF ok p(1) sT] by blast
      then show ?thesis
        using pt_invD [OF inv sT] m pT by (auto simp: entry_ok_def)
    qed
  qed
  then show ?thesis
    using ok' by (simp add: pt_inv_def)
qed

text \<open>The table that was filled in is empty.\<close>

lemma fill_table:
  assumes inv: "pt_inv pm root T m" and r: "slot_of pm T r (va_block pm (te_level r) a)"
    and un: "is_unused (m (te_pte r))" and below: "te_below r \<noteq> []"
    and p: "fresh_addr pm T p" "zero_page m' p"
    and m': "\<And>c. \<not> in_bytes (page_addr_bits p) 4096 c \<Longrightarrow> m' c = m c"
  obtains t where "entry_table pm (unused_map_table m' r p) r = Ok t" "te_below r = pt_level t # pt_below t"
    "slot_of pm (T(page_addr_bits p \<mapsto> (te_below r, va_block pm (te_level r) a))) (ref_at pm t a)
       (va_block pm (pt_level t) a)"
    "unused_map_table m' r p (te_pte (ref_at pm t a)) = 0"
proof -
  let ?T = "T(page_addr_bits p \<mapsto> (te_below r, va_block pm (te_level r) a))" and ?m = "unused_map_table m' r p"
  have inv': "pt_inv pm root ?T ?m"
    by (rule fill_inv [OF inv r un below p m'])
  have ok: "tables_ok pm root T" and ok': "tables_ok pm root ?T"
    using inv inv' by (simp_all add: pt_inv_def)
  have pT: "T (page_addr_bits p) = None"
    using p(1) unfolding fresh_addr_def addr_nat_def
    by (cases "T (page_addr_bits p)") (fastforce simp: table_bytes_def)+
  then have r': "slot_of pm ?T r (va_block pm (te_level r) a)"
    using r by (elim slot_of_mono [rotated]) auto
  have v: "?m (te_pte r) = pte_set (page_addr_pfn p) non_leaf"
    by (simp add: unused_map_table_def pte_write_def)
  then have "is_table (?m (te_pte r))"
    by (simp add: is_table_set_non_leaf)
  then obtain t where t: "entry_table pm ?m r = Ok t" "te_below r = pt_level t # pt_below t"
    "slot_of pm ?T (ref_at pm t a) (va_block pm (pt_level t) a)"
    "?T (page_addr_bits (pt_table_addr t)) = Some (te_below r, va_block pm (te_level r) a)"
    using entry_table_slot [OF inv' r'] by metis
  have "push_bit 12 (pfn_bits (pte_pfn (pte_set (page_addr_pfn p) non_leaf))) = page_addr_bits p"
    using p(1) by (subst pte_pfn_set) (auto simp: non_leaf_def fresh_addr_def intro!: page_addr_push)
  then have tp: "page_addr_bits (pt_table_addr t) = page_addr_bits p"
    using entry_table_bits [OF t(1)] v by simp
  have t4: "?T (page_addr_bits (pt_table_addr t)) = Some (pt_level t # pt_below t, va_block pm (te_level r) a)"
    using t(4) t(2) by (simp only:)
  have lv: "level_ok pm (pt_level t)"
    by (rule level_of_table(1) [OF ok' t4])
  have i: "unat (table_index_from_addr pm a (pt_level t)) < 2 ^ pm_addr_width pm (pt_level t)"
    by (simp add: table_index_nat)
  obtain t0 P where "T t0 = Some (te_level r # pt_level t # pt_below t, P)"
    using r t(2) by (auto simp: slot_of_def)
  then have "table_bytes pm (pt_level t # pt_below t) = 4096"
    using level_of_table(2) [OF ok] lv by (fastforce simp: table_bytes_def level_ok_def)
  then have c: "in_bytes (page_addr_bits p) 4096 (te_pte (ref_at pm t a))"
    using slot_in_table [OF ok' t4 i] tp by (simp add: ref_at_def entry_mut_def)
  then have "te_pte (ref_at pm t a) \<noteq> te_pte r"
    using fresh_not_slot [OF ok p(1) r] by metis
  then have "?m (te_pte (ref_at pm t a)) = 0"
    using c p(2) by (simp add: unused_map_table_def pte_write_def zero_page_def)
  then show ?thesis
    using t that by blast
qed

lemma fill_other:
  assumes "pt_inv pm root T m" and "fresh_addr pm T p"
    and "\<And>c. \<not> in_bytes (page_addr_bits p) 4096 c \<Longrightarrow> m' c = m c"
    and "slot_of pm T s C" and "te_pte s \<noteq> te_pte r"
  shows "unused_map_table m' r p (te_pte s) = m (te_pte s)"
  using assms fresh_not_slot [of root T p s C] by (simp add: unused_map_table_def pte_write_def pt_inv_def)

lemma fill_same:
  assumes "pt_inv pm root T m" and "is_unused (m (te_pte r))" and "fresh_addr pm T p"
    and "\<And>c. \<not> in_bytes (page_addr_bits p) 4096 c \<Longrightarrow> m' c = m c"
    and "slot_of pm T s C" and "is_table (m (te_pte s))"
  shows "unused_map_table m' r p (te_pte s) = m (te_pte s)"
  using fill_other [OF assms(1,3,4,5)] assms(2,6) is_unused_not_table by metis

lemma fill_view:
  assumes inv: "pt_inv pm root T m" and r: "slot_of pm T r (va_block pm (te_level r) a)"
    and un: "is_unused (m (te_pte r))" and below: "te_below r \<noteq> []"
    and p: "fresh_addr pm T p" "zero_page m' p"
    and m': "\<And>c. \<not> in_bytes (page_addr_bits p) 4096 c \<Longrightarrow> m' c = m c"
  shows "pt_view pm (unused_map_table m' r p) root = pt_view pm m root"
proof
  fix b
  let ?m = "unused_map_table m' r p"
  have ok: "tables_ok pm root T"
    using inv by (simp add: pt_inv_def)
  note same = fill_other [OF inv p(1) m'] and tab = fill_same [OF inv un p(1) m']
  obtain rb where rb: "pt_reach pm m root b rb"
    using pt_reach_ex [OF inv] by blast
  have sb: "slot_of pm T rb (va_block pm (te_level rb) b)"
    by (rule pt_reach_slot [OF inv rb])
  show "pt_view pm ?m root b = pt_view pm m root b"
  proof (cases "te_pte rb = te_pte r")
    case False
    then have eq: "?m (te_pte rb) = m (te_pte rb)"
      using same sb by blast
    then have "reach pm ?m b rb rb"
      using reach_end [OF rb [unfolded pt_reach_def]] by (intro reach_here) simp
    then have "pt_reach pm ?m root b rb"
      using tab by (intro pt_reach_resume [OF inv rb])
    then show ?thesis
      using view_reach rb eq by metis
  next
    case True
    then have rr: "rb = r"
      using slot_unique [OF ok sb r] by blast
    obtain t where t: "entry_table pm ?m r = Ok t" "?m (te_pte (ref_at pm t b)) = 0"
      using fill_table [OF inv _ un below p m', of b] sb rr by metis
    have "reach pm ?m b r (ref_at pm t b)"
      using t is_table_set_non_leaf
      by (intro reach_down [of ?m r pm t] reach_here) (simp_all add: unused_map_table_def pte_write_def)
    then have "pt_reach pm ?m root b (ref_at pm t b)"
      using tab rr by (intro pt_reach_resume [OF inv rb]) simp_all
    then show ?thesis
      using view_reach [of pm ?m root b "ref_at pm t b"] view_reach [OF rb] rr un t(2) by (simp add: cell_view_def)
  qed
qed

end

text \<open>The invariant holds afterwards, and only cells of tables were written.\<close>

definition pt_step :: "'l paging_mode \<Rightarrow> seq_pages \<Rightarrow> 'l table_map \<Rightarrow> mem \<Rightarrow> mem \<Rightarrow> bool" where
  "pt_step pm root T m m' \<longleftrightarrow> pt_inv pm root T m'
     \<and> (\<forall>c. m' c \<noteq> m c \<longrightarrow> (\<exists>r B. slot_of pm T r B \<and> te_pte r = c))"

lemma pt_step_refl: "pt_inv pm root T m \<Longrightarrow> pt_step pm root T m m"
  by (simp add: pt_step_def)

lemma pt_step_trans: "pt_step pm root T m m1 \<Longrightarrow> pt_step pm root T m1 m2 \<Longrightarrow> pt_step pm root T m m2"
  unfolding pt_step_def by metis

context paging_mode_laws
begin

lemma pt_write_step:
  assumes "pt_inv pm root T m" and "pt_reach pm m root a r" and "cell_ok pm (te_level r) v"
  shows "pt_step pm root T m (pte_write m r v)"
  using pt_write(1) [OF assms] pt_reach_slot [OF assms(1,2)] unfolding pt_step_def pte_write_def
  by (auto split: if_splits)

end

end
