(* ===== verification/Page_Table_Lock.thy ===== *)
theory Page_Table_Lock
  imports Page_Table_Ops
begin

text \<open>
  Locking, mapping and unlocking of leaves. The supply of pages for tables (the closure
  \<open>get_pte_page\<close>) is an interface with its laws; locking a leaf then only adds the lock to the entry
  of one block, whatever tables had to be filled in on the way.
\<close>

section \<open>Changes of one entry\<close>

lemma pte_pfn_cong:
  assumes "\<And>n. 10 \<le> n \<Longrightarrow> bit x n = bit y n"
  shows "pte_pfn x = pte_pfn y"
proof -
  have "pfn_bits (pte_pfn x) = pfn_bits (pte_pfn y)"
    using assms by (intro bit_eqI) (simp add: pte_pfn_bit)
  then show ?thesis
    by (simp add: pte_pfn_def pfn_supervisor_def)
qed

lemma pte_pfn_ops [simp]:
  "pte_pfn (pte_lock v) = pte_pfn v" "pte_pfn (pte_unlock v) = pte_pfn v"
  "pte_pfn (pte_invalidate v) = pte_pfn v"
  by (rule pte_pfn_cong, simp add: pte_bits)+

lemma pte_flag_ops [simp]:
  "pte_valid (pte_lock v) = pte_valid v" "pte_leaf (pte_lock v) = pte_leaf v" "pte_locked (pte_lock v)"
  "pte_valid (pte_unlock v) = pte_valid v" "pte_leaf (pte_unlock v) = pte_leaf v" "\<not> pte_locked (pte_unlock v)"
  "\<not> pte_valid (pte_invalidate v)" "pte_leaf (pte_invalidate v) = pte_leaf v"
  "pte_locked (pte_invalidate v) = pte_locked v"
  by (simp_all add: pte_bits)

lemma cell_ok_ops:
  "cell_ok pm l v \<Longrightarrow> cell_ok pm l (pte_lock v)" "cell_ok pm l v \<Longrightarrow> cell_ok pm l (pte_unlock v)"
  "cell_ok pm l v \<Longrightarrow> cell_ok pm l (pte_invalidate v)"
  by (simp_all add: cell_ok_def is_table_def)

text \<open>The status bits that a leaf is mapped with: a permission, and only bits below the lock.\<close>

definition leaf_status :: "u64 \<Rightarrow> bool" where
  "leaf_status st \<longleftrightarrow> (bit st 1 \<or> bit st 2 \<or> bit st 3) \<and> (\<forall>n. bit st n \<longrightarrow> n < 8)"

lemma leaf_status_perms: "leaf_status (leaf_with_perms p)" "leaf_status (user_leaf_with_perms p)"
proof -
  have "bit (leaf_with_perms p) n \<Longrightarrow> n < 8" for n
    using leaf_with_perms_bits(2) [of p n] by simp
  then show "leaf_status (leaf_with_perms p)" "leaf_status (user_leaf_with_perms p)"
    unfolding leaf_status_def user_leaf_bit using leaf_with_perms_bits(1) [of p] by auto
qed

lemma pte_set_leaf:
  assumes "leaf_status st"
  shows "pte_valid (pte_set q st)" "pte_leaf (pte_set q st)" "\<not> pte_locked (pte_set q st)"
    "pte_pfn (pte_set (page_addr_pfn (a :: supervisor_page_addr)) st) = page_addr_pfn a"
proof -
  have st: "n < 8" if "bit st n" for n
    using assms that by (simp add: leaf_status_def)
  then have "\<not> bit st 8"
    by blast
  then show "pte_valid (pte_set q st)" "pte_leaf (pte_set q st)" "\<not> pte_locked (pte_set q st)"
    using assms by (simp_all add: pte_bits leaf_status_def)
  show "pte_pfn (pte_set (page_addr_pfn a) st) = page_addr_pfn a"
    using st by (intro pte_pfn_set) force
qed

lemma cell_ok_set:
  assumes "leaf_status st" and "page_addr_is_aligned a (pm_leaf_page_size pm l)"
  shows "cell_ok pm l (pte_set (page_addr_pfn a) st)"
  using pte_set_leaf [OF assms(1)] from_pfn_of_page [OF assms(2)] by (simp add: cell_ok_def is_table_def)

section \<open>The supply of pages for tables\<close>

locale pte_source =
  fixes get_pte_page :: "'s pte_supply"
    and avail :: "'s \<Rightarrow> supervisor_page_addr set"
    and src_ok :: "'s \<Rightarrow> mem \<Rightarrow> bool"
  assumes get_some: "src_ok s m \<Longrightarrow> get_pte_page (s, m) = (Some p, s', m') \<Longrightarrow>
      page_base p \<in> avail s \<and> avail s' \<subseteq> avail s - {page_base p} \<and> zero_page m' (page_base p) \<and> src_ok s' m'
      \<and> (\<forall>c. \<not> in_bytes (page_addr_bits (page_base p)) 4096 c \<longrightarrow> m' c = m c)"
    and get_none: "src_ok s m \<Longrightarrow> get_pte_page (s, m) = (None, s', m') \<Longrightarrow>
      m' = m \<and> avail s' \<subseteq> avail s \<and> src_ok s' m"
    and src_frame: "src_ok s m \<Longrightarrow>
      (\<And>a c. a \<in> avail s \<Longrightarrow> in_bytes (page_addr_bits a) 4096 c \<Longrightarrow> m' c = m c) \<Longrightarrow> src_ok s m'"

definition fill_ok ::
    "'l paging_mode \<Rightarrow> ('s \<Rightarrow> supervisor_page_addr set) \<Rightarrow> ('s \<Rightarrow> mem \<Rightarrow> bool) \<Rightarrow> seq_pages \<Rightarrow> 'l table_map \<Rightarrow> 's \<times> mem \<Rightarrow> bool" where
  "fill_ok pm avail src_ok root T sm \<longleftrightarrow> pt_inv pm root T (snd sm) \<and> src_ok (fst sm) (snd sm)
     \<and> (\<forall>a \<in> avail (fst sm). fresh_addr pm T a)"

text \<open>The walk of an address goes through the entry.\<close>

definition on_path :: "'l paging_mode \<Rightarrow> mem \<Rightarrow> seq_pages \<Rightarrow> u64 \<Rightarrow> 'l table_entry_mut \<Rightarrow> bool" where
  "on_path pm m root a r \<longleftrightarrow> (\<forall>r'. reach pm m a r r' \<longrightarrow> pt_reach pm m root a r')"

locale table_fill = paging_mode_laws pm + pte_source get_pte_page avail src_ok
  for pm :: "'l paging_mode" and get_pte_page :: "'s pte_supply" and avail and src_ok
begin

lemma fresh_after:
  assumes "fresh_addr pm T a" and "fresh_addr pm T p" and "a \<noteq> p" and "table_bytes pm ls = 4096"
  shows "fresh_addr pm (T(page_addr_bits p \<mapsto> (ls, B))) a"
proof -
  obtain i j where ij: "addr_nat a = 4096 * i" "addr_nat p = 4096 * j"
    using assms(1,2) unfolding fresh_addr_def dvd_def by blast
  moreover from this have "i \<noteq> j"
    using assms(3) supervisor_addr_eq_iff by metis
  ultimately have "addr_nat a + 4096 \<le> addr_nat p \<or> addr_nat p + 4096 \<le> addr_nat a"
    by linarith
  then show ?thesis
    using assms by (auto simp: fresh_addr_def addr_nat_def)
qed

lemma below_bytes:
  assumes "tables_ok pm root T" and "slot_of pm T r B" and "te_below r \<noteq> []"
  shows "table_bytes pm (te_below r) = 4096"
proof -
  obtain l ls t P where "te_below r = l # ls" and t: "T t = Some (te_level r # l # ls, P)"
    using assms(2,3) by (auto simp: slot_of_def neq_Nil_conv)
  moreover obtain us where "pm_levels pm = us @ te_level r # l # ls"
    using tables_okD(2) [OF assms(1) t] by blast
  ultimately show ?thesis
    using level_of_table(2) [OF assms(1) t] levels_ok by (auto simp: list_all_iff level_ok_def table_bytes_def)
qed

lemma on_path_fill:
  assumes inv: "pt_inv pm root T m" and r: "slot_of pm T r (va_block pm (te_level r) a)"
    and un: "is_unused (m (te_pte r))" and below: "te_below r \<noteq> []"
    and p: "fresh_addr pm T p" "zero_page m' p"
    and m': "\<And>c. \<not> in_bytes (page_addr_bits p) 4096 c \<Longrightarrow> m' c = m c"
    and path: "on_path pm m root a r" and t: "entry_table pm (unused_map_table m' r p) r = Ok t"
  shows "on_path pm (unused_map_table m' r p) root a (ref_at pm t a)"
  unfolding on_path_def
proof (intro allI impI)
  let ?m = "unused_map_table m' r p"
  fix r'
  assume "reach pm ?m a (ref_at pm t a) r'"
  then have down: "reach pm ?m a r r'"
    using t is_table_set_non_leaf
    by (intro reach_down [of ?m r pm t]) (simp_all add: unused_map_table_def pte_write_def)
  have "pt_reach pm m root a r"
    using path reach_here [of m r pm a] is_unused_not_table [OF un] by (simp add: on_path_def)
  then show "pt_reach pm ?m root a r'"
    by (rule pt_reach_resume [OF inv _ _ down]) (rule fill_same [OF inv un p(1) m'])
qed

lemma next_level_correct:
  assumes ok: "fill_ok pm avail src_ok root T (s, m)"
    and r: "slot_of pm T (ref_at pm t (raw_bits addr)) (va_block pm (pt_level t) (raw_bits addr))"
    and path: "on_path pm m root (raw_bits addr) (ref_at pm t (raw_bits addr))"
    and below: "pt_below t \<noteq> []"
    and res: "next_level_or_fill_fn pm get_pte_page (s, m) t addr = (res, s', m')"
  shows "\<exists>T'. fill_ok pm avail src_ok root T' (s', m') \<and> pt_view pm m' root = pt_view pm m root
    \<and> (case res of
         Ok t' \<Rightarrow> pt_below t = pt_level t' # pt_below t'
           \<and> slot_of pm T' (ref_at pm t' (raw_bits addr)) (va_block pm (pt_level t') (raw_bits addr))
           \<and> on_path pm m' root (raw_bits addr) (ref_at pm t' (raw_bits addr))
       | Err e \<Rightarrow> e = InsufficientPtePages \<or> e = MappingExists
       | Panic \<Rightarrow> False)"
proof -
  let ?a = "raw_bits addr" and ?r = "ref_at pm t (raw_bits addr)"
  have inv: "pt_inv pm root T m" and src: "src_ok s m" and fr: "\<And>a. a \<in> avail s \<Longrightarrow> fresh_addr pm T a"
    using ok by (simp_all add: fill_ok_def)
  have lv [simp]: "te_level ?r = pt_level t" "te_below ?r = pt_below t"
    by (simp_all add: ref_at_def)
  have r': "slot_of pm T ?r (va_block pm (te_level ?r) ?a)" and below': "te_below ?r \<noteq> []"
    using r below by simp_all
  have tok: "tables_ok pm root T"
    using inv by (simp add: pt_inv_def)
  consider (tab) "is_table (m (te_pte ?r))" | (un) "is_unused (m (te_pte ?r))"
    | (other) "\<not> is_table (m (te_pte ?r))" "\<not> is_unused (m (te_pte ?r))"
    by blast
  then show ?thesis
  proof cases
    case tab
    then obtain t' where t': "entry_table pm m ?r = Ok t'" "pt_below t = pt_level t' # pt_below t'"
      "slot_of pm T (ref_at pm t' ?a) (va_block pm (pt_level t') ?a)"
      using entry_table_slot [OF inv r' tab] by (metis lv(2))
    moreover have "entry_for_addr_mut pm m t addr = Table ?r"
      using tab by (simp add: entry_for_addr_ref entry_from_pte_cases)
    then have "res = Ok t'" "s' = s" "m' = m"
      using res t'(1) by (simp_all add: next_level_or_fill_fn_def)
    moreover have "on_path pm m root ?a (ref_at pm t' ?a)"
      using path reach_down [OF tab t'(1)] by (simp add: on_path_def)
    ultimately show ?thesis
      using ok by auto
  next
    case un
    then have e: "entry_for_addr_mut pm m t addr = Unused ?r"
      by (simp add: entry_for_addr_ref entry_from_pte_cases)
    show ?thesis
    proof (cases "get_pte_page (s, m)")
      case (fields po s1 m1)
      show ?thesis
      proof (cases po)
        case None
        then have "m' = m" "avail s' \<subseteq> avail s" "src_ok s' m" "res = Err InsufficientPtePages"
          using res e fields get_none [OF src, of s1 m1] by (auto simp: next_level_or_fill_fn_def)
        then show ?thesis
          using inv fr by (auto simp: fill_ok_def)
      next
        case (Some p)
        let ?p = "page_base p" and ?T = "T(page_addr_bits (page_base p) \<mapsto> (te_below ?r, va_block pm (te_level ?r) ?a))"
        let ?m = "unused_map_table m1 ?r (page_base p)"
        have g: "?p \<in> avail s" "avail s1 \<subseteq> avail s - {?p}" "zero_page m1 ?p" "src_ok s1 m1"
          "\<And>c. \<not> in_bytes (page_addr_bits ?p) 4096 c \<Longrightarrow> m1 c = m c"
          using get_some [OF src, of p s1 m1] fields Some by auto
        have out: "s' = s1" "m' = ?m" "res = entry_table pm ?m ?r"
          using res e fields Some by (auto simp: next_level_or_fill_fn_def Let_def)
        note f = inv r' un below' fr [OF g(1)] g(3,5)
        obtain t' where t': "entry_table pm ?m ?r = Ok t'" "te_below ?r = pt_level t' # pt_below t'"
          "slot_of pm ?T (ref_at pm t' ?a) (va_block pm (pt_level t') ?a)"
          using fill_table [OF f] by metis
        have inv': "pt_inv pm root ?T ?m"
          by (rule fill_inv [OF f])
        have four: "table_bytes pm (te_below ?r) = 4096"
          by (rule below_bytes [OF tok r' below'])
        have "fresh_addr pm ?T a" if "a \<in> avail s1" for a
          using that g(1,2) fr four by (intro fresh_after) auto
        moreover have "src_ok s1 ?m"
        proof (rule src_frame [OF g(4)])
          fix a c
          assume "a \<in> avail s1" and "in_bytes (page_addr_bits a) 4096 c"
          then have "c \<noteq> te_pte ?r"
            using fresh_not_slot [OF tok fr r'] g(2) by blast
          then show "?m c = m1 c"
            by (simp add: unused_map_table_def pte_write_def)
        qed
        ultimately have "fill_ok pm avail src_ok root ?T (s', m')"
          using inv' out by (simp add: fill_ok_def)
        moreover have "on_path pm ?m root ?a (ref_at pm t' ?a)"
          by (rule on_path_fill [OF f path t'(1)])
        ultimately show ?thesis
          using fill_view [OF f] t' out by (intro exI [of _ ?T]) simp
      qed
    qed
  next
    case other
    then have "res = Err MappingExists" "s' = s" "m' = m"
      using res by (auto simp: next_level_or_fill_fn_def entry_for_addr_ref entry_from_pte_def
          is_table_def is_unused_def Let_def split: if_splits)
    then show ?thesis
      using ok by auto
  qed
qed

lemma fill_to_level_correct:
  assumes "fill_ok pm avail src_ok root T (s, m)"
    and "slot_of pm T (ref_at pm t (raw_bits addr)) (va_block pm (pt_level t) (raw_bits addr))"
    and "on_path pm m root (raw_bits addr) (ref_at pm t (raw_bits addr))"
    and "page_size \<in> pm_leaf_page_size pm ` set (pt_level t # pt_below t)"
    and "fill_to_level pm get_pte_page (s, m) t addr page_size = (res, s', m')"
  shows "\<exists>T'. fill_ok pm avail src_ok root T' (s', m') \<and> pt_view pm m' root = pt_view pm m root
    \<and> (case res of
         Ok t' \<Rightarrow> pm_leaf_page_size pm (pt_level t') = page_size
           \<and> slot_of pm T' (ref_at pm t' (raw_bits addr)) (va_block pm (pt_level t') (raw_bits addr))
           \<and> on_path pm m' root (raw_bits addr) (ref_at pm t' (raw_bits addr))
       | Err e \<Rightarrow> e = InsufficientPtePages \<or> e = MappingExists
       | Panic \<Rightarrow> False)"
  using assms
proof (induction "pt_below t" arbitrary: t s m T)
  case Nil
  then show ?case
    by (subst (asm) fill_to_level.simps) auto
next
  case (Cons l ls)
  show ?case
  proof (cases "pm_leaf_page_size pm (pt_level t) = page_size")
    case True
    then show ?thesis
      using Cons.prems by (subst (asm) fill_to_level.simps) auto
  next
    case False
    obtain res1 s1 m1 where n: "next_level_or_fill_fn pm get_pte_page (s, m) t addr = (res1, s1, m1)"
      by (metis prod_cases3)
    have below: "pt_below t \<noteq> []"
      using Cons.hyps(2) by auto
    obtain T1 where T1: "fill_ok pm avail src_ok root T1 (s1, m1)" "pt_view pm m1 root = pt_view pm m root"
      and c: "case res1 of
         Ok t' \<Rightarrow> pt_below t = pt_level t' # pt_below t'
           \<and> slot_of pm T1 (ref_at pm t' (raw_bits addr)) (va_block pm (pt_level t') (raw_bits addr))
           \<and> on_path pm m1 root (raw_bits addr) (ref_at pm t' (raw_bits addr))
       | Err e \<Rightarrow> e = InsufficientPtePages \<or> e = MappingExists
       | Panic \<Rightarrow> False"
      using next_level_correct [OF Cons.prems(1-3) below n] by blast
    note f = fill_to_level.simps [of pm get_pte_page "(s, m)" t addr page_size]
    show ?thesis
    proof (cases res1)
      case (Ok t1)
      have "fill_to_level pm get_pte_page (s1, m1) t1 addr page_size = (res, s', m')"
        using Cons.prems(5) f n Ok False by simp
      moreover have "page_size \<in> pm_leaf_page_size pm ` set (pt_level t1 # pt_below t1)"
        using Cons.prems(4) False c Ok by auto
      ultimately show ?thesis
        using Cons.hyps(1) [of t1 T1 s1 m1] Cons.hyps(2) T1 c Ok by auto
    next
      case (Err e)
      then have "res = Err e" "s' = s1" "m' = m1"
        using Cons.prems(5) f n False by simp_all
      then show ?thesis
        using T1 c Err by auto
    qed (use c in simp)
  qed
qed

lemma slot_level: "tables_ok pm root T \<Longrightarrow> slot_of pm T r B \<Longrightarrow> te_level r \<in> set (pm_levels pm)"
  using tables_okD(2) [of pm root T] unfolding slot_of_def by fastforce

lemma fill_ok_step:
  assumes ok: "fill_ok pm avail src_ok root T (s, m)" and st: "pt_step pm root T m m'"
  shows "fill_ok pm avail src_ok root T (s, m')"
proof -
  have tok: "tables_ok pm root T" and fr: "\<And>a. a \<in> avail s \<Longrightarrow> fresh_addr pm T a" and src: "src_ok s m"
    using ok by (simp_all add: fill_ok_def pt_inv_def)
  have "src_ok s m'"
  proof (rule src_frame [OF src])
    fix p c
    assume "p \<in> avail s" and "in_bytes (page_addr_bits p) 4096 c"
    then show "m' c = m c"
      using fresh_not_slot [OF tok fr] st unfolding pt_step_def by metis
  qed
  then show ?thesis
    using st fr by (simp add: fill_ok_def pt_step_def)
qed

text \<open>
  Locking the leaf of an address. On success the entry of the address's block, unused or invalidated
  before, has the lock and nothing else of the view has changed; on an error the view is unchanged.
\<close>

lemma lock_leaf_correct:
  assumes ok: "fill_ok pm avail src_ok root T (s, m)"
    and size: "page_size \<in> pm_leaf_page_size pm ` set (pm_levels pm)"
    and res: "lock_leaf_for_mapping pm root get_pte_page (s, m) vaddr page_size = (res, s', m')"
  shows "\<exists>T'. fill_ok pm avail src_ok root T' (s', m')
    \<and> (case res of
         Ok _ \<Rightarrow> \<exists>l v. l \<in> set (pm_levels pm) \<and> pm_leaf_page_size pm l = page_size
           \<and> \<not> pte_valid v \<and> \<not> pte_locked v \<and> cell_ok pm l v
           \<and> (\<forall>b. va_block pm l b = va_block pm l (page_addr_bits vaddr) \<longrightarrow> pt_view pm m root b = cell_view l v)
           \<and> pt_view pm m' root = block_upd pm (pt_view pm m root) l (page_addr_bits vaddr) (pte_lock v)
       | Err e \<Rightarrow> pt_view pm m' root = pt_view pm m root
           \<and> e \<in> {InsufficientPtePages, MappingExists, PteLocked, TableEntryNotLeaf}
       | Panic \<Rightarrow> False)"
proof -
  let ?t = "page_table_from_root pm root" and ?a = "page_addr_bits vaddr"
  have a: "raw_bits (page_addr_raw vaddr) = ?a"
    by (simp add: page_addr_bits_def)
  obtain res1 s1 m1 where f: "fill_to_level pm get_pte_page (s, m) ?t (page_addr_raw vaddr) page_size = (res1, s1, m1)"
    by (metis prod_cases3)
  have sl: "slot_of pm T (ref_at pm ?t (raw_bits (page_addr_raw vaddr))) (va_block pm (pt_level ?t) (raw_bits (page_addr_raw vaddr)))"
    using ok root_slot [of root T ?a] by (simp add: a root_ref_def fill_ok_def pt_inv_def page_table_from_root_def)
  have pa: "on_path pm m root (raw_bits (page_addr_raw vaddr)) (ref_at pm ?t (raw_bits (page_addr_raw vaddr)))"
    by (simp add: on_path_def pt_reach_def root_ref_def)
  have sz: "page_size \<in> pm_leaf_page_size pm ` set (pt_level ?t # pt_below ?t)"
    using size by (simp add: pm_levels_def page_table_from_root_def)
  obtain T1 where T1: "fill_ok pm avail src_ok root T1 (s1, m1)" "pt_view pm m1 root = pt_view pm m root"
    and c: "case res1 of
         Ok t' \<Rightarrow> pm_leaf_page_size pm (pt_level t') = page_size
           \<and> slot_of pm T1 (ref_at pm t' ?a) (va_block pm (pt_level t') ?a)
           \<and> on_path pm m1 root ?a (ref_at pm t' ?a)
       | Err e \<Rightarrow> e = InsufficientPtePages \<or> e = MappingExists
       | Panic \<Rightarrow> False"
    using fill_to_level_correct [OF ok sl pa sz f, unfolded a] by blast
  show ?thesis
  proof (cases res1)
    case (Ok t1)
    let ?r = "ref_at pm t1 ?a" and ?v = "m1 (te_pte (ref_at pm t1 ?a))"
    have inv: "pt_inv pm root T1 m1"
      using T1 by (simp add: fill_ok_def)
    have out: "(case entry_from_pte m1 ?r of
             Invalidated r \<Rightarrow> (Ok (), s1, entry_lock m1 r)
           | Unused r \<Rightarrow> (Ok (), s1, entry_lock m1 r)
           | LockedMapped r \<Rightarrow> (Err PteLocked, s1, m1)
           | LockedUnmapped r \<Rightarrow> (Err PteLocked, s1, m1)
           | Leaf r \<Rightarrow> (Err MappingExists, s1, m1)
           | Table r \<Rightarrow> (Err TableEntryNotLeaf, s1, m1)) = (res, s', m')"
      using res f Ok by (simp add: lock_leaf_for_mapping_def entry_for_addr_ref a)
    show ?thesis
    proof (cases "\<not> pte_valid ?v \<and> \<not> pte_locked ?v")
      case True
      then have o: "res = Ok ()" "s' = s1" "m' = pte_write m1 ?r (pte_lock ?v)"
        using out by (auto simp: entry_from_pte_def Let_def entry_lock_def split: if_splits)
      have "on_path pm m1 root ?a ?r"
        using c Ok by simp
      then have r: "pt_reach pm m1 root ?a ?r"
        using reach_here [of m1 ?r pm ?a] True by (simp add: on_path_def is_table_def)
      have cell: "cell_ok pm (te_level ?r) ?v"
        by (rule pt_reach_cell [OF inv r])
      have lv: "te_level ?r = pt_level t1"
        by (simp add: ref_at_def)
      have "pt_view pm m root b = cell_view (pt_level t1) ?v"
        if "va_block pm (pt_level t1) b = va_block pm (pt_level t1) ?a" for b
        using view_reach [OF pt_reach_same_block [OF inv r]] that T1(2) lv by simp
      moreover have "pt_level t1 \<in> set (pm_levels pm)"
        using slot_level [OF _ pt_reach_slot [OF inv r]] inv lv by (auto simp: pt_inv_def)
      ultimately show ?thesis
        using fill_ok_step [OF T1(1) pt_write_step [OF inv r cell_ok_ops(1) [OF cell]]] pt_write(2) [OF inv r cell_ok_ops(1) [OF cell]]
          o cell True c Ok T1(2) lv by (intro exI [of _ T1]) auto
    next
      case False
      then have "s' = s1" "m' = m1" "res \<in> {Err PteLocked, Err MappingExists, Err TableEntryNotLeaf}"
        using out by (auto simp: entry_from_pte_def Let_def split: if_splits)
      then show ?thesis
        using T1 by (intro exI [of _ T1]) auto
    qed
  next
    case (Err e)
    then show ?thesis
      using res f T1 c by (auto simp: lock_leaf_for_mapping_def)
  qed (use c in simp)
qed

end

end
