(* ===== verification/Page_Table_View.thy ===== *)
theory Page_Table_View
  imports Page_Table_Lock
begin

text \<open>
  The operations on ranges over the view: what locking a range and unlocking it again do to the
  view, and the two loops of an operation that first checks a range and then takes its pages.
\<close>

section \<open>Views\<close>

text \<open>A view gives all addresses of the block of an entry that same entry.\<close>

definition view_ok :: "'l paging_mode \<Rightarrow> (u64 \<Rightarrow> ('l \<times> u64) option) \<Rightarrow> bool" where
  "view_ok pm f \<longleftrightarrow>
     (\<forall>a b l v. f a = Some (l, v) \<longrightarrow> va_block pm l b = va_block pm l a \<longrightarrow> f b = Some (l, v))"

lemma view_okD: "view_ok pm f \<Longrightarrow> f a = Some (l, v) \<Longrightarrow> va_block pm l b = va_block pm l a \<Longrightarrow> f b = Some (l, v)"
  unfolding view_ok_def by blast

lemma cell_view_Some: "cell_view l v = Some (l', v') \<longleftrightarrow> l' = l \<and> v' = v \<and> \<not> is_unused v"
  by (auto simp: cell_view_def)

lemma cell_view_None: "cell_view l v = None \<longleftrightarrow> is_unused v"
  by (simp add: cell_view_def)

text \<open>
  A change of the entries of some addresses: \<open>chg\<close> gives the new value of an entry it applies to.
  Every block that has one of the addresses is changed once.
\<close>

definition view_chg ::
    "'l paging_mode \<Rightarrow> ('l \<Rightarrow> u64 \<Rightarrow> u64 option) \<Rightarrow> u64 set \<Rightarrow> (u64 \<Rightarrow> ('l \<times> u64) option) \<Rightarrow> u64 \<Rightarrow> ('l \<times> u64) option" where
  "view_chg pm chg A f b =
     (case f b of
        None \<Rightarrow> None
      | Some (l, v) \<Rightarrow>
          (case chg l v of
             None \<Rightarrow> Some (l, v)
           | Some w \<Rightarrow> if \<exists>a \<in> A. va_block pm l a = va_block pm l b then cell_view l w else Some (l, v)))"

lemma view_chg_empty: "view_chg pm chg {} f = f"
  by (auto simp: view_chg_def fun_eq_iff split: option.splits)

lemma view_chg_union:
  assumes "\<And>l v w. chg l v = Some w \<Longrightarrow> chg l w = None"
  shows "view_chg pm chg A (view_chg pm chg B f) = view_chg pm chg (B \<union> A) f"
proof
  fix b
  show "view_chg pm chg A (view_chg pm chg B f) b = view_chg pm chg (B \<union> A) f b"
    using assms by (fastforce simp: view_chg_def cell_view_def split: option.splits)
qed

text \<open>Dropping a mapper over the view: the entries of the addresses lose their locks.\<close>

definition unlock_chg :: "'l \<Rightarrow> u64 \<Rightarrow> u64 option" where
  "unlock_chg l v = (if pte_locked v then Some (pte_unlock v) else None)"

definition unlock_view ::
    "'l paging_mode \<Rightarrow> u64 set \<Rightarrow> (u64 \<Rightarrow> ('l \<times> u64) option) \<Rightarrow> u64 \<Rightarrow> ('l \<times> u64) option" where
  "unlock_view pm = view_chg pm unlock_chg"

lemma unlock_view_union: "unlock_view pm A (unlock_view pm B f) = unlock_view pm (B \<union> A) f"
  unfolding unlock_view_def by (rule view_chg_union) (auto simp: unlock_chg_def split: if_splits)

lemma unlock_view_empty: "unlock_view pm {} f = f"
  by (simp add: unlock_view_def view_chg_empty)

lemma unlock_view_eq:
  "unlock_view pm A f b =
     (case f b of
        None \<Rightarrow> None
      | Some (l, v) \<Rightarrow>
          if pte_locked v \<and> (\<exists>a \<in> A. va_block pm l a = va_block pm l b)
          then cell_view l (pte_unlock v) else Some (l, v))"
  by (simp add: unlock_view_def view_chg_def unlock_chg_def split: option.split)

text \<open>Locking an entry that was neither valid nor locked.\<close>

definition lock_step ::
    "'l paging_mode \<Rightarrow> page_size \<Rightarrow> (u64 \<Rightarrow> ('l \<times> u64) option) \<Rightarrow> u64 \<Rightarrow> (u64 \<Rightarrow> ('l \<times> u64) option) \<Rightarrow> bool" where
  "lock_step pm page_size f a g \<longleftrightarrow>
     (\<exists>l v. l \<in> set (pm_levels pm) \<and> pm_leaf_page_size pm l = page_size
        \<and> \<not> pte_valid v \<and> \<not> pte_locked v \<and> cell_ok pm l v
        \<and> (\<forall>b. va_block pm l b = va_block pm l a \<longrightarrow> f b = cell_view l v)
        \<and> g = block_upd pm f l a (pte_lock v))"

fun lock_steps ::
    "'l paging_mode \<Rightarrow> page_size \<Rightarrow> (u64 \<Rightarrow> ('l \<times> u64) option) \<Rightarrow> u64 list \<Rightarrow> (u64 \<Rightarrow> ('l \<times> u64) option) \<Rightarrow> bool" where
  "lock_steps pm page_size f [] g \<longleftrightarrow> g = f"
| "lock_steps pm page_size f (a # as) g \<longleftrightarrow>
     (\<exists>h. lock_step pm page_size f a h \<and> view_ok pm h \<and> lock_steps pm page_size h as g)"

lemma pte_unlock_lock: "\<not> pte_locked v \<Longrightarrow> pte_unlock (pte_lock v) = v"
  by (rule bit_eqI) (auto simp: pte_bits)

text \<open>Unlocking after one lock step gives back what was there, and the other unlocks commute with it.\<close>

lemma unlock_lock_step:
  assumes f: "view_ok pm f" and g: "lock_step pm ps f a g" and h: "unlock_view pm A f = f0"
  shows "unlock_view pm (insert a A) g = f0"
proof
  fix b
  obtain l v where lv: "\<not> pte_valid v" "\<not> pte_locked v"
    "\<And>b. va_block pm l b = va_block pm l a \<Longrightarrow> f b = cell_view l v" "g = block_upd pm f l a (pte_lock v)"
    using g unfolding lock_step_def by blast
  have used: "\<not> is_unused (pte_lock v)"
    by (simp add: is_unused_def)
  show "unlock_view pm (insert a A) g b = f0 b"
  proof (cases "va_block pm l b = va_block pm l a")
    case True
    have "g b = Some (l, pte_lock v)"
      using lv(4) True used by (simp add: block_upd_def cell_view_def)
    then have "unlock_view pm (insert a A) g b = cell_view l v"
      using True lv(2) by (auto simp: unlock_view_eq pte_unlock_lock)
    moreover have "unlock_view pm A f b = cell_view l v"
      using lv(2) lv(3) [OF True] by (simp add: unlock_view_eq cell_view_def)
    ultimately show ?thesis
      using h by simp
  next
    case False
    then have gb: "g b = f b"
      using lv(4) by (simp add: block_upd_def)
    have "\<not> (pte_locked w \<and> va_block pm k a = va_block pm k b)" if "f b = Some (k, w)" for k w
      using view_okD [OF f that, of a] lv(2) lv(3) [of a] by (auto simp: cell_view_Some)
    then have "unlock_view pm (insert a A) g b = unlock_view pm A f b"
      using gb by (auto simp: unlock_view_eq split: option.splits)
    then show ?thesis
      using h by simp
  qed
qed

lemma lock_steps_unlock:
  "lock_steps pm ps f as g \<Longrightarrow> view_ok pm f \<Longrightarrow> unlock_view pm (A \<union> set as) g = unlock_view pm A f"
proof (induction as arbitrary: f A)
  case (Cons a as)
  then obtain h where h: "lock_step pm ps f a h" "view_ok pm h" "lock_steps pm ps h as g"
    by auto
  have "unlock_view pm (insert a A) h = unlock_view pm A f"
    by (rule unlock_lock_step [OF Cons.prems(2) h(1) refl])
  then show ?case
    using Cons.IH [OF h(3,2), of "insert a A"] by simp
qed simp

text \<open>Each address of a locked range has a locked, unmapped entry of the page size.\<close>

lemma lock_steps_locked:
  "lock_steps pm ps f as g \<Longrightarrow> view_ok pm f \<Longrightarrow>
     (\<forall>a \<in> A. \<exists>l v. f a = Some (l, v) \<and> pm_leaf_page_size pm l = ps \<and> l \<in> set (pm_levels pm) \<and> \<not> pte_valid v \<and> pte_locked v) \<Longrightarrow>
     \<forall>a \<in> A \<union> set as. \<exists>l v. g a = Some (l, v) \<and> pm_leaf_page_size pm l = ps \<and> l \<in> set (pm_levels pm) \<and> \<not> pte_valid v \<and> pte_locked v"
proof (induction as arbitrary: f A)
  case (Cons a as)
  then obtain h where h: "lock_step pm ps f a h" "view_ok pm h" "lock_steps pm ps h as g"
    by auto
  then obtain l v where lv: "l \<in> set (pm_levels pm)" "pm_leaf_page_size pm l = ps" "\<not> pte_valid v"
    "h = block_upd pm f l a (pte_lock v)"
    unfolding lock_step_def by blast
  have "\<exists>l v. h b = Some (l, v) \<and> pm_leaf_page_size pm l = ps \<and> l \<in> set (pm_levels pm) \<and> \<not> pte_valid v \<and> pte_locked v"
    if "b \<in> insert a A" for b
    using that Cons.prems(3) lv by (auto simp: block_upd_def cell_view_def is_unused_def)
  then show ?case
    using Cons.IH [OF h(3,2), of "insert a A"] by simp
qed simp

lemma lock_steps_append:
  "lock_steps pm ps f (as @ bs) g \<longleftrightarrow> (\<exists>h. lock_steps pm ps f as h \<and> lock_steps pm ps h bs g)"
  by (induction as arbitrary: f) auto

text \<open>Outside the blocks of its addresses, locking changes nothing.\<close>

definition covered :: "'l paging_mode \<Rightarrow> page_size \<Rightarrow> u64 set \<Rightarrow> u64 \<Rightarrow> bool" where
  "covered pm ps A b \<longleftrightarrow>
     (\<exists>a \<in> A. \<exists>l \<in> set (pm_levels pm). pm_leaf_page_size pm l = ps \<and> va_block pm l b = va_block pm l a)"

lemma lock_steps_frame: "lock_steps pm ps f as g \<Longrightarrow> \<not> covered pm ps (set as) b \<Longrightarrow> g b = f b"
proof (induction as arbitrary: f)
  case (Cons a as)
  then obtain h where h: "lock_step pm ps f a h" "lock_steps pm ps h as g"
    by auto
  then have "h b = f b"
    using Cons.prems(2) unfolding lock_step_def covered_def by (auto simp: block_upd_def)
  then show ?case
    using Cons.IH [OF h(2)] Cons.prems(2) by (auto simp: covered_def)
qed simp

section \<open>The operations on one address\<close>

context paging_mode_laws
begin

lemma view_ok_view: "pt_inv pm root T m \<Longrightarrow> view_ok pm (pt_view pm m root)"
  unfolding view_ok_def
proof (intro allI impI)
  fix a b l v
  assume inv: "pt_inv pm root T m" and a: "pt_view pm m root a = Some (l, v)"
    and b: "va_block pm l b = va_block pm l a"
  obtain r where r: "pt_reach pm m root a r"
    using pt_reach_ex [OF inv] by blast
  then have "te_level r = l"
    using view_reach [OF r] a by (auto simp: cell_view_def split: if_splits)
  then have "pt_reach pm m root b r"
    using pt_reach_same_block [OF inv r] b by simp
  then show "pt_view pm m root b = Some (l, v)"
    using view_reach [OF r] view_reach a by fastforce
qed

lemma pt_view_cases:
  assumes "pt_inv pm root T m"
  obtains r where "pt_reach pm m root (page_addr_bits a) r"
    "walk pm m root (page_addr_raw a) = Ok (entry_from_pte m r)"
    "pt_view pm m root (page_addr_bits a) = cell_view (te_level r) (m (te_pte r))"
    "cell_ok pm (te_level r) (m (te_pte r))"
proof -
  obtain r where r: "pt_reach pm m root (page_addr_bits a) r"
    using pt_reach_ex [OF assms] by blast
  then have "walk pm m root (page_addr_raw a) = Ok (entry_from_pte m r)"
    by (intro walk_reach) (simp add: page_addr_bits_def)
  then show ?thesis
    using that r view_reach [OF r] pt_reach_cell [OF assms r] by blast
qed

lemma view_chg_write:
  assumes inv: "pt_inv pm root T m" and r: "pt_reach pm m root a r"
    and w: "chg (te_level r) (m (te_pte r)) = Some w" "cell_ok pm (te_level r) w"
    and used: "\<not> is_unused (m (te_pte r))"
  shows "pt_step pm root T m (pte_write m r w)"
    and "pt_view pm (pte_write m r w) root = view_chg pm chg {a} (pt_view pm m root)"
proof -
  let ?f = "pt_view pm m root"
  have vo: "view_ok pm ?f"
    by (rule view_ok_view [OF inv])
  have fa: "?f a = Some (te_level r, m (te_pte r))"
    using view_reach [OF r] used by (simp add: cell_view_def)
  have "block_upd pm ?f (te_level r) a w b = view_chg pm chg {a} ?f b" for b
    using view_okD [OF vo fa, of b] view_okD [OF vo, of b _ _ a] fa w(1)
    by (fastforce simp: block_upd_def view_chg_def split: option.splits)
  then show "pt_view pm (pte_write m r w) root = view_chg pm chg {a} ?f"
    using pt_write(2) [OF inv r w(2)] by auto
  show "pt_step pm root T m (pte_write m r w)"
    by (rule pt_write_step [OF inv r w(2)])
qed

lemma view_chg_none:
  assumes inv: "pt_inv pm root T m" and "\<And>l v. pt_view pm m root a = Some (l, v) \<Longrightarrow> chg l v = None"
  shows "view_chg pm chg {a} (pt_view pm m root) = pt_view pm m root"
proof
  fix b
  show "view_chg pm chg {a} (pt_view pm m root) b = pt_view pm m root b"
    using view_okD [OF view_ok_view [OF inv], of b _ _ a] assms(2)
    by (fastforce simp: view_chg_def split: option.splits)
qed

lemma unlock_leaf_correct:
  assumes inv: "pt_inv pm root T m" and res: "unlock_leaf pm root m a = (res, m')"
  shows "pt_step pm root T m m' \<and> pt_view pm m' root = unlock_view pm {page_addr_bits a} (pt_view pm m root)
    \<and> res = (case pt_view pm m root (page_addr_bits a) of
               Some (l, v) \<Rightarrow> if pte_locked v then Ok () else Err PteNotLocked | None \<Rightarrow> Err PteNotLocked)"
proof -
  let ?a = "page_addr_bits a"
  obtain r where r: "pt_reach pm m root ?a r" "walk pm m root (page_addr_raw a) = Ok (entry_from_pte m r)"
    "pt_view pm m root ?a = cell_view (te_level r) (m (te_pte r))" "cell_ok pm (te_level r) (m (te_pte r))"
    using pt_view_cases [OF inv] by blast
  show ?thesis
  proof (cases "pte_locked (m (te_pte r))")
    case True
    then have o: "res = Ok ()" "m' = pte_write m r (pte_unlock (m (te_pte r)))"
      using res r(2,4) by (auto simp: unlock_leaf_def entry_from_pte_def Let_def entry_unlock_def cell_ok_def
          is_table_def split: if_splits)
    show ?thesis
      using view_chg_write [OF inv r(1) _ cell_ok_ops(2) [OF r(4)], of unlock_chg] o r(3) True
      by (simp add: unlock_view_def unlock_chg_def cell_view_def is_unused_def)
  next
    case False
    then have o: "res = Err PteNotLocked" "m' = m"
      using res r(2,4) by (auto simp: unlock_leaf_def entry_from_pte_def Let_def cell_ok_def
          is_table_def split: if_splits)
    then show ?thesis
      using view_chg_none [OF inv, of ?a unlock_chg] pt_step_refl [OF inv] r(3) False
      by (auto simp: cell_view_def unlock_view_def unlock_chg_def split: option.splits if_splits)
  qed
qed

lemma unlock_loop_correct:
  "pt_inv pm root T m \<Longrightarrow> \<exists>m'. unlock_loop pm root m as = (Ok (), m') \<and> pt_step pm root T m m'
     \<and> pt_view pm m' root = unlock_view pm (page_addr_bits ` set as) (pt_view pm m root)"
proof (induction as arbitrary: m)
  case (Cons a as)
  obtain res m1 where u: "unlock_leaf pm root m a = (res, m1)"
    by fastforce
  note s = unlock_leaf_correct [OF Cons.prems u]
  then have "pt_inv pm root T m1"
    by (simp add: pt_step_def)
  then obtain m' where m': "unlock_loop pm root m1 as = (Ok (), m')" "pt_step pm root T m1 m'"
    "pt_view pm m' root = unlock_view pm (page_addr_bits ` set as) (pt_view pm m1 root)"
    using Cons.IH by blast
  have "res \<noteq> Panic"
    using s by (auto split: option.splits)
  moreover have "pt_view pm m1 root = unlock_view pm {page_addr_bits a} (pt_view pm m root)"
    using s by blast
  moreover have "pt_step pm root T m m'"
    using s m'(2) pt_step_trans by blast
  ultimately show ?case
    using u m' by (cases res) (simp_all add: unlock_view_union)
qed (simp add: unlock_view_empty pt_step_refl)

text \<open>Mapping a locked leaf.\<close>

lemma map_leaf_correct:
  assumes inv: "pt_inv pm root T m" and va: "pt_view pm m root (page_addr_bits va) = Some (l, v)"
    and lk: "\<not> pte_valid v" "pte_locked v" and size: "pm_leaf_page_size pm l = ps"
    and pa: "page_addr_is_aligned pa ps" and st: "leaf_status st"
  shows "\<exists>m'. map_leaf pm root m va pa ps st = (Ok (), m') \<and> pt_step pm root T m m'
    \<and> pt_view pm m' root = block_upd pm (pt_view pm m root) l (page_addr_bits va) (pte_set (page_addr_pfn pa) st)"
proof -
  obtain r where r: "pt_reach pm m root (page_addr_bits va) r"
    "walk pm m root (page_addr_raw va) = Ok (entry_from_pte m r)"
    "pt_view pm m root (page_addr_bits va) = cell_view (te_level r) (m (te_pte r))"
    using pt_view_cases [OF inv] by blast
  then have lv: "te_level r = l" "m (te_pte r) = v"
    using va by (auto simp: cell_view_def split: if_splits)
  then have "entry_from_pte m r = LockedUnmapped r"
    using lk by (simp add: entry_from_pte_cases)
  then have "map_leaf pm root m va pa ps st = (Ok (), pte_write m r (pte_set (page_addr_pfn pa) st))"
    using r(2) lv size pa by (simp add: map_leaf_def entry_map_leaf_def)
  moreover have "cell_ok pm (te_level r) (pte_set (page_addr_pfn pa) st)"
    using cell_ok_set [OF st, of pa pm l] pa size lv by simp
  ultimately show ?thesis
    using pt_write(2) [OF inv r(1)] pt_write_step [OF inv r(1)] lv by simp
qed

end

context table_fill
begin

lemma lock_leaf_step:
  assumes "fill_ok pm avail src_ok root T (s, m)" and "page_size \<in> pm_leaf_page_size pm ` set (pm_levels pm)"
    and "lock_leaf_for_mapping pm root get_pte_page (s, m) vaddr page_size = (res, s', m')"
  shows "\<exists>T'. fill_ok pm avail src_ok root T' (s', m')
    \<and> (case res of
         Ok _ \<Rightarrow> lock_step pm page_size (pt_view pm m root) (page_addr_bits vaddr) (pt_view pm m' root)
       | Err e \<Rightarrow> pt_view pm m' root = pt_view pm m root
       | Panic \<Rightarrow> False)"
proof -
  obtain T' where T': "fill_ok pm avail src_ok root T' (s', m')"
    and c: "case res of
         Ok _ \<Rightarrow> \<exists>l v. l \<in> set (pm_levels pm) \<and> pm_leaf_page_size pm l = page_size
           \<and> \<not> pte_valid v \<and> \<not> pte_locked v \<and> cell_ok pm l v
           \<and> (\<forall>b. va_block pm l b = va_block pm l (page_addr_bits vaddr) \<longrightarrow> pt_view pm m root b = cell_view l v)
           \<and> pt_view pm m' root = block_upd pm (pt_view pm m root) l (page_addr_bits vaddr) (pte_lock v)
       | Err e \<Rightarrow> pt_view pm m' root = pt_view pm m root
           \<and> e \<in> {InsufficientPtePages, MappingExists, PteLocked, TableEntryNotLeaf}
       | Panic \<Rightarrow> False"
    using lock_leaf_correct [OF assms] by blast
  then show ?thesis
    by (intro exI [of _ T']) (cases res; simp add: lock_step_def)
qed

lemma lock_loop_correct:
  assumes size: "page_size \<in> pm_leaf_page_size pm ` set (pm_levels pm)"
  shows "fill_ok pm avail src_ok root T (s, m) \<Longrightarrow>
    lock_loop pm root get_pte_page (s, m) page_size n as = (res, k, s', m') \<Longrightarrow>
    \<exists>T' j. fill_ok pm avail src_ok root T' (s', m') \<and> j \<le> length as \<and> k = n + of_nat j
      \<and> lock_steps pm page_size (pt_view pm m root) (map page_addr_bits (take j as)) (pt_view pm m' root)
      \<and> (case res of Ok _ \<Rightarrow> j = length as | Err e \<Rightarrow> j < length as | Panic \<Rightarrow> False)"
proof (induction as arbitrary: s m n T)
  case (Cons a as)
  obtain res1 s1 m1 where l: "lock_leaf_for_mapping pm root get_pte_page (s, m) a page_size = (res1, s1, m1)"
    by (metis prod_cases3)
  obtain T1 where T1: "fill_ok pm avail src_ok root T1 (s1, m1)"
    and c: "case res1 of
         Ok _ \<Rightarrow> lock_step pm page_size (pt_view pm m root) (page_addr_bits a) (pt_view pm m1 root)
       | Err e \<Rightarrow> pt_view pm m1 root = pt_view pm m root
       | Panic \<Rightarrow> False"
    using lock_leaf_step [OF Cons.prems(1) size l] by blast
  show ?case
  proof (cases res1)
    case (Ok u)
    have "lock_loop pm root get_pte_page (s1, m1) page_size (n + 1) as = (res, k, s', m')"
      using Cons.prems(2) l Ok by simp
    then obtain T' j where T': "fill_ok pm avail src_ok root T' (s', m')" "j \<le> length as" "k = n + 1 + of_nat j"
      "lock_steps pm page_size (pt_view pm m1 root) (map page_addr_bits (take j as)) (pt_view pm m' root)"
      "case res of Ok _ \<Rightarrow> j = length as | Err e \<Rightarrow> j < length as | Panic \<Rightarrow> False"
      using Cons.IH [OF T1] by blast
    have "view_ok pm (pt_view pm m1 root)"
      using T1 view_ok_view by (auto simp: fill_ok_def)
    then show ?thesis
      using T' c Ok by (intro exI [of _ T'] exI [of _ "Suc j"]) (cases res; auto)
  next
    case (Err e)
    then show ?thesis
      using Cons.prems(2) l T1 c by (intro exI [of _ T1] exI [of _ 0]) auto
  qed (use c in simp)
qed auto

end

end
