(* ===== verification/Pte_Pool.thy ===== *)
theory Pte_Pool
  imports Page_Table_View Page_List
begin

text \<open>
  The pool of page-table pages of a VM (\<open>PtePagePool\<close> in \<open>src/vm_pages.rs\<close>), a list of clean pages,
  and that it is a supply of pages for tables: it meets the laws of \<open>pte_source\<close>. The VM's pages are
  tracked in its page tracker, so the state of the pool is the tracker and the list.
\<close>

definition pte_pool_new :: page_list where
  "pte_pool_new = page_list_new"

definition pte_pool_push :: "page_tracker \<Rightarrow> page_list \<Rightarrow> page \<Rightarrow> ('e, unit) result \<times> page_tracker \<times> page_list" where
  "pte_pool_push t l p = (case page_list_push t l p of (res, s) \<Rightarrow> (unwrap res, s))"

text \<open>
  \<open>pop\<close>. Making a page of a page address cannot fail, so the panic of \<open>Page::new\<close> has no case of its own.
\<close>

definition pte_pool_pop :: "(page_tracker \<times> page_list) pte_supply" where
  "pte_pool_pop = (\<lambda>((t, l), m).
     case (page_list_pop StInternalClean t l :: (page_tracking_error, page) result option \<times> _) of
       (Some (Ok p), s) \<Rightarrow> (Some p, s, m)
     | (_, s) \<Rightarrow> (None, s, m))"

lemma tracker_step_release_links: "link_count (snd (release_page av t p)) = link_count t"
  unfolding release_page_def snd_updates
  by (rule tracker_step_link_count)
     (simp add: info_release_def pop_owner_def split: page_state.split prod.splits result.splits if_splits option.splits)

lemma pool_drop_work:
  assumes "page_list_pop st t l = (Some p, t', l')" and "release_page av t' q = (r, t'')"
  shows "list_work (t'', l') < list_work (t, l)"
proof -
  have "link_count t'' = link_count t'"
    using assms(2) tracker_step_release_links [of av t' q] by simp
  then show ?thesis
    using page_list_pop_work [OF assms(1)] by (simp add: list_work_def split: if_splits)
qed

function pte_pool_drop :: "owner_vec \<Rightarrow> page_tracker \<Rightarrow> page_list \<Rightarrow> (page_tracking_error, page_tracker) result" where
  "pte_pool_drop av t l =
     (case page_list_pop StInternalClean t l of
        (None, t', _) \<Rightarrow> Ok t'
      | (Some (Ok p), t', l') \<Rightarrow>
          (case release_page av t' p of
             (Ok _, t'') \<Rightarrow> pte_pool_drop av t'' l'
           | _ \<Rightarrow> Panic)
      | (Some (Err e), _, _) \<Rightarrow> Err e
      | (Some Panic, _, _) \<Rightarrow> Panic)"
  by pat_completeness auto
termination
  by (relation "measure (\<lambda>(av, t, l). list_work (t, l))") (auto intro: pool_drop_work sym)

declare pte_pool_drop.simps [simp del]

section \<open>The pool as a supply of pages\<close>

definition pool_avail :: "page_tracker \<times> page_list \<Rightarrow> supervisor_page_addr set" where
  "pool_avail s = {a. \<exists>as. pl_rep s as \<and> a \<in> set as}"

definition pool_ok :: "page_tracker \<times> page_list \<Rightarrow> mem \<Rightarrow> bool" where
  "pool_ok s m \<longleftrightarrow> (\<exists>as. pl_rep s as \<and> (\<forall>a \<in> set as. zero_page m a))"

lemma chain_unique: "chain t (a # as) \<Longrightarrow> chain t (a # bs) \<Longrightarrow> as = bs"
proof (induction as arbitrary: a bs)
  case Nil
  then show ?case
    by (cases bs) auto
next
  case (Cons b as)
  then show ?case
    by (cases bs) auto
qed

lemma pl_rep_unique: "pl_rep s as \<Longrightarrow> pl_rep s bs \<Longrightarrow> as = bs"
proof -
  assume "pl_rep s as" "pl_rep s bs"
  then have "chain (fst s) as" "chain (fst s) bs" "as = [] \<longleftrightarrow> bs = []" "as \<noteq> [] \<Longrightarrow> hd as = hd bs"
    by (cases s; auto simp: pl_rep_def page_list_rep_def split: if_splits)+
  then show "as = bs"
    by (cases as; cases bs) (auto dest: chain_unique)
qed

lemma pool_avail_rep: "pl_rep s as \<Longrightarrow> pool_avail s = set as"
  unfolding pool_avail_def by (auto dest: pl_rep_unique [of s as])

lemma pte_pool_pop_rep:
  assumes "pl_rep (t, l) as"
  shows "case as of
      [] \<Rightarrow> pte_pool_pop ((t, l), m) = (None, (t, l), m)
    | a # as' \<Rightarrow> \<exists>s'. pte_pool_pop ((t, l), m)
          = (Some \<lparr>page_base = a, page_len = Size4k, page_typestate = StInternalClean\<rparr>, s', m) \<and> pl_rep s' as'"
proof (cases as)
  case Nil
  then show ?thesis
    using assms by (simp add: pl_rep_def page_list_rep_def pte_pool_pop_def page_list_pop_def)
next
  case (Cons a as')
  have "tracker_wf t" "page_list_rep t l (a # as')"
    using assms Cons by (simp_all add: pl_rep_def)
  then obtain t' l' where "page_list_pop StInternalClean t l =
      (Some (Ok \<lparr>page_base = a, page_len = Size4k, page_typestate = StInternalClean\<rparr>
         :: (page_tracking_error, page) result), t', l')" "tracker_wf t'" "page_list_rep t' l' as'"
    using pl_pop_rep [of t l a as'] by metis
  then show ?thesis
    using Cons by (simp add: pte_pool_pop_def pl_rep_def)
qed

interpretation pool: pte_source pte_pool_pop pool_avail pool_ok
proof
  fix s m p s' m'
  assume ok: "pool_ok s m" and g: "pte_pool_pop (s, m) = (Some p, s', m')"
  obtain t l where s: "s = (t, l)"
    by (cases s)
  obtain as where as: "pl_rep s as" "\<forall>a \<in> set as. zero_page m a"
    using ok by (auto simp: pool_ok_def)
  obtain as' where as': "as = page_base p # as'" "m' = m" "pl_rep s' as'"
    using pte_pool_pop_rep [of t l as m] as(1) g s by (cases as) auto
  have "page_base p \<notin> set as'"
    using as(1) as'(1) s by (auto simp: pl_rep_def page_list_rep_def)
  then show "page_base p \<in> pool_avail s \<and> pool_avail s' \<subseteq> pool_avail s - {page_base p}
      \<and> zero_page m' (page_base p) \<and> pool_ok s' m'
      \<and> (\<forall>c. \<not> in_bytes (page_addr_bits (page_base p)) 4096 c \<longrightarrow> m' c = m c)"
    using as as' pool_avail_rep [OF as(1)] pool_avail_rep [OF as'(3)] by (auto simp: pool_ok_def)
next
  fix s m s' m'
  assume ok: "pool_ok s m" and g: "pte_pool_pop (s, m) = (None, s', m')"
  obtain t l where s: "s = (t, l)"
    by (cases s)
  obtain as where as: "pl_rep s as"
    using ok by (auto simp: pool_ok_def)
  then have "s' = s" "m' = m"
    using pte_pool_pop_rep [of t l as m] g s by (cases as; auto)+
  then show "m' = m \<and> pool_avail s' \<subseteq> pool_avail s \<and> pool_ok s' m"
    using ok by simp
next
  fix s m m'
  assume ok: "pool_ok s m"
    and same: "\<And>a c. a \<in> pool_avail s \<Longrightarrow> in_bytes (page_addr_bits a) 4096 c \<Longrightarrow> m' c = m c"
  obtain as where as: "pl_rep s as" "\<forall>a \<in> set as. zero_page m a"
    using ok by (auto simp: pool_ok_def)
  then have "\<forall>a \<in> set as. zero_page m' a"
    using same pool_avail_rep [OF as(1)] by (simp add: zero_page_def)
  then show "pool_ok s m'"
    using as(1) by (auto simp: pool_ok_def)
qed

interpretation guest_fill: table_fill sv48x4 pte_pool_pop pool_avail pool_ok ..

end
