(* ===== verification/Guest_Stage.thy ===== *)
theory Guest_Stage
  imports Pte_Pool
begin

text \<open>
  The guest-stage table's operations on ranges: locking a range through a mapper and the clean-up
  when that fails, mapping the pages of a locked range, and invalidating, unmapping and listing
  ranges.
\<close>

section \<open>The addresses of a range\<close>

lemma iter_take_take: "take j (page_addr_iter_take n it) = page_addr_iter_take (min j n) it"
proof (induction n arbitrary: j it)
  case (Suc n)
  show ?case
    using Suc by (cases j) (auto split: prod.splits option.splits)
qed simp

lemma iter_take_length: "length (page_addr_iter_take n it) \<le> n"
  by (induction n arbitrary: it) (auto split: prod.splits option.splits)

lemma range_addrs_take:
  assumes "range_addrs base n = Ok as" and "j \<le> length as"
  shows "range_addrs base (of_nat j) = Ok (take j as)"
proof -
  obtain it where it: "page_addr_iter_from base = (Ok it :: (pt_error, _) result)" "as = page_addr_iter_take (unat n) it"
    using assms(1) by (auto simp: range_addrs_def result_bind_Ok)
  have "length as \<le> unat n"
    using it(2) iter_take_length by simp
  then have j: "j \<le> unat n" "unat (of_nat j :: u64) = j"
    using assms(2) unat_u64_less [of n] by (simp_all add: unat_of_nat)
  then show ?thesis
    using it by (simp add: range_addrs_def iter_take_take)
qed

lemma range_addrs_nat:
  assumes "page_addr_wf base"
  obtains as where "range_addrs base n = Ok as"
    "map addr_nat as = map (\<lambda>i. addr_nat base + i * 4096) [0..<min (unat n) ((2 ^ 64 - addr_nat base) div 4096)]"
proof -
  have al: "page_addr_is_aligned base Size4k"
    using assms by (simp add: page_addr_wf_def)
  let ?it = "\<lparr>iter_next = Some base, iter_increment = Size4k\<rparr>"
  have "page_addr_iter_new base Size4k = Some ?it"
    using al by (cases base) (simp add: page_addr_iter_new_def page_addr_with_alignment_def
        page_addr_is_aligned_def page_addr_bits_def)
  then have "range_addrs base n = Ok (page_addr_iter_take (unat n) ?it)"
    by (simp add: range_addrs_def page_addr_iter_from_def)
  then show thesis
    using that iter_take_addr_nat [OF al, of "unat n"] by simp
qed

lemma range_addrs_fit:
  assumes "page_addr_wf base" and "addr_nat base + 4096 * unat n \<le> 2 ^ 64" and "range_addrs base n = Ok as"
  shows "map addr_nat as = map (\<lambda>i. addr_nat base + i * 4096) [0..<unat n]"
proof -
  have "unat n \<le> (2 ^ 64 - addr_nat base) div 4096"
    using assms(2) by (simp add: less_eq_div_iff_mult_less_eq)
  then show ?thesis
    using range_addrs_nat [OF assms(1), of n] assms(3) by (metis min.absorb1 result.inject(1))
qed

lemma range_addrs_fit_length:
  assumes "page_addr_wf base" and "addr_nat base + 4096 * unat n \<le> 2 ^ 64" and "range_addrs base n = Ok as"
  shows "length as = unat n"
  using arg_cong [OF range_addrs_fit [OF assms], of length] by simp

lemma range_addrs_length: "range_addrs base n = Ok as \<Longrightarrow> length as \<le> unat n"
  using iter_take_length by (auto simp: range_addrs_def result_bind_Ok)

section \<open>Locking a range\<close>

context table_fill
begin

text \<open>
  \<open>map_range\<close>: on success the mapper covers the addresses of the range, all locked and nothing else
  changed; on an error every lock is taken back and the table translates as before.
\<close>

lemma guest_map_range_correct:
  assumes ok: "fill_ok pm avail src_ok (gst_root g) T (s, m)" and wf: "page_addr_wf addr"
    and res: "guest_stage_map_range pm g get_pte_page (s, m) addr Size4k n = (res, s', m')"
  shows "\<exists>T' as. fill_ok pm avail src_ok (gst_root g) T' (s', m') \<and> range_addrs addr n = Ok as
    \<and> (case res of
         Ok mapper \<Rightarrow> mapper = \<lparr>gsm_vaddr = addr, gsm_num_pages = of_nat (length as)\<rparr>
           \<and> lock_steps pm Size4k (pt_view pm m (gst_root g)) (map page_addr_bits as) (pt_view pm m' (gst_root g))
       | Err e \<Rightarrow> pt_view pm m' (gst_root g) = pt_view pm m (gst_root g)
       | Panic \<Rightarrow> False)"
proof -
  let ?root = "gst_root g"
  obtain as where as: "range_addrs addr n = Ok as"
    using range_addrs_nat [OF wf] by metis
  obtain res1 k s1 m1 where l: "lock_loop pm ?root get_pte_page (s, m) Size4k 0 as = (res1, k, s1, m1)"
    by (metis prod_cases4)
  obtain T1 j where T1: "fill_ok pm avail src_ok ?root T1 (s1, m1)" "j \<le> length as" "k = of_nat j"
    "lock_steps pm Size4k (pt_view pm m ?root) (map page_addr_bits (take j as)) (pt_view pm m1 ?root)"
    and c: "case res1 of Ok _ \<Rightarrow> j = length as | Err e \<Rightarrow> j < length as | Panic \<Rightarrow> False"
    using lock_loop_correct [OF has_4k ok l] by auto
  have inv: "pt_inv pm ?root T1 m1" and vo: "view_ok pm (pt_view pm m ?root)"
    using T1(1) ok view_ok_view by (auto simp: fill_ok_def)
  show ?thesis
  proof (cases res1)
    case (Ok u)
    then show ?thesis
      using res l T1 c as by (auto simp: guest_stage_map_range_def is_huge_def)
  next
    case (Err e)
    obtain m2 where u: "unlock_loop pm ?root m1 (take j as) = (Ok (), m2)" "pt_step pm ?root T1 m1 m2"
      "pt_view pm m2 ?root = unlock_view pm (page_addr_bits ` set (take j as)) (pt_view pm m1 ?root)"
      using unlock_loop_correct [OF inv] by blast
    have "pt_view pm m2 ?root = pt_view pm m ?root"
      using u(3) lock_steps_unlock [OF T1(4) vo, of "{}"] by (simp add: unlock_view_empty)
    moreover have "fill_ok pm avail src_ok ?root T1 (s1, m2)"
      by (rule fill_ok_step [OF T1(1) u(2)])
    moreover have "guest_mapper_drop pm ?root \<lparr>gsm_vaddr = addr, gsm_num_pages = k\<rparr> m1 = (Ok (), m2)"
      using range_addrs_take [OF as T1(2)] T1(3) u(1) by (simp add: guest_mapper_drop_def)
    ultimately show ?thesis
      using res l Err as by (auto simp: guest_stage_map_range_def is_huge_def)
  qed (use c in simp)
qed

end

section \<open>Mapping the pages of a locked range\<close>

text \<open>The number of the 4kB page of an address among those the table translates.\<close>

definition page_no :: "'l paging_mode \<Rightarrow> u64 \<Rightarrow> nat" where
  "page_no pm a = unat a mod 2 ^ pm_top_bits pm div 4096"

definition level_4k :: "'l paging_mode \<Rightarrow> 'l" where
  "level_4k pm = hd (filter (\<lambda>l. pm_leaf_page_size pm l = Size4k) (pm_levels pm))"

text \<open>The entry of an address is locked for the mapping of a 4kB page.\<close>

definition locked_4k :: "'l paging_mode \<Rightarrow> (u64 \<Rightarrow> ('l \<times> u64) option) \<Rightarrow> u64 \<Rightarrow> bool" where
  "locked_4k pm f a \<longleftrightarrow> (\<exists>v. f a = Some (level_4k pm, v) \<and> \<not> pte_valid v \<and> pte_locked v)"

text \<open>Mapping a list of pages with a mapper, stopping at an error.\<close>

fun map_each ::
    "'l paging_mode \<Rightarrow> guest_stage_table \<Rightarrow> 'as guest_stage_mapper \<Rightarrow> mem \<Rightarrow> ('as page_addr \<times> page) list
     \<Rightarrow> unit pt_result \<times> mem" where
  "map_each pm g mapper m [] = (Ok (), m)"
| "map_each pm g mapper m ((va, p) # xs) =
     (case map_page pm g mapper m va p of
        (Ok _, m') \<Rightarrow> map_each pm g mapper m' xs
      | res \<Rightarrow> res)"

text \<open>The view after pages were mapped at some addresses.\<close>

definition mapped_view ::
    "'l paging_mode \<Rightarrow> ('as page_addr \<times> page) list \<Rightarrow> (u64 \<Rightarrow> ('l \<times> u64) option) \<Rightarrow> u64 \<Rightarrow> ('l \<times> u64) option" where
  "mapped_view pm xs f b =
     (case find (\<lambda>(va, p). page_no pm (page_addr_bits va) = page_no pm b) xs of
        Some (va, p) \<Rightarrow> Some (level_4k pm, pte_set (page_addr_pfn (page_base p)) (user_leaf_with_perms PermRWX))
      | None \<Rightarrow> f b)"

context paging_mode_laws
begin

lemma level_4k_unique:
  assumes "l \<in> set (pm_levels pm)" and "pm_leaf_page_size pm l = Size4k"
  shows "l = level_4k pm"
proof -
  have "distinct (map (pm_leaf_page_size pm) ls) \<Longrightarrow> l \<in> set ls \<Longrightarrow>
      filter (\<lambda>l. pm_leaf_page_size pm l = Size4k) ls = [l]" for ls
  proof (induction ls)
    case (Cons x xs)
    show ?case
    proof (cases "x = l")
      case True
      then have "filter (\<lambda>l. pm_leaf_page_size pm l = Size4k) xs = []"
        using Cons.prems(1) assms(2) by (force simp: filter_empty_conv)
      then show ?thesis
        using True assms(2) by simp
    next
      case False
      then show ?thesis
        using Cons assms(2) by force
    qed
  qed simp
  then show ?thesis
    using sizes_distinct assms(1) by (simp add: level_4k_def)
qed

lemma level_4k_props:
  "level_4k pm \<in> set (pm_levels pm)" "pm_leaf_page_size pm (level_4k pm) = Size4k" "pm_is_leaf pm (level_4k pm)"
  "va_block pm (level_4k pm) = page_no pm"
proof -
  obtain l where l: "l \<in> set (pm_levels pm)" "pm_leaf_page_size pm l = Size4k"
    using has_4k by auto
  then have eq: "l = level_4k pm"
    by (rule level_4k_unique)
  show "level_4k pm \<in> set (pm_levels pm)" "pm_leaf_page_size pm (level_4k pm) = Size4k"
    using l eq by simp_all
  then show "pm_is_leaf pm (level_4k pm)"
    using leaf_4k by (simp add: list_all_iff)
  have "(2 :: nat) ^ pm_addr_shift pm l = 4096"
    using levels_ok l by (auto simp: list_all_iff level_ok_def)
  then show "va_block pm (level_4k pm) = page_no pm"
    using eq by (simp add: fun_eq_iff va_block_def page_no_def)
qed

lemma leaf_level_iff: "pm_is_leaf pm l \<longleftrightarrow> l = level_4k pm" if "l \<in> set (pm_levels pm)"
proof -
  have "pm_is_leaf pm l \<longleftrightarrow> pm_leaf_page_size pm l = Size4k"
    using leaf_4k that by (simp add: list_all_iff)
  then show ?thesis
    using level_4k_unique [OF that] level_4k_props(2) by blast
qed

lemma map_page_correct:
  assumes inv: "pt_inv pm (gst_root g) T m" and lk: "locked_4k pm (pt_view pm m (gst_root g)) (page_addr_bits va)"
    and p: "page_len p = Size4k" "page_wf p"
    and range: "checked_add_pages (gsm_vaddr mapper) (gsm_num_pages mapper) = Some e"
      "\<not> page_addr_lt va (gsm_vaddr mapper)" "\<not> page_addr_le e va"
  shows "\<exists>m'. map_page pm g mapper m va p = (Ok (), m') \<and> pt_step pm (gst_root g) T m m'
    \<and> pt_view pm m' (gst_root g) = mapped_view pm [(va, p)] (pt_view pm m (gst_root g))"
proof -
  let ?st = "user_leaf_with_perms PermRWX" and ?f = "pt_view pm m (gst_root g)"
  obtain v where v: "?f (page_addr_bits va) = Some (level_4k pm, v)" "\<not> pte_valid v" "pte_locked v"
    using lk by (auto simp: locked_4k_def)
  have al: "page_addr_is_aligned (page_base p) Size4k"
    using p by (simp add: page_wf_def)
  obtain m' where m': "map_leaf pm (gst_root g) m va (page_base p) Size4k ?st = (Ok (), m')"
    "pt_step pm (gst_root g) T m m'"
    "pt_view pm m' (gst_root g)
      = block_upd pm ?f (level_4k pm) (page_addr_bits va) (pte_set (page_addr_pfn (page_base p)) ?st)"
    using map_leaf_correct [OF inv v level_4k_props(2) al leaf_status_perms(2)] by blast
  have "\<not> is_unused (pte_set (page_addr_pfn (page_base p)) ?st)"
    using pte_set_leaf(1) [OF leaf_status_perms(2)] by (simp add: is_unused_def)
  then have "pt_view pm m' (gst_root g) = mapped_view pm [(va, p)] ?f"
    using m'(3) by (auto simp: fun_eq_iff block_upd_def mapped_view_def level_4k_props(4) cell_view_def)
  moreover have "map_page pm g mapper m va p = (Ok (), m')"
    using p range m'(1) by (simp add: map_page_def is_huge_def)
  ultimately show ?thesis
    using m'(2) by blast
qed

lemma map_each_correct:
  assumes range: "checked_add_pages (gsm_vaddr mapper) (gsm_num_pages mapper) = Some e"
  shows "pt_inv pm (gst_root g) T m \<Longrightarrow> distinct (map (page_no pm o page_addr_bits o fst) xs) \<Longrightarrow>
    (\<And>va p. (va, p) \<in> set xs \<Longrightarrow> locked_4k pm (pt_view pm m (gst_root g)) (page_addr_bits va)
       \<and> page_len p = Size4k \<and> page_wf p \<and> \<not> page_addr_lt va (gsm_vaddr mapper) \<and> \<not> page_addr_le e va) \<Longrightarrow>
    \<exists>m'. map_each pm g mapper m xs = (Ok (), m') \<and> pt_step pm (gst_root g) T m m'
      \<and> pt_view pm m' (gst_root g) = mapped_view pm xs (pt_view pm m (gst_root g))"
proof (induction xs arbitrary: m)
  case Nil
  then show ?case
    by (auto simp: mapped_view_def pt_step_refl fun_eq_iff)
next
  case (Cons x xs)
  obtain va p where x: "x = (va, p)"
    by (cases x)
  let ?f = "pt_view pm m (gst_root g)"
  obtain m1 where m1: "map_page pm g mapper m va p = (Ok (), m1)" "pt_step pm (gst_root g) T m m1"
    "pt_view pm m1 (gst_root g) = mapped_view pm [(va, p)] ?f"
    using map_page_correct [OF Cons.prems(1) _ _ _ range] Cons.prems(3) [of va p] x by auto
  have "locked_4k pm (pt_view pm m1 (gst_root g)) (page_addr_bits va')" if "(va', p') \<in> set xs" for va' p'
    using Cons.prems(2) Cons.prems(3) [of va' p'] that x m1(3)
    by (force simp: locked_4k_def mapped_view_def)
  then obtain m' where m': "map_each pm g mapper m1 xs = (Ok (), m')" "pt_step pm (gst_root g) T m1 m'"
    "pt_view pm m' (gst_root g) = mapped_view pm xs (pt_view pm m1 (gst_root g))"
    using Cons.IH [of m1] Cons.prems(2,3) m1(2) by (force simp: pt_step_def)
  have "mapped_view pm xs (mapped_view pm [(va, p)] ?f) = mapped_view pm (x # xs) ?f"
  proof
    fix b
    have "find (\<lambda>(va', p'). page_no pm (page_addr_bits va') = page_no pm b) xs = None"
      if "page_no pm (page_addr_bits va) = page_no pm b"
      using Cons.prems(2) x that by (force simp: find_None_iff)
    then show "mapped_view pm xs (mapped_view pm [(va, p)] ?f) b = mapped_view pm (x # xs) ?f b"
      by (auto simp: mapped_view_def x split: option.splits)
  qed
  then show ?case
    using m1 m' x pt_step_trans [OF m1(2) m'(2)] by simp
qed

lemma lock_step_4k:
  assumes "lock_step pm Size4k f a h"
  shows "\<not> locked_4k pm f a" "locked_4k pm h a" "\<And>b. locked_4k pm f b \<Longrightarrow> locked_4k pm h b"
    "\<And>b. page_no pm b = page_no pm a \<Longrightarrow> \<not> locked_4k pm f b"
    "\<And>b. page_no pm b \<noteq> page_no pm a \<Longrightarrow> h b = f b"
proof -
  obtain l v where "l \<in> set (pm_levels pm)" "pm_leaf_page_size pm l = Size4k" and v: "\<not> pte_valid v" "\<not> pte_locked v"
    and f: "\<And>b. va_block pm l b = va_block pm l a \<Longrightarrow> f b = cell_view l v" and h: "h = block_upd pm f l a (pte_lock v)"
    using assms unfolding lock_step_def by blast
  then have l: "l = level_4k pm"
    using level_4k_unique by blast
  show np: "\<not> locked_4k pm f b" if "page_no pm b = page_no pm a" for b
    using f [of b] that v(2) l by (auto simp: locked_4k_def cell_view_Some level_4k_props)
  then show "\<not> locked_4k pm f a"
    by blast
  show ne: "h b = f b" if "page_no pm b \<noteq> page_no pm a" for b
    using that h l by (simp add: block_upd_def level_4k_props)
  show "locked_4k pm h a"
    using h l v by (simp add: locked_4k_def block_upd_def cell_view_def is_unused_def)
  show "locked_4k pm h b" if "locked_4k pm f b" for b
    using that ne np by (fastforce simp: locked_4k_def)
qed

lemma lock_steps_4k:
  "lock_steps pm Size4k f as g \<Longrightarrow> distinct (map (page_no pm) as)
     \<and> (\<forall>a \<in> set as. locked_4k pm g a) \<and> (\<forall>b. locked_4k pm f b \<longrightarrow> locked_4k pm g b \<and> page_no pm b \<notin> page_no pm ` set as)
     \<and> (\<forall>b. page_no pm b \<notin> page_no pm ` set as \<longrightarrow> g b = f b)"
proof (induction as arbitrary: f)
  case (Cons a as)
  then obtain h where h: "lock_step pm Size4k f a h" "lock_steps pm Size4k h as g"
    by auto
  note s = lock_step_4k [OF h(1)] and IH = Cons.IH [OF h(2)]
  have "page_no pm a \<notin> page_no pm ` set as"
    using IH s(2) by blast
  moreover have "page_no pm b \<noteq> page_no pm a" if "locked_4k pm f b" for b
    using s(4) that by metis
  ultimately show ?case
    using IH s(2,3,5) by simp
qed simp

lemma mapped_view_in:
  assumes "length ps = length as" and "distinct (map (page_no pm o page_addr_bits) as)" and "k < length as"
    and "page_no pm b = page_no pm (page_addr_bits (as ! k))"
  shows "mapped_view pm (zip as ps) f b
    = Some (level_4k pm, pte_set (page_addr_pfn (page_base (ps ! k))) (user_leaf_with_perms PermRWX))"
proof -
  have "find (\<lambda>(va, p). page_no pm (page_addr_bits va) = page_no pm b) (zip as ps) = Some (as ! k, ps ! k)"
    using assms unfolding find_Some_iff
    by (intro exI [of _ k]) (auto simp: distinct_conv_nth)
  then show ?thesis
    by (simp add: mapped_view_def)
qed

lemma mapped_view_out:
  assumes "length ps = length as" and "page_no pm b \<notin> page_no pm ` page_addr_bits ` set as"
  shows "mapped_view pm (zip as ps) f b = f b"
proof -
  have "find (\<lambda>(va, p). page_no pm (page_addr_bits va) = page_no pm b) (zip as ps) = None"
    using assms(2) by (auto simp: find_None_iff image_iff) (metis set_zip_leftD)
  then show ?thesis
    by (simp add: mapped_view_def)
qed

end

context paging_mode_laws
begin

lemma mapped_view_frame:
  assumes "length ps = length as"
    and "\<And>b. page_no pm b \<notin> page_no pm ` set (map page_addr_bits as) \<Longrightarrow> g b = f b"
    and "distinct (map (page_no pm o page_addr_bits) as)"
  shows "mapped_view pm (zip as ps) g = mapped_view pm (zip as ps) f"
proof
  fix b
  show "mapped_view pm (zip as ps) g b = mapped_view pm (zip as ps) f b"
  proof (cases "page_no pm b \<in> page_no pm ` page_addr_bits ` set as")
    case True
    then obtain k where "k < length as" "page_no pm b = page_no pm (page_addr_bits (as ! k))"
      by (auto simp: in_set_conv_nth)
    then show ?thesis
      using mapped_view_in [OF assms(1,3)] by metis
  next
    case False
    then show ?thesis
      using mapped_view_out [OF assms(1)] assms(2) by simp
  qed
qed

text \<open>Mapped entries have no lock left to take back.\<close>

lemma unlock_mapped:
  assumes "view_ok pm (mapped_view pm (zip as ps) f)" and "length ps = length as"
    and "distinct (map (page_no pm o page_addr_bits) as)"
  shows "unlock_view pm (page_addr_bits ` set as) (mapped_view pm (zip as ps) f) = mapped_view pm (zip as ps) f"
proof
  fix b
  let ?g = "mapped_view pm (zip as ps) f"
  have "\<not> pte_locked v" if gb: "?g b = Some (l, v)" and a: "a \<in> set as"
    and blk: "va_block pm l (page_addr_bits a) = va_block pm l b" for l v a
  proof -
    obtain k where "k < length as" "a = as ! k"
      using a by (auto simp: in_set_conv_nth)
    then have "?g (page_addr_bits a)
        = Some (level_4k pm, pte_set (page_addr_pfn (page_base (ps ! k))) (user_leaf_with_perms PermRWX))"
      using mapped_view_in [OF assms(2,3)] by simp
    then show ?thesis
      using view_okD [OF assms(1) gb blk] pte_set_leaf(3) [OF leaf_status_perms(2)] by auto
  qed
  then show "unlock_view pm (page_addr_bits ` set as) ?g b = ?g b"
    by (force simp: unlock_view_eq split: option.splits)
qed

end

context table_fill
begin

text \<open>
  The whole use of a mapper: lock a range, map a page at each of its addresses, drop the mapper.
\<close>

lemma mapper_lifecycle:
  assumes ok: "fill_ok pm avail src_ok (gst_root g) T (s, m)" and wf: "page_addr_wf addr"
    and fits: "addr_nat addr + 4096 * unat n < 2 ^ 64"
    and res: "guest_stage_map_range pm g get_pte_page (s, m) addr Size4k n = (Ok mapper, s', m1)"
    and as: "range_addrs addr n = Ok as"
    and ps: "length ps = unat n" "list_all (\<lambda>p. page_len p = Size4k \<and> page_wf p) ps"
  shows "\<exists>T' m2 m3. map_each pm g mapper m1 (zip as ps) = (Ok (), m2)
    \<and> guest_mapper_drop pm (gst_root g) mapper m2 = (Ok (), m3)
    \<and> fill_ok pm avail src_ok (gst_root g) T' (s', m3)
    \<and> pt_view pm m3 (gst_root g) = mapped_view pm (zip as ps) (pt_view pm m (gst_root g))"
proof -
  let ?root = "gst_root g" and ?f = "pt_view pm m (gst_root g)" and ?f1 = "pt_view pm m1 (gst_root g)"
  obtain T' where T': "fill_ok pm avail src_ok ?root T' (s', m1)"
    and mp: "mapper = \<lparr>gsm_vaddr = addr, gsm_num_pages = of_nat (length as)\<rparr>"
    and steps: "lock_steps pm Size4k ?f (map page_addr_bits as) ?f1"
    using guest_map_range_correct [OF ok wf res] as by auto
  have inv1: "pt_inv pm ?root T' m1"
    using T' by (simp add: fill_ok_def)
  note l4 = lock_steps_4k [OF steps]
  have "addr_nat addr + 4096 * unat n \<le> 2 ^ 64"
    using fits by simp
  note nat = range_addrs_fit [OF wf this as] and len = range_addrs_fit_length [OF wf this as]
  obtain e where e: "checked_add_pages addr n = Some e" "addr_nat e = addr_nat addr + 4096 * unat n"
    using checked_add_pages_with_size_fits [of addr Size4k n] wf fits
    by (auto simp: checked_add_pages_def page_addr_wf_def algebra_simps)
  have in_range: "\<not> page_addr_lt va addr" "\<not> page_addr_le e va" if va: "va \<in> set as" for va
  proof -
    obtain k where "k < unat n" "va = as ! k"
      using va len by (metis in_set_conv_nth)
    then have "addr_nat va = addr_nat addr + k * 4096" "k < unat n"
      using arg_cong [OF nat, of "\<lambda>xs. xs ! k"] len by simp_all
    then show "\<not> page_addr_lt va addr" "\<not> page_addr_le e va"
      using e(2) by (simp_all add: page_addr_lt_iff page_addr_le_iff)
  qed
  have dist: "distinct (map (page_no pm \<circ> page_addr_bits \<circ> fst) (zip as ps))"
    using l4 len ps(1) by (simp add: map_map [symmetric] o_assoc [symmetric] del: map_map)
  have len': "length ps = length as"
    using ps(1) len by simp
  have mrange: "checked_add_pages (gsm_vaddr mapper) (gsm_num_pages mapper) = Some e"
    using mp e(1) len by simp
  have pre: "locked_4k pm ?f1 (page_addr_bits va) \<and> page_len p = Size4k \<and> page_wf p
      \<and> \<not> page_addr_lt va (gsm_vaddr mapper) \<and> \<not> page_addr_le e va" if "(va, p) \<in> set (zip as ps)" for va p
    using l4 in_range mp ps(2) set_zip_leftD [OF that] set_zip_rightD [OF that] by (auto simp: list_all_iff)
  obtain m2 where m2: "map_each pm g mapper m1 (zip as ps) = (Ok (), m2)" "pt_step pm ?root T' m1 m2"
    "pt_view pm m2 ?root = mapped_view pm (zip as ps) ?f1"
    using map_each_correct [OF mrange inv1 dist] pre by blast
  have inv2: "pt_inv pm ?root T' m2"
    using m2(2) by (simp add: pt_step_def)
  obtain m3 where m3: "unlock_loop pm ?root m2 as = (Ok (), m3)" "pt_step pm ?root T' m2 m3"
    "pt_view pm m3 ?root = unlock_view pm (page_addr_bits ` set as) (pt_view pm m2 ?root)"
    using unlock_loop_correct [OF inv2] by blast
  have "guest_mapper_drop pm ?root mapper m2 = (Ok (), m3)"
    using mp m3(1) range_addrs_take [OF as, of "length as"] by (simp add: guest_mapper_drop_def)
  moreover have "fill_ok pm avail src_ok ?root T' (s', m3)"
    by (rule fill_ok_step [OF fill_ok_step [OF T' m2(2)] m3(2)])
  moreover have "pt_view pm m3 ?root = mapped_view pm (zip as ps) ?f"
  proof -
    have d: "distinct (map (page_no pm \<circ> page_addr_bits) as)"
      using l4 by simp
    have "mapped_view pm (zip as ps) ?f1 = mapped_view pm (zip as ps) ?f"
      using l4 by (intro mapped_view_frame [OF len' _ d]) blast
    then show ?thesis
      using m3(3) m2(3) unlock_mapped [OF _ len' d, of ?f1] view_ok_view [OF inv2] by simp
  qed
  ultimately show ?thesis
    using m2(1) by blast
qed

end

end
