(* ===== verification/Guest_Ranges.thy ===== *)
theory Guest_Ranges
  imports Guest_Stage
begin

text \<open>
  The range operations that first check every entry and then take the pages: what the check
  accepts, what the iterator yields and how the table has changed when it has run.
\<close>

section \<open>The two loops\<close>

lemma each_ok_Ok: "each_ok f as = Ok () \<longleftrightarrow> (\<forall>a \<in> set as. f a = Ok ())"
  by (induction as) (auto simp: result_bind_Ok)

lemma each_ok_Err: "each_ok f as = Err e \<Longrightarrow> \<exists>a \<in> set as. f a = Err e"
proof (induction as)
  case (Cons a as)
  then show ?case
    by (cases "f a") auto
qed simp

lemma each_ok_no_panic: "(\<And>a. a \<in> set as \<Longrightarrow> f a \<noteq> Panic) \<Longrightarrow> each_ok f as \<noteq> Panic"
proof (induction as)
  case (Cons a as)
  then show ?case
    by (cases "f a") auto
qed simp

definition pte_page :: "u64 \<Rightarrow> supervisor_page_addr" where
  "pte_page v = PageAddr (raw_supervisor (push_bit PFN_SHIFT (pfn_bits (pte_pfn v))))"

definition pte_mapped :: "u64 \<Rightarrow> bool" where
  "pte_mapped v \<longleftrightarrow> pte_valid v \<and> pte_leaf v \<and> \<not> pte_locked v"

definition pte_invalidated :: "u64 \<Rightarrow> bool" where
  "pte_invalidated v \<longleftrightarrow> \<not> pte_valid v \<and> \<not> pte_locked v \<and> pfn_bits (pte_pfn v) \<noteq> 0"

lemma cell_page: "cell_ok pm l v \<Longrightarrow> page_addr_from_pfn (pte_pfn v) (pm_leaf_page_size pm l) = Some (pte_page v)"
  by (auto simp: cell_ok_def page_addr_from_pfn_def page_addr_with_alignment_def pte_page_def raw_supervisor_def
      pte_pfn_def pfn_supervisor_def split: if_splits)

lemma entry_page_addr_cell:
  "cell_ok pm (te_level r) (m (te_pte r)) \<Longrightarrow> entry_page_addr pm m r = Ok (pte_page (m (te_pte r)))"
  by (simp add: entry_page_addr_def cell_page)

lemma pte_page_invalidate [simp]: "pte_page (pte_invalidate v) = pte_page v"
  by (simp add: pte_page_def)

lemma view_chg_other:
  assumes "\<And>l v w. chg l v = Some w \<Longrightarrow> va_block pm l a \<noteq> va_block pm l b"
  shows "view_chg pm chg {a} f b = f b"
  using assms by (fastforce simp: view_chg_def split: option.splits)

section \<open>Checks and takes over the view\<close>

definition inval_chg :: "'l paging_mode \<Rightarrow> 'l \<Rightarrow> u64 \<Rightarrow> u64 option" where
  "inval_chg pm l v = (if l = level_4k pm \<and> pte_mapped v then Some (pte_invalidate v) else None)"

definition clear_chg :: "'l paging_mode \<Rightarrow> (u64 \<Rightarrow> bool) \<Rightarrow> 'l \<Rightarrow> u64 \<Rightarrow> u64 option" where
  "clear_chg pm P l v = (if l = level_4k pm \<and> P v then Some 0 else None)"

text \<open>The page of an entry of the 4kB level that satisfies \<open>P\<close>.\<close>

definition page_if :: "'l paging_mode \<Rightarrow> (u64 \<Rightarrow> bool) \<Rightarrow> ('l \<times> u64) option \<Rightarrow> supervisor_page_addr option" where
  "page_if pm P e =
     (case e of Some (l, v) \<Rightarrow> if l = level_4k pm \<and> P v then Some (pte_page v) else None | None \<Rightarrow> None)"

lemma unused_not [simp]: "is_unused v \<Longrightarrow> \<not> pte_mapped v" "is_unused v \<Longrightarrow> \<not> pte_invalidated v"
  by (simp_all add: is_unused_def pte_mapped_def pte_invalidated_def)

lemma chg_props:
  "inval_chg pm l v = Some w \<Longrightarrow> l = level_4k pm" "inval_chg pm l v = Some w \<Longrightarrow> inval_chg pm l w = None"
  "clear_chg pm P l v = Some w \<Longrightarrow> l = level_4k pm"
  "\<not> P 0 \<Longrightarrow> clear_chg pm P l v = Some w \<Longrightarrow> clear_chg pm P l w = None"
  by (auto simp: inval_chg_def clear_chg_def pte_mapped_def split: if_splits)

lemma not_zero: "\<not> pte_mapped 0" "\<not> pte_invalidated 0"
  by simp_all

context paging_mode_laws
begin

text \<open>What the lookups of a leaf find.\<close>

lemma reach_level: "pt_inv pm root T m \<Longrightarrow> pt_reach pm m root a r \<Longrightarrow> te_level r \<in> set (pm_levels pm)"
proof -
  assume inv: "pt_inv pm root T m" and r: "pt_reach pm m root a r"
  obtain t ls P where "T t = Some (te_level r # ls, P)"
    using pt_reach_slot [OF inv r] unfolding slot_of_def by blast
  then obtain us where "pm_levels pm = us @ te_level r # ls"
    using inv tables_okD(2) unfolding pt_inv_def by blast
  then show ?thesis
    by simp
qed

lemma get_leaf_correct:
  assumes inv: "pt_inv pm root T m"
  obtains r where "pt_reach pm m root (page_addr_bits a) r"
    "pt_view pm m root (page_addr_bits a) = cell_view (te_level r) (m (te_pte r))"
    "cell_ok pm (te_level r) (m (te_pte r))"
    "get_mapped_4k_leaf pm root m a =
       (if pte_mapped (m (te_pte r)) then
          if te_level r = level_4k pm then Ok r else Err (PageSizeNotSupported (pm_leaf_page_size pm (te_level r)))
        else Err PageNotMapped)"
    "get_invalidated_4k_leaf pm root m a =
       (if pte_invalidated (m (te_pte r)) then
          if te_level r = level_4k pm then Ok r else Err (PageSizeNotSupported (pm_leaf_page_size pm (te_level r)))
        else Err PageNotConverted)"
    "walk pm m root (page_addr_raw a) = Ok (entry_from_pte m r)"
    "pm_is_leaf pm (te_level r) = (te_level r = level_4k pm)"
proof -
  obtain r where r: "pt_reach pm m root (page_addr_bits a) r"
    "walk pm m root (page_addr_raw a) = Ok (entry_from_pte m r)"
    "pt_view pm m root (page_addr_bits a) = cell_view (te_level r) (m (te_pte r))"
    "cell_ok pm (te_level r) (m (te_pte r))"
    using pt_view_cases [OF inv] by blast
  have lf: "pm_is_leaf pm (te_level r) = (te_level r = level_4k pm)"
    using leaf_level_iff reach_level [OF inv r(1)] by blast
  have "get_mapped_4k_leaf pm root m a =
       (if pte_mapped (m (te_pte r)) then
          if te_level r = level_4k pm then Ok r else Err (PageSizeNotSupported (pm_leaf_page_size pm (te_level r)))
        else Err PageNotMapped)"
    "get_invalidated_4k_leaf pm root m a =
       (if pte_invalidated (m (te_pte r)) then
          if te_level r = level_4k pm then Ok r else Err (PageSizeNotSupported (pm_leaf_page_size pm (te_level r)))
        else Err PageNotConverted)"
    using r(2) lf by (auto simp: get_mapped_4k_leaf_def get_invalidated_4k_leaf_def entry_from_pte_def Let_def
        pte_mapped_def pte_invalidated_def)
  then show thesis
    using that r lf by blast
qed

lemma page_if_cell:
  assumes "pt_view pm m root a = cell_view l v" and "\<And>v. is_unused v \<Longrightarrow> \<not> P v"
  shows "page_if pm P (pt_view pm m root a) = (if l = level_4k pm \<and> P v then Some (pte_page v) else None)"
  using assms by (auto simp: page_if_def cell_view_def)

lemma invalidate_take_correct:
  assumes inv: "pt_inv pm root T m"
  shows "\<exists>m'. invalidate_take pm root m a = (Ok (page_if pm pte_mapped (pt_view pm m root (page_addr_bits a))), m')
    \<and> pt_step pm root T m m'
    \<and> pt_view pm m' root = view_chg pm (inval_chg pm) {page_addr_bits a} (pt_view pm m root)"
proof -
  obtain r where r: "pt_reach pm m root (page_addr_bits a) r"
    "pt_view pm m root (page_addr_bits a) = cell_view (te_level r) (m (te_pte r))"
    "cell_ok pm (te_level r) (m (te_pte r))"
    and g: "get_mapped_4k_leaf pm root m a =
       (if pte_mapped (m (te_pte r)) then
          if te_level r = level_4k pm then Ok r else Err (PageSizeNotSupported (pm_leaf_page_size pm (te_level r)))
        else Err PageNotMapped)"
    using get_leaf_correct [OF inv] by metis
  note out = page_if_cell [OF r(2), of pte_mapped]
  show ?thesis
  proof (cases "te_level r = level_4k pm \<and> pte_mapped (m (te_pte r))")
    case True
    have cell: "cell_ok pm (te_level r) (pte_invalidate (m (te_pte r)))"
      by (rule cell_ok_ops(3) [OF r(3)])
    have "entry_page_addr pm (pte_write m r (pte_invalidate (m (te_pte r)))) r = Ok (pte_page (m (te_pte r)))"
      using cell by (subst entry_page_addr_cell) (simp_all add: pte_write_def)
    then have "invalidate_take pm root m a
        = (Ok (Some (pte_page (m (te_pte r)))), pte_write m r (pte_invalidate (m (te_pte r))))"
      using g True by (simp add: invalidate_take_def entry_invalidate_def Let_def)
    moreover have "\<not> is_unused (m (te_pte r))"
      using True unused_not by blast
    ultimately show ?thesis
      using view_chg_write [OF inv r(1) _ cell, of "inval_chg pm"] True out
      by (auto simp: inval_chg_def)
  next
    case False
    then have "invalidate_take pm root m a = (Ok None, m)"
      using g by (auto simp: invalidate_take_def)
    moreover have "view_chg pm (inval_chg pm) {page_addr_bits a} (pt_view pm m root) = pt_view pm m root"
      by (rule view_chg_none [OF inv]) (use False r(2) in \<open>auto simp: inval_chg_def cell_view_def split: if_splits\<close>)
    ultimately show ?thesis
      using out False pt_step_refl [OF inv] by auto
  qed
qed

lemma clear_correct:
  assumes inv: "pt_inv pm root T m" and r: "pt_reach pm m root a r"
    and P: "P (m (te_pte r))" "te_level r = level_4k pm" "\<not> is_unused (m (te_pte r))"
  shows "pt_step pm root T m (entry_clear m r)
    \<and> pt_view pm (entry_clear m r) root = view_chg pm (clear_chg pm P) {a} (pt_view pm m root)"
  using view_chg_write [OF inv r _ zero_cell_ok P(3), of "clear_chg pm P"] P
  by (simp add: entry_clear_def pte_clear_def clear_chg_def)

lemma unmap_take_correct:
  assumes inv: "pt_inv pm root T m"
  shows "\<exists>m'. unmap_take pm root m a = (Ok (page_if pm pte_invalidated (pt_view pm m root (page_addr_bits a))), m')
    \<and> pt_step pm root T m m'
    \<and> pt_view pm m' root = view_chg pm (clear_chg pm pte_invalidated) {page_addr_bits a} (pt_view pm m root)"
proof -
  obtain r where r: "pt_reach pm m root (page_addr_bits a) r"
    "pt_view pm m root (page_addr_bits a) = cell_view (te_level r) (m (te_pte r))"
    "cell_ok pm (te_level r) (m (te_pte r))"
    and g: "get_invalidated_4k_leaf pm root m a =
       (if pte_invalidated (m (te_pte r)) then
          if te_level r = level_4k pm then Ok r else Err (PageSizeNotSupported (pm_leaf_page_size pm (te_level r)))
        else Err PageNotConverted)"
    using get_leaf_correct [OF inv] by metis
  note out = page_if_cell [OF r(2), of pte_invalidated]
  show ?thesis
  proof (cases "te_level r = level_4k pm \<and> pte_invalidated (m (te_pte r))")
    case True
    then have "unmap_take pm root m a = (Ok (Some (pte_page (m (te_pte r)))), entry_clear m r)"
      using g entry_page_addr_cell [of pm r m, OF r(3)] by (simp add: unmap_take_def)
    moreover have "\<not> is_unused (m (te_pte r))"
      using True unused_not by blast
    ultimately show ?thesis
      using clear_correct [OF inv r(1), of pte_invalidated] True out by simp
  next
    case False
    then have "unmap_take pm root m a = (Ok None, m)"
      using g by (auto simp: unmap_take_def)
    moreover have "view_chg pm (clear_chg pm pte_invalidated) {page_addr_bits a} (pt_view pm m root) = pt_view pm m root"
      by (rule view_chg_none [OF inv]) (use False r(2) in \<open>auto simp: clear_chg_def cell_view_def split: if_splits\<close>)
    ultimately show ?thesis
      using out False pt_step_refl [OF inv] by auto
  qed
qed

text \<open>The takes that unwrap a lookup need the entry to be there.\<close>

lemma first_stage_take_correct:
  assumes inv: "pt_inv pm root T m" and pre: "page_if pm pte_mapped (pt_view pm m root (page_addr_bits a)) \<noteq> None"
  shows "\<exists>m'. first_stage_take pm root m a = (Ok (page_if pm pte_mapped (pt_view pm m root (page_addr_bits a))), m')
    \<and> pt_step pm root T m m'
    \<and> pt_view pm m' root = view_chg pm (clear_chg pm pte_mapped) {page_addr_bits a} (pt_view pm m root)"
proof -
  obtain r where r: "pt_reach pm m root (page_addr_bits a) r"
    "pt_view pm m root (page_addr_bits a) = cell_view (te_level r) (m (te_pte r))"
    "cell_ok pm (te_level r) (m (te_pte r))"
    and g: "get_mapped_4k_leaf pm root m a =
       (if pte_mapped (m (te_pte r)) then
          if te_level r = level_4k pm then Ok r else Err (PageSizeNotSupported (pm_leaf_page_size pm (te_level r)))
        else Err PageNotMapped)"
    using get_leaf_correct [OF inv] by metis
  note out = page_if_cell [OF r(2), of pte_mapped]
  have True: "te_level r = level_4k pm" "pte_mapped (m (te_pte r))"
    using pre out by (auto split: if_splits)
  moreover from this have "first_stage_take pm root m a = (Ok (Some (pte_page (m (te_pte r)))), entry_clear m r)"
    using g entry_page_addr_cell [of pm r m, OF r(3)] by (simp add: first_stage_take_def)
  moreover have "\<not> is_unused (m (te_pte r))"
    using True unused_not by blast
  ultimately show ?thesis
    using clear_correct [OF inv r(1), of pte_mapped] out by simp
qed

lemma pages_take_correct:
  assumes inv: "pt_inv pm root T m"
    and g: "(get_leaf, P) \<in> {(get_mapped_4k_leaf pm root, pte_mapped), (get_invalidated_4k_leaf pm root, pte_invalidated)}"
    and pre: "page_if pm P (pt_view pm m root (page_addr_bits a)) \<noteq> None"
  shows "\<exists>m'. pages_take pm get_leaf m a = (Ok (page_if pm P (pt_view pm m root (page_addr_bits a))), m')
    \<and> pt_step pm root T m m' \<and> pt_view pm m' root = view_chg pm (\<lambda>_ _. None) {page_addr_bits a} (pt_view pm m root)"
proof -
  obtain r where r: "pt_view pm m root (page_addr_bits a) = cell_view (te_level r) (m (te_pte r))"
    "cell_ok pm (te_level r) (m (te_pte r))"
    and gl: "P (m (te_pte r)) \<Longrightarrow> te_level r = level_4k pm \<Longrightarrow> get_leaf m a = Ok r"
    using get_leaf_correct [OF inv, of a] g by (elim insertE; clarsimp) metis+
  have out: "page_if pm P (pt_view pm m root (page_addr_bits a))
      = (if te_level r = level_4k pm \<and> P (m (te_pte r)) then Some (pte_page (m (te_pte r))) else None)"
    using g by (intro page_if_cell [OF r(1)]) auto
  then have "get_leaf m a = Ok r"
    using gl pre by (auto split: if_splits)
  moreover have "view_chg pm (\<lambda>_ _. None) {page_addr_bits a} (pt_view pm m root) = pt_view pm m root"
    by (rule view_chg_none [OF inv]) simp
  ultimately show ?thesis
    using out pre entry_page_addr_cell [of pm r m, OF r(2)] pt_step_refl [OF inv] by (auto simp: pages_take_def split: if_splits)
qed

end

section \<open>Checking and then taking a range\<close>

definition accept_leaf ::
    "'l paging_mode \<Rightarrow> (u64 \<Rightarrow> bool) \<Rightarrow> bool \<Rightarrow> (supervisor_page_addr \<Rightarrow> bool) \<Rightarrow> ('l \<times> u64) option \<Rightarrow> bool" where
  "accept_leaf pm P holes pred e =
     (case e of Some (l, v) \<Rightarrow> l = level_4k pm \<and> P v \<and> pred (pte_page v) | None \<Rightarrow> holes)"

lemma pages_distinct:
  assumes "12 \<le> t" and "n \<le> 2 ^ (t - 12)" and "i < n" and "j < n" and "i \<noteq> j"
  shows "(4096 * b + i * 4096) mod 2 ^ t div 4096 \<noteq> (4096 * b + j * 4096) mod 2 ^ t div (4096 :: nat)"
proof -
  have t: "(2 :: nat) ^ t = 4096 * 2 ^ (t - 12)"
    using assms(1) power_add [of "2 :: nat" 12 "t - 12"] by simp
  have "(4096 * b + k * 4096) mod 2 ^ t div 4096 = (b + k) mod 2 ^ (t - 12)" for k
    unfolding t using mult_mod_right [of 4096 "b + k" "2 ^ (t - 12)"] by (simp add: algebra_simps)
  moreover have "(b + i) mod 2 ^ (t - 12) \<noteq> (b + j) mod 2 ^ (t - 12)"
  proof
    assume "(b + i) mod 2 ^ (t - 12) = (b + j) mod 2 ^ (t - 12)"
    then have "(2 :: nat) ^ (t - 12) dvd (if i < j then j - i else i - j)"
      using mod_eq_dvd_iff_nat [of "b + i" "b + j" "2 ^ (t - 12)"] mod_eq_dvd_iff_nat [of "b + j" "b + i" "2 ^ (t - 12)"]
      by simp
    then show False
      using assms(2-5) by (auto dest!: dvd_imp_le split: if_splits)
  qed
  ultimately show ?thesis
    by simp
qed

context paging_mode_laws
begin

lemma range_distinct:
  assumes wf: "page_addr_wf base" and fit: "addr_nat base + 4096 * unat n \<le> 2 ^ 64"
    and as: "range_addrs base n = Ok as" and n: "unat n \<le> 2 ^ (pm_top_bits pm - 12)"
  shows "distinct (map (page_no pm \<circ> page_addr_bits) as)"
proof -
  obtain b where b: "addr_nat base = 4096 * b"
    using wf by (auto simp: page_addr_wf_iff)
  have nat: "map addr_nat as = map (\<lambda>i. addr_nat base + i * 4096) [0..<unat n]"
    by (rule range_addrs_fit [OF wf fit as])
  have "12 \<le> pm_top_bits pm"
    using levels_ok by (simp add: pm_levels_def level_ok_def pm_top_bits_def)
  then have "inj_on (\<lambda>i. (4096 * b + i * 4096) mod 2 ^ pm_top_bits pm div 4096) {0..<unat n}"
    using pages_distinct [OF _ n] unfolding inj_on_def by (metis atLeastLessThan_iff)
  then have "distinct (map (\<lambda>x. x mod 2 ^ pm_top_bits pm div 4096) (map addr_nat as))"
    unfolding nat b by (simp add: distinct_map o_def inj_on_def)
  then show ?thesis
    by (simp add: page_no_def addr_nat_def o_def)
qed

lemma accept_cell:
  assumes "pt_view pm m root a = cell_view l v" and "\<And>v. is_unused v \<Longrightarrow> \<not> P v"
  shows "accept_leaf pm P holes pred (pt_view pm m root a)
    \<longleftrightarrow> (if is_unused v then holes else l = level_4k pm \<and> P v \<and> pred (pte_page v))"
  using assms by (auto simp: accept_leaf_def cell_view_def)

lemmas accept_mapped = accept_cell [where P = pte_mapped, simplified unused_not, simplified]
  and accept_invalidated = accept_cell [where P = pte_invalidated, simplified unused_not, simplified]

lemma invalidate_check_iff:
  assumes inv: "pt_inv pm root T m"
  shows "invalidate_check pm root m sparse pred a \<noteq> Panic \<and> (invalidate_check pm root m sparse pred a = Ok ()
    \<longleftrightarrow> accept_leaf pm pte_mapped sparse pred (pt_view pm m root (page_addr_bits a)))"
proof -
  obtain r where r: "pt_view pm m root (page_addr_bits a) = cell_view (te_level r) (m (te_pte r))"
    "cell_ok pm (te_level r) (m (te_pte r))" "walk pm m root (page_addr_raw a) = Ok (entry_from_pte m r)"
    "pm_is_leaf pm (te_level r) = (te_level r = level_4k pm)"
    using get_leaf_correct [OF inv, of a] by metis
  show ?thesis
    unfolding accept_mapped [OF r(1)]
    using r(3,4) entry_page_addr_cell [of pm r m, OF r(2)]
    by (auto simp: invalidate_check_def entry_from_pte_def Let_def is_unused_def pte_mapped_def)
qed

lemma unmap_check_iff:
  assumes inv: "pt_inv pm root T m"
  shows "unmap_check pm root m pred a \<noteq> Panic \<and> (unmap_check pm root m pred a = Ok ()
    \<longleftrightarrow> accept_leaf pm pte_invalidated True pred (pt_view pm m root (page_addr_bits a)))"
proof -
  obtain r where r: "pt_view pm m root (page_addr_bits a) = cell_view (te_level r) (m (te_pte r))"
    "cell_ok pm (te_level r) (m (te_pte r))" "walk pm m root (page_addr_raw a) = Ok (entry_from_pte m r)"
    "pm_is_leaf pm (te_level r) = (te_level r = level_4k pm)"
    using get_leaf_correct [OF inv, of a] by metis
  show ?thesis
    unfolding accept_invalidated [OF r(1)]
    using r(3,4) entry_page_addr_cell [of pm r m, OF r(2)]
    by (auto simp: unmap_check_def entry_from_pte_def Let_def is_unused_def pte_invalidated_def)
qed

lemma first_stage_check_iff:
  assumes inv: "pt_inv pm root T m"
  shows "first_stage_check pm root m a \<noteq> Panic \<and> (first_stage_check pm root m a = Ok ()
    \<longleftrightarrow> accept_leaf pm pte_mapped False (\<lambda>_. True) (pt_view pm m root (page_addr_bits a)))"
proof -
  obtain r where r: "pt_view pm m root (page_addr_bits a) = cell_view (te_level r) (m (te_pte r))"
    "walk pm m root (page_addr_raw a) = Ok (entry_from_pte m r)"
    "pm_is_leaf pm (te_level r) = (te_level r = level_4k pm)"
    using get_leaf_correct [OF inv, of a] by metis
  show ?thesis
    unfolding accept_mapped [OF r(1)] using r(2,3)
    by (auto simp: first_stage_check_def entry_from_pte_def Let_def is_unused_def pte_mapped_def)
qed

lemma pages_check_iff:
  assumes inv: "pt_inv pm root T m"
    and g: "(get_leaf, P) \<in> {(get_mapped_4k_leaf pm root, pte_mapped), (get_invalidated_4k_leaf pm root, pte_invalidated)}"
  shows "pages_check pm m (get_leaf m) pred a \<noteq> Panic \<and> (pages_check pm m (get_leaf m) pred a = Ok ()
    \<longleftrightarrow> accept_leaf pm P False pred (pt_view pm m root (page_addr_bits a)))"
proof -
  obtain r e e' where r: "pt_view pm m root (page_addr_bits a) = cell_view (te_level r) (m (te_pte r))"
    "cell_ok pm (te_level r) (m (te_pte r))"
    and gl: "get_leaf m a = (if P (m (te_pte r)) then if te_level r = level_4k pm then Ok r else Err e else Err e')"
    using get_leaf_correct [OF inv, of a] g by (elim insertE; clarsimp) metis+
  have P: "\<And>v. is_unused v \<Longrightarrow> \<not> P v"
    using g by auto
  have "accept_leaf pm P False pred (pt_view pm m root (page_addr_bits a))
      \<longleftrightarrow> (if is_unused (m (te_pte r)) then False else te_level r = level_4k pm \<and> P (m (te_pte r)) \<and> pred (pte_page (m (te_pte r))))"
    by (rule accept_cell [OF r(1) P])
  then show ?thesis
    using gl P entry_page_addr_cell [of pm r m, OF r(2)] by (auto simp: pages_check_def)
qed

lemma accept_page_if:
  "accept_leaf pm P False pred e \<Longrightarrow> page_if pm P e \<noteq> None"
  by (auto simp: accept_leaf_def page_if_def split: option.splits)

end

section \<open>A range operation\<close>

text \<open>
  The contract between the two loops: the check accepts an entry by its view and never panics; taking an
  accepted entry succeeds, yields what the view tells and changes only entries of the 4kB level, each at most
  once. The outcome of the operation then is: on success every address was accepted, the pages come out in
  the order of the addresses and the accepted entries have changed; on an error, raised for an overflow or an
  address that is not accepted, memory is as it was; it does not panic.
\<close>

definition range_outcome ::
    "'l paging_mode \<Rightarrow> seq_pages \<Rightarrow> 'l table_map \<Rightarrow> (('l \<times> u64) option \<Rightarrow> bool)
     \<Rightarrow> (('l \<times> u64) option \<Rightarrow> supervisor_page_addr option) \<Rightarrow> ('l \<Rightarrow> u64 \<Rightarrow> u64 option)
     \<Rightarrow> mem \<Rightarrow> 'as page_addr \<Rightarrow> u64 \<Rightarrow> supervisor_page_addr list pt_result \<times> mem \<Rightarrow> bool" where
  "range_outcome pm root T acc out chg m base n r =
     (case r of
        (Ok ys, m') \<Rightarrow> \<exists>as. checked_add_pages base n \<noteq> None \<and> range_addrs base n = Ok as \<and> length as = unat n
          \<and> (\<forall>a \<in> set as. acc (pt_view pm m root (page_addr_bits a)))
          \<and> ys = List.map_filter (\<lambda>a. out (pt_view pm m root (page_addr_bits a))) as
          \<and> pt_inv pm root T m' \<and> pt_view pm m' root = view_chg pm chg (page_addr_bits ` set as) (pt_view pm m root)
      | (Err e, m') \<Rightarrow> m' = m \<and> (e = AddressOverflow \<and> checked_add_pages base n = None
          \<or> (\<exists>as. range_addrs base n = Ok as \<and> (\<exists>a \<in> set as. \<not> acc (pt_view pm m root (page_addr_bits a)))))
      | (Panic, m') \<Rightarrow> False)"

locale range_op = paging_mode_laws pm
  for pm :: "'l paging_mode" +
  fixes root :: seq_pages and T :: "'l table_map"
    and chk :: "mem \<Rightarrow> 'as page_addr \<Rightarrow> unit pt_result"
    and acc :: "('l \<times> u64) option \<Rightarrow> bool"
    and tk :: "mem \<Rightarrow> 'as page_addr \<Rightarrow> supervisor_page_addr option pt_result \<times> mem"
    and out :: "('l \<times> u64) option \<Rightarrow> supervisor_page_addr option"
    and chg :: "'l \<Rightarrow> u64 \<Rightarrow> u64 option"
  assumes chk: "pt_inv pm root T m \<Longrightarrow>
      chk m a \<noteq> Panic \<and> (chk m a = Ok () \<longleftrightarrow> acc (pt_view pm m root (page_addr_bits a)))"
    and tk: "pt_inv pm root T m \<Longrightarrow> acc (pt_view pm m root (page_addr_bits a)) \<Longrightarrow>
      \<exists>m'. tk m a = (Ok (out (pt_view pm m root (page_addr_bits a))), m') \<and> pt_step pm root T m m'
        \<and> pt_view pm m' root = view_chg pm chg {page_addr_bits a} (pt_view pm m root)"
    and chg_leaf: "chg l v = Some w \<Longrightarrow> l = level_4k pm"
    and chg_once: "chg l v = Some w \<Longrightarrow> chg l w = None"
begin

lemma yield_each_correct:
  "pt_inv pm root T m \<Longrightarrow> distinct (map (page_no pm \<circ> page_addr_bits) as) \<Longrightarrow>
    (\<And>a. a \<in> set as \<Longrightarrow> acc (pt_view pm m root (page_addr_bits a))) \<Longrightarrow>
    \<exists>m'. yield_each tk m as = (Ok (List.map_filter (\<lambda>a. out (pt_view pm m root (page_addr_bits a))) as), m')
      \<and> pt_step pm root T m m'
      \<and> pt_view pm m' root = view_chg pm chg (page_addr_bits ` set as) (pt_view pm m root)"
proof (induction as arbitrary: m)
  case Nil
  then show ?case
    by (simp add: map_filter_simps view_chg_empty pt_step_refl)
next
  case (Cons a as)
  let ?f = "pt_view pm m root"
  obtain m1 where m1: "tk m a = (Ok (out (?f (page_addr_bits a))), m1)" "pt_step pm root T m m1"
    "pt_view pm m1 root = view_chg pm chg {page_addr_bits a} ?f"
    using tk [OF Cons.prems(1)] Cons.prems(3) [of a] by auto
  have other: "pt_view pm m1 root (page_addr_bits b) = ?f (page_addr_bits b)" if b: "b \<in> set as" for b
    unfolding m1(3)
  proof (rule view_chg_other)
    fix l v w
    assume "chg l v = Some w"
    then have "va_block pm l = page_no pm"
      using chg_leaf level_4k_props(4) by simp
    then show "va_block pm l (page_addr_bits a) \<noteq> va_block pm l (page_addr_bits b)"
      using Cons.prems(2) b by force
  qed
  have "pt_inv pm root T m1"
    using m1(2) by (simp add: pt_step_def)
  then obtain m' where m': "yield_each tk m1 as
      = (Ok (List.map_filter (\<lambda>a. out (pt_view pm m1 root (page_addr_bits a))) as), m')" "pt_step pm root T m1 m'"
    "pt_view pm m' root = view_chg pm chg (page_addr_bits ` set as) (pt_view pm m1 root)"
    using Cons.IH [of m1] Cons.prems(2,3) other by auto
  have "List.map_filter (\<lambda>a. out (pt_view pm m1 root (page_addr_bits a))) as
      = List.map_filter (\<lambda>a. out (?f (page_addr_bits a))) as"
    using other by (auto simp: List.map_filter_def cong: filter_cong)
  then show ?case
    using m1 m' pt_step_trans [OF m1(2) m'(2)] view_chg_union [of chg, OF chg_once]
    by (auto simp: map_filter_simps split: option.splits)
qed

lemma range_op_correct:
  assumes inv: "pt_inv pm root T m" and wf: "page_addr_wf base" and n: "unat n \<le> 2 ^ (pm_top_bits pm - 12)"
  shows "range_outcome pm root T acc out chg m base n (check_then_yield (chk m) tk m base n)"
proof (cases "checked_add_pages base n")
  case None
  then show ?thesis
    by (simp add: check_then_yield_def range_outcome_def)
next
  case (Some e)
  have fit: "addr_nat base + 4096 * unat n \<le> 2 ^ 64"
    using checked_add_pages_with_size_Some [of base n Size4k e] Some wf addr_nat_less [of e]
    by (simp add: checked_add_pages_def page_addr_wf_def algebra_simps)
  obtain as where as: "range_addrs base n = Ok as"
    using range_addrs_nat [OF wf] by metis
  show ?thesis
  proof (cases "each_ok (chk m) as")
    case (Ok u)
    then have acc: "\<forall>a \<in> set as. acc (pt_view pm m root (page_addr_bits a))"
      using each_ok_Ok [of "chk m" as] chk [OF inv] by simp
    have c: "check_then_yield (chk m) tk m base n = yield_each tk m as"
      using Some as Ok by (simp add: check_then_yield_def)
    show ?thesis
      unfolding c
      using yield_each_correct [OF inv range_distinct [OF wf fit as n]] acc as range_addrs_fit_length [OF wf fit as] Some
      by (fastforce simp: pt_step_def range_outcome_def)
  next
    case (Err er)
    then have "check_then_yield (chk m) tk m base n = (Err er, m)"
      using Some as by (simp add: check_then_yield_def)
    then show ?thesis
      using as each_ok_Err [OF Err] chk [OF inv] by (force simp: range_outcome_def)
  next
    case Panic
    then show ?thesis
      using each_ok_no_panic [of as "chk m"] chk [OF inv] by blast
  qed
qed

end

text \<open>The operations of the guest-stage table, and \<open>unmap_range\<close> of the first-stage one.\<close>

interpretation inval: range_op sv48x4 root T "\<lambda>m. invalidate_check sv48x4 root m sparse pred"
    "accept_leaf sv48x4 pte_mapped sparse pred" "invalidate_take sv48x4 root" "page_if sv48x4 pte_mapped" "inval_chg sv48x4"
  for root T sparse pred
  by unfold_locales
     (auto simp: sv48x4.invalidate_check_iff sv48x4.invalidate_take_correct intro: chg_props)

interpretation unmap: range_op sv48x4 root T "\<lambda>m. unmap_check sv48x4 root m pred"
    "accept_leaf sv48x4 pte_invalidated True pred" "unmap_take sv48x4 root" "page_if sv48x4 pte_invalidated"
    "clear_chg sv48x4 pte_invalidated"
  for root T pred
  by unfold_locales
     (auto simp: sv48x4.unmap_check_iff sv48x4.unmap_take_correct intro: chg_props not_zero)

interpretation mapped: range_op sv48x4 root T "\<lambda>m. pages_check sv48x4 m (get_mapped_4k_leaf sv48x4 root m) pred"
    "accept_leaf sv48x4 pte_mapped False pred" "pages_take sv48x4 (get_mapped_4k_leaf sv48x4 root)"
    "page_if sv48x4 pte_mapped" "\<lambda>_ _. None"
  for root T pred
proof (unfold_locales, goal_cases)
  case (1 m a)
  then show ?case
    by (rule sv48x4.pages_check_iff) simp
next
  case (2 m a)
  show ?case
    by (rule sv48x4.pages_take_correct [OF 2(1) _ sv48x4.accept_page_if [OF 2(2)]]) simp
qed simp_all

interpretation converted: range_op sv48x4 root T "\<lambda>m. pages_check sv48x4 m (get_invalidated_4k_leaf sv48x4 root m) pred"
    "accept_leaf sv48x4 pte_invalidated False pred" "pages_take sv48x4 (get_invalidated_4k_leaf sv48x4 root)"
    "page_if sv48x4 pte_invalidated" "\<lambda>_ _. None"
  for root T pred
proof (unfold_locales, goal_cases)
  case (1 m a)
  then show ?case
    by (rule sv48x4.pages_check_iff) simp
next
  case (2 m a)
  show ?case
    by (rule sv48x4.pages_take_correct [OF 2(1) _ sv48x4.accept_page_if [OF 2(2)]]) simp
qed simp_all

interpretation hyp_unmap: range_op sv48 root T "first_stage_check sv48 root"
    "accept_leaf sv48 pte_mapped False (\<lambda>_. True)" "first_stage_take sv48 root" "page_if sv48 pte_mapped"
    "clear_chg sv48 pte_mapped"
  for root T
proof (unfold_locales, goal_cases)
  case (1 m a)
  then show ?case
    by (rule sv48.first_stage_check_iff)
next
  case (2 m a)
  show ?case
    by (rule sv48.first_stage_take_correct [OF 2(1) sv48.accept_page_if [OF 2(2)]])
qed (auto intro: chg_props not_zero)

end
