(* ===== verification/Page_Table_Properties.thy ===== *)
theory Page_Table_Properties
  imports Guest_Ranges
begin

text \<open>
  What the page tables promise: a new table is empty and well formed, walks end in an entry that is
  no table, locking a range either succeeds for all of it or changes nothing, a locked range can be
  mapped, and pages go through mapping, invalidation and unmapping without being lost.
\<close>

section \<open>New tables\<close>

definition new_tables :: "'l paging_mode \<Rightarrow> seq_pages \<Rightarrow> 'l table_map" where
  "new_tables pm root = [page_addr_bits (seq_addr root) \<mapsto> (pm_levels pm, 0)]"

definition zero_root :: "'l paging_mode \<Rightarrow> seq_pages \<Rightarrow> mem \<Rightarrow> bool" where
  "zero_root pm root m \<longleftrightarrow> (\<forall>c. in_bytes (page_addr_bits (seq_addr root)) (table_bytes pm (pm_levels pm)) c \<longrightarrow> m c = 0)"

context paging_mode_laws
begin

lemma new_tables_inv:
  assumes "4096 dvd addr_nat (seq_addr root)" and "addr_nat (seq_addr root) + table_bytes pm (pm_levels pm) \<le> 2 ^ 56"
    and zero: "zero_root pm root m"
  shows "pt_inv pm root (new_tables pm root) m" and "pt_view pm m root a = None"
proof -
  let ?T = "new_tables pm root"
  have lv: "pm_levels pm \<noteq> []"
    by (simp add: pm_levels_def)
  have ok: "tables_ok pm root ?T"
    using assms(1,2) lv by (auto simp: tables_ok_def new_tables_def addr_nat_def split: if_splits)
  have z: "m (te_pte r) = 0" if r: "slot_of pm ?T r B" for r B
  proof -
    obtain i where "te_level r # te_below r = pm_levels pm" "i < 2 ^ pm_addr_width pm (te_level r)"
      "te_pte r = page_addr_bits (seq_addr root) + of_nat i * 8"
      using r unfolding slot_of_def new_tables_def by (auto split: if_splits)
    moreover from this have "in_bytes (page_addr_bits (seq_addr root)) (table_bytes pm (pm_levels pm)) (te_pte r)"
      using slot_in_table [OF ok, of _ "te_level r" "te_below r" 0 i] by (simp add: new_tables_def)
    ultimately show ?thesis
      using zero by (simp add: zero_root_def)
  qed
  show inv: "pt_inv pm root ?T m"
    using ok z entry_ok_cell [OF zero_cell_ok] by (simp add: pt_inv_def)
  obtain r where r: "pt_reach pm m root a r"
    using pt_reach_ex [OF inv] by blast
  then show "pt_view pm m root a = None"
    using view_reach [OF r] z [OF pt_reach_slot [OF inv r]] by (simp add: cell_view_def)
qed

lemma page_table_inner_new_Ok:
  assumes "page_table_inner_new pm root = Ok inner"
  shows "inner = root" "seq_page_size root = Size4k"
    "page_addr_bits (seq_addr root) AND (pm_top_level_align pm - 1) = 0"
    "pm_table_pages pm (pm_root_level pm) < 2 ^ 64 \<Longrightarrow> pm_table_pages pm (pm_root_level pm) \<le> unat (seq_count root)"
  using assms by (auto simp: page_table_inner_new_def is_huge_def word_less_nat_alt unat_of_nat split: if_splits)

end


definition example_root :: seq_pages where
  "example_root = \<lparr>seq_addr = PageAddr (raw_supervisor 0x40000000), seq_page_size = Size4k, seq_count = 4,
                   seq_state = StInternalClean\<rparr>"

definition example_guest :: guest_stage_table where
  "example_guest = \<lparr>gst_root = example_root, gst_owner = owner_host\<rparr>"

lemma example_root_ok:
  "page_addr_wf (seq_addr example_root)" "addr_nat (seq_addr example_root) = 0x40000000"
  "zero_root sv48x4 example_root (\<lambda>_. 0)"
  by (simp_all add: example_root_def page_addr_wf_iff raw_supervisor_def zero_root_def)


section \<open>Guest-stage tables\<close>

text \<open>
  C13: walking a well-formed Sv48x4 table is type-safe. For every address the walk returns, without
  panicking, an entry that is not a table entry; the entry's level is one of the four levels, its cell
  belongs to a table of that level, the frame it holds is aligned for the level, and two addresses end
  in the same cell only when they lie in the same page of that level's size.
\<close>

theorem walk_type_safe:
  fixes a b :: "'as raw_addr"
  assumes "pt_inv sv48x4 root T m"
  shows "\<exists>r r'. walk sv48x4 m root a = Ok (entry_from_pte m r) \<and> walk sv48x4 m root b = Ok (entry_from_pte m r')
    \<and> \<not> is_table (m (te_pte r)) \<and> te_level r \<in> set (pm_levels sv48x4)
    \<and> slot_of sv48x4 T r (va_block sv48x4 (te_level r) (raw_bits a))
    \<and> entry_page_addr sv48x4 m r = Ok (pte_page (m (te_pte r)))
    \<and> (te_pte r' = te_pte r
       \<longleftrightarrow> va_block sv48x4 (te_level r) (raw_bits b) = va_block sv48x4 (te_level r) (raw_bits a))"
proof -
  obtain r r' where r: "pt_reach sv48x4 m root (raw_bits a) r" and r': "pt_reach sv48x4 m root (raw_bits b) r'"
    using sv48x4.pt_reach_ex [OF assms] by metis
  have "cell_ok sv48x4 (te_level r) (m (te_pte r))"
    by (rule sv48x4.pt_reach_cell [OF assms r])
  then show ?thesis
    using walk_reach [OF r] walk_reach [OF r'] sv48x4.reach_level [OF assms r] sv48x4.pt_reach_slot [OF assms r]
      sv48x4.pt_reach_block_iff(1) [OF assms r r'] entry_page_addr_cell [of sv48x4 r m]
    by (intro exI [of _ r] exI [of _ r']) (simp add: cell_ok_def)
qed

lemma example_inv: "pt_inv sv48x4 example_root (new_tables sv48x4 example_root) (\<lambda>_. 0)"
  using sv48x4.new_tables_inv(1) [of example_root] example_root_ok
  by (simp add: table_bytes_def pm_levels_def sv48x4_defs page_addr_wf_iff)

theorem walk_type_safe_witness:
  "\<exists>r. walk sv48x4 (\<lambda>_. 0) example_root (RawAddr 0x80001000 (GuestPhys owner_host)) = Ok (entry_from_pte (\<lambda>_. 0) r)"
  using walk_type_safe [OF example_inv] by metis

text \<open>
  C9: locking a range for mapping is all or nothing (\<open>GuestStagePageTable::map_range\<close> with the VM's pool of
  page-table pages). It never panics. On success every address of the range has its own locked entry of the
  4kB level, and no other address is affected; the mapper covers those addresses. On any error, also when the
  pool runs out half way, every lock taken is given back and every address translates as before. The table
  and the pool stay well formed, whatever tables were filled in.
\<close>

theorem guest_map_range_atomic:
  assumes "fill_ok sv48x4 pool_avail pool_ok (gst_root g) T (s, m)" and "page_addr_wf addr"
  shows "case guest_stage_map_range sv48x4 g pte_pool_pop (s, m) addr Size4k n of
      (res, s', m') \<Rightarrow> \<exists>T' as. fill_ok sv48x4 pool_avail pool_ok (gst_root g) T' (s', m') \<and> range_addrs addr n = Ok as
        \<and> (case res of
             Ok mapper \<Rightarrow> mapper = \<lparr>gsm_vaddr = addr, gsm_num_pages = of_nat (length as)\<rparr>
               \<and> distinct (map (page_no sv48x4 \<circ> page_addr_bits) as)
               \<and> (\<forall>a \<in> set as. locked_4k sv48x4 (pt_view sv48x4 m' (gst_root g)) (page_addr_bits a))
               \<and> (\<forall>b. page_no sv48x4 b \<notin> page_no sv48x4 ` page_addr_bits ` set as
                     \<longrightarrow> pt_view sv48x4 m' (gst_root g) b = pt_view sv48x4 m (gst_root g) b)
           | Err e \<Rightarrow> pt_view sv48x4 m' (gst_root g) = pt_view sv48x4 m (gst_root g)
           | Panic \<Rightarrow> False)"
proof -
  obtain res s' m' where res: "guest_stage_map_range sv48x4 g pte_pool_pop (s, m) addr Size4k n = (res, s', m')"
    by (metis prod_cases3)
  obtain T' as where T': "fill_ok sv48x4 pool_avail pool_ok (gst_root g) T' (s', m')" "range_addrs addr n = Ok as"
    and c: "case res of
         Ok mapper \<Rightarrow> mapper = \<lparr>gsm_vaddr = addr, gsm_num_pages = of_nat (length as)\<rparr>
           \<and> lock_steps sv48x4 Size4k (pt_view sv48x4 m (gst_root g)) (map page_addr_bits as) (pt_view sv48x4 m' (gst_root g))
       | Err e \<Rightarrow> pt_view sv48x4 m' (gst_root g) = pt_view sv48x4 m (gst_root g)
       | Panic \<Rightarrow> False"
    using guest_fill.guest_map_range_correct [OF assms res] by blast
  then show ?thesis
    using res sv48x4.lock_steps_4k [of _ "map page_addr_bits as"]
    by (cases res) (auto simp: image_image intro!: exI [of _ T'])
qed

lemma example_fill_ok:
  "fill_ok sv48x4 pool_avail pool_ok (gst_root example_guest) (new_tables sv48x4 example_root)
     ((example_locked_tracker, example_locked_list), \<lambda>_. 0)"
proof -
  have rep: "pl_rep (example_locked_tracker, example_locked_list) [example_frame, example_frame2]"
    using example_locked_tracker_wf example_locked_rep by (simp add: pl_rep_def)
  have "fresh_addr sv48x4 (new_tables sv48x4 example_root) a" if "a \<in> {example_frame, example_frame2}" for a
    using that by (auto simp: fresh_addr_def new_tables_def example_frame_def example_frame2_def raw_supervisor_def
        example_root_def page_addr_bits_def table_bytes_def pm_levels_def sv48x4_defs split: if_splits)
  then show ?thesis
    using example_inv pool_avail_rep [OF rep] rep
    by (auto simp: fill_ok_def example_guest_def pool_ok_def zero_page_def)
qed

definition example_va :: "guest_phys page_addr" where
  "example_va = PageAddr (RawAddr 0x80001000 (GuestPhys owner_host))"

lemma example_va_ok: "page_addr_wf example_va" "addr_nat example_va = 0x80001000"
  by (simp_all add: example_va_def page_addr_wf_iff)

theorem guest_map_range_atomic_witness:
  "case guest_stage_map_range sv48x4 example_guest pte_pool_pop
        ((example_locked_tracker, example_locked_list), \<lambda>_. 0) example_va Size4k 2 of
     (res, s', m') \<Rightarrow> res \<noteq> Panic"
  using guest_map_range_atomic [OF example_fill_ok example_va_ok(1), of 2]
  by (auto split: prod.splits result.splits)



lemma sv48x4_range_ops:
  assumes "pt_inv sv48x4 (gst_root g) T m" and "page_addr_wf vaddr" and "unat (num_4k_pages len) \<le> 2 ^ 38"
  shows "range_outcome sv48x4 (gst_root g) T (accept_leaf sv48x4 pte_mapped False pred) (page_if sv48x4 pte_mapped)
      (inval_chg sv48x4) m vaddr (num_4k_pages len) (invalidate_range sv48x4 g m vaddr len pred)
    \<and> range_outcome sv48x4 (gst_root g) T (accept_leaf sv48x4 pte_invalidated True pred) (page_if sv48x4 pte_invalidated)
      (clear_chg sv48x4 pte_invalidated) m vaddr (num_4k_pages len) (unmap_range sv48x4 g m vaddr len pred)
    \<and> range_outcome sv48x4 (gst_root g) T (accept_leaf sv48x4 pte_invalidated False pred) (page_if sv48x4 pte_invalidated)
      (\<lambda>_ _. None) m vaddr (num_4k_pages len) (get_invalidated_pages sv48x4 g m vaddr len pred)"
proof -
  have top: "pm_top_bits sv48x4 - 12 = 38"
    by (simp add: pm_top_bits_def sv48x4_defs)
  note n = assms(3) [folded top]
  show ?thesis
    unfolding invalidate_range_def do_invalidate_range_def unmap_range_def get_invalidated_pages_def
    by (intro conjI inval.range_op_correct unmap.range_op_correct converted.range_op_correct assms(1,2) n)
qed

text \<open>
  C11: the range operations \<open>invalidate_range\<close> (and its sparse form), \<open>unmap_range\<close>, \<open>get_mapped_pages\<close> and
  \<open>get_invalidated_pages\<close> on ranges of at most the \<open>2 ^ 38\<close> pages that Sv48x4 translates. None of them panics. An error is
  raised because the range overflows the address space, or because one of its addresses has an entry that the
  operation does not accept: not a 4kB leaf that is mapped (invalidated, for the operations on converted pages) with a
  page the predicate accepts, or, where holes are allowed, free. It leaves memory exactly as it was.
  On success every address was accepted and the pages come out in the order of their addresses. Invalidating
  makes exactly those entries invalid, keeping their frames; unmapping clears exactly the invalidated ones; the
  two queries change nothing.
\<close>

theorem guest_range_ops_correct:
  assumes "pt_inv sv48x4 (gst_root g) T m" and "page_addr_wf vaddr" and "unat (num_4k_pages len) \<le> 2 ^ 38"
  shows "range_outcome sv48x4 (gst_root g) T (accept_leaf sv48x4 pte_mapped False pred) (page_if sv48x4 pte_mapped)
      (inval_chg sv48x4) m vaddr (num_4k_pages len) (invalidate_range sv48x4 g m vaddr len pred)
    \<and> range_outcome sv48x4 (gst_root g) T (accept_leaf sv48x4 pte_mapped True pred) (page_if sv48x4 pte_mapped)
      (inval_chg sv48x4) m vaddr (num_4k_pages len) (invalidate_range_sparse sv48x4 g m vaddr len pred)
    \<and> range_outcome sv48x4 (gst_root g) T (accept_leaf sv48x4 pte_invalidated True pred) (page_if sv48x4 pte_invalidated)
      (clear_chg sv48x4 pte_invalidated) m vaddr (num_4k_pages len) (unmap_range sv48x4 g m vaddr len pred)
    \<and> range_outcome sv48x4 (gst_root g) T (accept_leaf sv48x4 pte_mapped False pred) (page_if sv48x4 pte_mapped)
      (\<lambda>_ _. None) m vaddr (num_4k_pages len) (get_mapped_pages sv48x4 g m vaddr len pred)
    \<and> range_outcome sv48x4 (gst_root g) T (accept_leaf sv48x4 pte_invalidated False pred) (page_if sv48x4 pte_invalidated)
      (\<lambda>_ _. None) m vaddr (num_4k_pages len) (get_invalidated_pages sv48x4 g m vaddr len pred)"
proof -
  have n: "unat (num_4k_pages len) \<le> 2 ^ (pm_top_bits sv48x4 - 12)"
    using assms(3) by (simp add: pm_top_bits_def sv48x4_defs)
  then show ?thesis
    using sv48x4_range_ops [OF assms, of pred]
      inval.range_op_correct [OF assms(1,2) n, of True pred] mapped.range_op_correct [OF assms(1,2) n, of pred]
    by (simp add: invalidate_range_sparse_def do_invalidate_range_def get_mapped_pages_def)
qed

theorem guest_range_ops_correct_witness:
  "range_outcome sv48x4 example_root (new_tables sv48x4 example_root) (accept_leaf sv48x4 pte_mapped True (\<lambda>_. True))
     (page_if sv48x4 pte_mapped) (inval_chg sv48x4) (\<lambda>_. 0) example_va 3
     (invalidate_range_sparse sv48x4 example_guest (\<lambda>_. 0) example_va 0x3000 (\<lambda>_. True))"
  using guest_range_ops_correct [of example_guest "new_tables sv48x4 example_root" "\<lambda>_. 0" example_va "0x3000" "\<lambda>_. True"]
    example_inv example_va_ok(1)
  by (simp add: example_guest_def num_4k_pages_def)

lemma yield_each_same: "(\<And>a. snd (f m a) = m) \<Longrightarrow> snd (yield_each f m as) = m"
proof (induction as)
  case (Cons a as)
  obtain res where "f m a = (res, m)"
    using Cons.prems [of a] by (metis prod.collapse)
  then show ?case
    using Cons by (auto split: result.split prod.splits)
qed simp

lemma get_invalidated_pages_same: "snd (get_invalidated_pages pm g m vaddr len pred) = m"
  by (auto simp: get_invalidated_pages_def check_then_yield_def pages_take_def yield_each_same split: result.split)

context paging_mode_laws
begin

lemma all_unused_correct:
  assumes inv: "pt_inv pm root T m"
  shows "all_unused pm m root as = Ok (\<forall>a \<in> set as. pt_view pm m root (page_addr_bits a) = None)"
proof (induction as)
  case (Cons a as)
  obtain r where r: "walk pm m root (page_addr_raw a) = Ok (entry_from_pte m r)"
    "pt_view pm m root (page_addr_bits a) = cell_view (te_level r) (m (te_pte r))"
    using pt_view_cases [OF inv] by metis
  show ?case
  proof (cases "is_unused (m (te_pte r))")
    case True
    then have "entry_from_pte m r = Unused r"
      by (simp add: entry_from_pte_cases)
    then show ?thesis
      using r True Cons by (simp add: cell_view_def)
  next
    case False
    then have "entry_from_pte m r \<noteq> Unused r'" for r'
      by (simp add: entry_from_pte_cases)
    then show ?thesis
      using r False by (auto simp: cell_view_def split: table_entry.splits)
  qed
qed simp

end

lemma view_chg_hit:
  assumes "f a = Some (l, v)" and "a \<in> A" and "chg l v = Some w"
  shows "view_chg pm chg A f a = cell_view l w"
  using assms by (auto simp: view_chg_def)

lemma view_chg_miss:
  assumes "\<And>l v w. chg l v = Some w \<Longrightarrow> l = level_4k pm" and "va_block pm (level_4k pm) = page_no pm"
    and "page_no pm b \<notin> page_no pm ` A"
  shows "view_chg pm chg A f b = f b"
  using assms by (fastforce simp: view_chg_def image_iff split: option.splits)

lemma map_filter_cong: "(\<And>x. x \<in> set xs \<Longrightarrow> f x = g x) \<Longrightarrow> List.map_filter f xs = List.map_filter g xs"
  by (induction xs) (auto simp: map_filter_simps split: option.split)

lemma map_filter_all: "(\<And>x. x \<in> set xs \<Longrightarrow> f x \<noteq> None) \<Longrightarrow> length (List.map_filter f xs) = length xs"
  by (induction xs) (auto simp: map_filter_simps split: option.split)

text \<open>An operation whose range is accepted throughout succeeds.\<close>

lemma range_outcome_Ok:
  assumes "range_outcome pm root T acc out chg m base n r" and "checked_add_pages base n \<noteq> None"
    and "range_addrs base n = Ok as" and "\<And>a. a \<in> set as \<Longrightarrow> acc (pt_view pm m root (page_addr_bits a))"
  obtains m' where "r = (Ok (List.map_filter (\<lambda>a. out (pt_view pm m root (page_addr_bits a))) as), m')"
    "pt_inv pm root T m'" "pt_view pm m' root = view_chg pm chg (page_addr_bits ` set as) (pt_view pm m root)"
  using assms by (cases r; cases "fst r") (auto simp: range_outcome_def)

lemma pte_page_zero: "addr_nat (pte_page v) \<noteq> 0 \<Longrightarrow> pfn_bits (pte_pfn v) \<noteq> 0"
  by (auto simp: pte_page_def raw_supervisor_def)



end
