(* ===== verification/First_Stage.thy ===== *)
theory First_Stage
  imports Page_Table_Properties
begin

text \<open>
  First-stage tables, with the hypervisor's supply of page-table pages (\<open>pte_pages\<close> in \<open>src/hyp_map.rs\<close>, an
  iterator over a run of clean pages).
\<close>

definition hyp_pte_next :: "seq_pages pte_supply" where
  "hyp_pte_next = (\<lambda>(sq, m).
     case (seq_iter_next sq :: (pt_error, (page \<times> seq_pages) option) result) of
       Ok (Some (p, sq')) \<Rightarrow> (Some p, sq', m)
     | _ \<Rightarrow> (None, sq, m))"

definition seq_avail :: "seq_pages \<Rightarrow> supervisor_page_addr set" where
  "seq_avail sq = {a. page_addr_wf a \<and> addr_nat (seq_addr sq) \<le> addr_nat a
                      \<and> addr_nat a < addr_nat (seq_addr sq) + 4096 * unat (seq_count sq)}"

definition seq_ok :: "seq_pages \<Rightarrow> mem \<Rightarrow> bool" where
  "seq_ok sq m \<longleftrightarrow> seq_page_size sq = Size4k \<and> page_addr_wf (seq_addr sq)
     \<and> addr_nat (seq_addr sq) + 4096 * unat (seq_count sq) < 2 ^ 64 \<and> (\<forall>a \<in> seq_avail sq. zero_page m a)"

lemma hyp_pte_next_some:
  assumes ok: "seq_ok sq m" and c: "seq_count sq \<noteq> 0"
  obtains b where "hyp_pte_next (sq, m) = (Some \<lparr>page_base = seq_addr sq, page_len = Size4k, page_typestate = seq_state sq\<rparr>,
      sq\<lparr>seq_addr := b, seq_count := seq_count sq - 1\<rparr>, m)"
    "addr_nat b = addr_nat (seq_addr sq) + 4096" "page_addr_wf b" "unat (seq_count sq) = Suc (unat (seq_count sq - 1))"
proof -
  have n: "unat (seq_count sq) = Suc (unat (seq_count sq - 1))"
    using c unat_sub [of 1 "seq_count sq"] by (simp add: word_le_nat_alt unat_gt_0 Suc_le_eq)
  have al: "page_addr_is_aligned (seq_addr sq) Size4k"
    using ok by (simp add: seq_ok_def page_addr_wf_def)
  have "addr_nat (seq_addr sq) + unat (1 :: u64) * bytes_nat Size4k < 2 ^ 64"
    using ok n by (simp add: seq_ok_def)
  then obtain b where b: "checked_add_pages_with_size (seq_addr sq) 1 Size4k = Some b"
    "addr_nat b = addr_nat (seq_addr sq) + unat (1 :: u64) * bytes_nat Size4k" "page_addr_is_aligned b Size4k"
    using checked_add_pages_with_size_fits [OF al] by blast
  then have "hyp_pte_next (sq, m) = (Some \<lparr>page_base = seq_addr sq, page_len = Size4k, page_typestate = seq_state sq\<rparr>,
      sq\<lparr>seq_addr := b, seq_count := seq_count sq - 1\<rparr>, m)"
    using c ok al by (simp add: hyp_pte_next_def seq_iter_next_def seq_ok_def page_new_with_size_def)
  then show thesis
    using that b n by (simp add: page_addr_wf_def)
qed

interpretation hyp_pte: pte_source hyp_pte_next seq_avail seq_ok
proof
  fix s m p s' m'
  assume ok: "seq_ok s m" and g: "hyp_pte_next (s, m) = (Some p, s', m')"
  have c: "seq_count s \<noteq> 0"
    using g by (auto simp: hyp_pte_next_def seq_iter_next_def)
  obtain b where b: "hyp_pte_next (s, m) = (Some \<lparr>page_base = seq_addr s, page_len = Size4k, page_typestate = seq_state s\<rparr>,
      s\<lparr>seq_addr := b, seq_count := seq_count s - 1\<rparr>, m)"
    "addr_nat b = addr_nat (seq_addr s) + 4096" "page_addr_wf b" "unat (seq_count s) = Suc (unat (seq_count s - 1))"
    using hyp_pte_next_some [OF ok c] by metis
  then have s': "s' = s\<lparr>seq_addr := b, seq_count := seq_count s - 1\<rparr>" "page_base p = seq_addr s" "m' = m"
    using g by auto
  have "seq_addr s \<in> seq_avail s"
    using ok b(4) by (auto simp: seq_avail_def seq_ok_def)
  moreover have sub: "seq_avail s' \<subseteq> seq_avail s - {seq_addr s}"
    using s' b by (auto simp: seq_avail_def)
  ultimately show "page_base p \<in> seq_avail s \<and> seq_avail s' \<subseteq> seq_avail s - {page_base p}
      \<and> zero_page m' (page_base p) \<and> seq_ok s' m'
      \<and> (\<forall>c. \<not> in_bytes (page_addr_bits (page_base p)) 4096 c \<longrightarrow> m' c = m c)"
    using ok s' b by (auto simp: seq_ok_def)
next
  fix s m s' m'
  assume ok: "seq_ok s m" and g: "hyp_pte_next (s, m) = (None, s', m')"
  have "seq_count s = 0"
    using hyp_pte_next_some [OF ok] g by (metis option.distinct(1) prod.inject)
  then show "m' = m \<and> seq_avail s' \<subseteq> seq_avail s \<and> seq_ok s' m"
    using g ok by (auto simp: hyp_pte_next_def seq_iter_next_def)
next
  fix s m m'
  assume "seq_ok s m"
    and "\<And>a c. a \<in> seq_avail s \<Longrightarrow> in_bytes (page_addr_bits a) 4096 c \<Longrightarrow> m' c = m c"
  then show "seq_ok s m'"
    by (simp add: seq_ok_def zero_page_def)
qed

interpretation hyp_fill: table_fill sv48 hyp_pte_next seq_avail seq_ok ..

lemma sv48_page_sizes: "page_size \<in> pm_leaf_page_size sv48 ` set (pm_levels sv48)"
  by (cases page_size) (auto simp: pm_levels_def sv48_defs)

lemma iter_new_aligned:
  "page_addr_is_aligned a s \<Longrightarrow> page_addr_iter_new a s = Some \<lparr>iter_next = Some a, iter_increment = s\<rparr>"
  by (cases a) (simp add: page_addr_iter_new_def page_addr_with_alignment_def page_addr_is_aligned_def page_addr_bits_def)

text \<open>
  C15: \<open>FirstStagePageTable::map_range\<close> with the hypervisor's run of page-table pages. A misaligned address and a
  range that leaves the 64-bit address space are refused with nothing changed. Otherwise it never panics; on success
  each of the \<open>n\<close> addresses has its own locked entry of the level of the page size and the mapper covers exactly
  them. On an error only a proper prefix of the range has been locked, and it stays locked. In every case the
  table and the supply stay well formed.
\<close>

theorem first_stage_map_range_locks:
  fixes addr :: "'as page_addr"
  assumes "fill_ok sv48 seq_avail seq_ok root T (s, m)"
  shows "case first_stage_map_range sv48 root hyp_pte_next (s, m) addr page_size n of
      (res, s', m') \<Rightarrow>
        if \<not> page_addr_is_aligned addr page_size
        then res = Err (AddressMisaligned (page_addr_bits addr)) \<and> (s', m') = (s, m)
        else if 2 ^ 64 \<le> addr_nat addr + unat n * bytes_nat page_size
        then res = Err OutOfMapRange \<and> (s', m') = (s, m)
        else \<exists>T' (as :: 'as page_addr list) j. fill_ok sv48 seq_avail seq_ok root T' (s', m')
          \<and> map addr_nat as = map (\<lambda>i. addr_nat addr + i * bytes_nat page_size) [0..<unat n]
          \<and> lock_steps sv48 page_size (pt_view sv48 m root) (map page_addr_bits (take j as)) (pt_view sv48 m' root)
          \<and> (case res of
               Ok mapper \<Rightarrow> j = unat n \<and> mapper = \<lparr>fsm_vaddr = addr, fsm_page_size = page_size, fsm_num_pages = n\<rparr>
             | Err e \<Rightarrow> j < unat n
             | Panic \<Rightarrow> False)"
proof (cases "page_addr_is_aligned addr page_size \<and> addr_nat addr + unat n * bytes_nat page_size < 2 ^ 64")
  case True
  let ?it = "\<lparr>iter_next = Some addr, iter_increment = page_size\<rparr>"
  let ?as = "page_addr_iter_take (unat n) ?it"
  have none: "checked_add_pages_with_size addr n page_size \<noteq> None"
    using True by (simp add: checked_add_pages_with_size_None del: checked_add_pages_with_size_Some)
  have "unat n * bytes_nat page_size \<le> 2 ^ 64 - addr_nat addr"
    using True by linarith
  then have "unat n \<le> (2 ^ 64 - addr_nat addr) div bytes_nat page_size"
    by (simp add: less_eq_div_iff_mult_less_eq)
  then have as: "map addr_nat ?as = map (\<lambda>i. addr_nat addr + i * bytes_nat page_size) [0..<unat n]"
    using iter_take_addr_nat [of addr page_size "unat n"] True by (simp add: min_absorb1)
  have len: "length ?as = unat n"
    using arg_cong [OF as, of length] by simp
  obtain res k s' m' where l: "lock_loop sv48 root hyp_pte_next (s, m) page_size 0 ?as = (res, k, s', m')"
    by (metis prod_cases4)
  obtain T' j where T': "fill_ok sv48 seq_avail seq_ok root T' (s', m')"
    "lock_steps sv48 page_size (pt_view sv48 m root) (map page_addr_bits (take j ?as)) (pt_view sv48 m' root)"
    "case res of Ok _ \<Rightarrow> j = length ?as | Err e \<Rightarrow> j < length ?as | Panic \<Rightarrow> False"
    using hyp_fill.lock_loop_correct [OF sv48_page_sizes assms l] by blast
  have eq: "first_stage_map_range sv48 root hyp_pte_next (s, m) addr page_size n
      = (case res of Ok _ \<Rightarrow> Ok \<lparr>fsm_vaddr = addr, fsm_page_size = page_size, fsm_num_pages = n\<rparr>
         | Err e \<Rightarrow> Err e | Panic \<Rightarrow> Panic, s', m')"
    using True none l by (cases res) (auto simp: first_stage_map_range_def iter_new_aligned)
  have "\<exists>T' (as :: 'as page_addr list) j. fill_ok sv48 seq_avail seq_ok root T' (s', m')
      \<and> map addr_nat as = map (\<lambda>i. addr_nat addr + i * bytes_nat page_size) [0..<unat n]
      \<and> lock_steps sv48 page_size (pt_view sv48 m root) (map page_addr_bits (take j as)) (pt_view sv48 m' root)
      \<and> (case res of Ok _ \<Rightarrow> j = unat n | Err e \<Rightarrow> j < unat n | Panic \<Rightarrow> False)"
    using T' as by (intro exI [of _ T'] exI [of _ ?as] exI [of _ j]) (cases res; simp add: len)
  then show ?thesis
    unfolding eq using True by (cases res) auto
next
  case False
  then show ?thesis
    by (auto simp: first_stage_map_range_def iter_new_aligned checked_add_pages_with_size_None)
qed

definition hyp_example_root :: seq_pages where
  "hyp_example_root = \<lparr>seq_addr = PageAddr (raw_supervisor 0x40000000), seq_page_size = Size4k, seq_count = 1,
                       seq_state = StInternalClean\<rparr>"

definition hyp_example_pages :: seq_pages where
  "hyp_example_pages = \<lparr>seq_addr = PageAddr (raw_supervisor 0x80000000), seq_page_size = Size4k, seq_count = 3,
                        seq_state = StInternalClean\<rparr>"

definition hyp_example_va :: "supervisor_virt page_addr" where
  "hyp_example_va = PageAddr (raw_supervisor_virt 0x1ff000)"

lemma hyp_example_fill_ok:
  "fill_ok sv48 seq_avail seq_ok hyp_example_root (new_tables sv48 hyp_example_root) (hyp_example_pages, \<lambda>_. 0)"
proof -
  have "pt_inv sv48 hyp_example_root (new_tables sv48 hyp_example_root) (\<lambda>_. 0)"
    using sv48.new_tables_inv(1) [of hyp_example_root "\<lambda>_. 0"]
    by (simp add: hyp_example_root_def raw_supervisor_def zero_root_def table_bytes_def pm_levels_def sv48_defs)
  moreover have "fresh_addr sv48 (new_tables sv48 hyp_example_root) a" if "a \<in> seq_avail hyp_example_pages" for a
    using that by (auto simp: fresh_addr_def new_tables_def hyp_example_pages_def raw_supervisor_def seq_avail_def addr_nat_def page_addr_wf_iff
        hyp_example_root_def page_addr_bits_def table_bytes_def pm_levels_def sv48_defs split: if_splits)
  ultimately show ?thesis
    by (auto simp: fill_ok_def seq_ok_def zero_page_def hyp_example_pages_def raw_supervisor_def page_addr_wf_iff)
qed

theorem first_stage_map_range_locks_witness:
  "case first_stage_map_range sv48 hyp_example_root hyp_pte_next (hyp_example_pages, \<lambda>_. 0) hyp_example_va Size4k 2 of
     (res, s', m') \<Rightarrow> res \<noteq> Panic"
  using first_stage_map_range_locks [OF hyp_example_fill_ok, of hyp_example_va Size4k 2]
  by (auto split: prod.splits result.splits if_splits)

text \<open>
  The prefix really stays locked: with three page-table pages the first of two addresses that lie in different
  last-level tables is locked, the second finds the supply empty, and the first is still locked afterwards.
\<close>

lemma hyp_pte_next_apply:
  "hyp_pte_next (sq, m) = (case (seq_iter_next sq :: (pt_error, (page \<times> seq_pages) option) result) of
     Ok (Some (p, sq')) \<Rightarrow> (Some p, sq', m) | _ \<Rightarrow> (None, sq, m))"
  by (simp add: hyp_pte_next_def)

lemma sv48_select:
  "pm_leaf_page_size sv48 = sv48_leaf_page_size" "pm_next sv48 = sv48_next" "pm_addr_shift sv48 = sv48_addr_shift"
  "pm_addr_width sv48 l = sv48_addr_width l" "pm_table_pages sv48 l = sv48_table_pages l" "pm_is_leaf sv48 l = sv48_is_leaf l"
  "pm_root_level sv48 = L4" "pm_below_root sv48 = [L3, L2, L1]"
  by (simp_all add: sv48_def)

lemmas table_eval = sv48_select sv48_addr_width_def sv48_table_pages_def sv48_is_leaf_def next_level_or_fill_fn_def entry_for_addr_mut_def entry_for_index_mut_def entry_from_pte_def Let_def
  page_table_from_root_def raw_supervisor_def raw_supervisor_virt_def
  table_index_from_addr_def entry_mut_def page_addr_bits_def pte_valid_bit pte_locked_bit pte_leaf_bit pte_pfn_def pfn_supervisor_def
  hyp_pte_next_apply seq_iter_next_def checked_add_pages_with_size_def checked_mul_def raw_checked_increment_def
  checked_add_def page_addr_with_alignment_def page_size_is_aligned_iff page_new_with_size_def page_addr_is_aligned_iff
  unused_map_table_def pte_write_def pte_set_def PTE_PFN_SHIFT_def PTE_PFN_MASK_def PTE_PFN_BITS_def PFN_SHIFT_def
  PFN_MASK_def PFN_BITS_def page_addr_pfn_def non_leaf_def pte_bit_mask_def entry_table_def page_table_from_pte_def
  page_addr_from_pfn_def entry_lock_def pte_lock_def

lemma iter_take_two: "page_addr_iter_take 2 it = page_addr_iter_take (Suc (Suc 0)) it"
  by (simp add: numeral_2_eq_2)

definition hyp_example_after :: mem where
  "hyp_example_after = (\<lambda>_. 0)(0x40000000 := 0x20000001, 0x80000000 := 0x20000401, 0x80001000 := 0x20000801,
                               0x80002ff8 := 0x100)"

lemma first_stage_map_range_leaks_lock:
  "first_stage_map_range sv48 hyp_example_root hyp_pte_next (hyp_example_pages, \<lambda>_. 0) hyp_example_va Size4k 2
     = (Err InsufficientPtePages, hyp_example_pages\<lparr>seq_addr := PageAddr (raw_supervisor 0x80003000), seq_count := 0\<rparr>,
        hyp_example_after)"
  by (simp add: table_eval hyp_example_root_def hyp_example_va_def hyp_example_pages_def first_stage_map_range_def
      page_addr_iter_new_def iter_take_two page_addr_iter_step_def lock_leaf_for_mapping_def hyp_example_after_def
      fill_to_level.simps [of sv48 hyp_pte_next])

lemma leaked_lock_walk:
  "walk sv48 hyp_example_after hyp_example_root (page_addr_raw hyp_example_va)
     = Ok (LockedUnmapped \<lparr>te_pte = 0x80002ff8, te_level = L1, te_below = []\<rparr>)"
  by (simp add: table_eval hyp_example_root_def hyp_example_va_def hyp_example_after_def walk_def
      walk_loop.simps [of sv48])

end
