(* ===== verification/Imsic_Geometry.thy ===== *)
theory Imsic_Geometry
  imports Riscv_Pages
begin

text \<open>
  The layout of the interrupt files (\<open>drivers/src/imsic/geometry.rs\<close>): locations of an interrupt
  file, the geometry that places them in an address space, the translation between locations and
  addresses, and the iterator over the address ranges of the groups. Widths are \<open>u32\<close>; their sums
  wrap and a shift uses the low six bits of its amount, as the compiled code does.
\<close>

section \<open>Locations\<close>

datatype imsic_group_id = ImsicGroupId (group_id_bits: u64)

datatype imsic_hart_id = ImsicHartId (hart_id_bits: u64)

datatype imsic_file_id = Supervisor | Guest u32

definition file_id_from_index :: "u32 \<Rightarrow> imsic_file_id" where
  "file_id_from_index index = (if index = 0 then Supervisor else Guest (index - 1))"

fun file_id_bits :: "imsic_file_id \<Rightarrow> u32" where
  "file_id_bits Supervisor = 0"
| "file_id_bits (Guest g) = g + 1"

record imsic_location =
  loc_group :: imsic_group_id
  loc_hart :: imsic_hart_id
  loc_file :: imsic_file_id

section \<open>Geometries\<close>

datatype imsic_error =
    InvalidGuestsPerHart u64 | InvalidGroupIndexShift u32 | InvalidAddressPattern u64

record 'as imsic_geometry =
  geo_base_addr :: "'as page_addr"
  group_index_bits :: u32
  group_index_shift :: u32
  hart_index_bits :: u32
  guest_index_bits :: u32
  guests_per_hart :: u64

definition GUEST_INDEX_SHIFT :: u32 where "GUEST_INDEX_SHIFT = 12"

definition MIN_GROUP_INDEX_SHIFT :: u32 where "MIN_GROUP_INDEX_SHIFT = 24"

definition shl :: "u64 \<Rightarrow> u32 \<Rightarrow> u64" where
  "shl x n = push_bit (unat n mod 64) x"

definition shr :: "u64 \<Rightarrow> u32 \<Rightarrow> u64" where
  "shr x n = drop_bit (unat n mod 64) x"

definition gen_mask :: "u32 \<Rightarrow> u32 \<Rightarrow> u64" where
  "gen_mask num_bits shift = shl (shl 1 num_bits - 1) shift"

definition extract_field :: "u64 \<Rightarrow> u32 \<Rightarrow> u32 \<Rightarrow> u64" where
  "extract_field val num_bits shift = shr val shift AND (shl 1 num_bits - 1)"

definition index_bits :: "'as imsic_geometry \<Rightarrow> u32" where
  "index_bits geo = group_index_bits geo + hart_index_bits geo + guest_index_bits geo"

definition index_mask :: "'as imsic_geometry \<Rightarrow> u64" where
  "index_mask geo =
     (let hart_mask = gen_mask (hart_index_bits geo + guest_index_bits geo) GUEST_INDEX_SHIFT;
          group_mask = gen_mask (group_index_bits geo) (group_index_shift geo)
      in hart_mask OR group_mask)"

definition imsic_geometry_new ::
    "'as page_addr \<Rightarrow> u32 \<Rightarrow> u32 \<Rightarrow> u32 \<Rightarrow> u32 \<Rightarrow> u64 \<Rightarrow> (imsic_error, 'as imsic_geometry) result" where
  "imsic_geometry_new base group_bits group_shift hart_bits guest_bits guests =
     (if shl 1 guest_bits \<le> guests then Err (InvalidGuestsPerHart guests)
      else if 64 \<le> group_shift + group_bits \<or> group_shift < MIN_GROUP_INDEX_SHIFT
              \<or> group_shift < GUEST_INDEX_SHIFT + hart_bits + guest_bits
      then Err (InvalidGroupIndexShift group_shift)
      else let geo = \<lparr>geo_base_addr = base, group_index_bits = group_bits, group_index_shift = group_shift,
                      hart_index_bits = hart_bits, guest_index_bits = guest_bits, guests_per_hart = guests\<rparr>
           in if page_addr_bits base AND index_mask geo \<noteq> 0
              then Err (InvalidAddressPattern (page_addr_bits base)) else Ok geo)"

definition location_is_valid :: "'as imsic_geometry \<Rightarrow> imsic_location \<Rightarrow> bool" where
  "location_is_valid geo loc \<longleftrightarrow>
     group_id_bits (loc_group loc) < shl 1 (group_index_bits geo)
   \<and> hart_id_bits (loc_hart loc) < shl 1 (hart_index_bits geo)
   \<and> ucast (file_id_bits (loc_file loc)) \<le> guests_per_hart geo"

definition location_to_addr :: "'as imsic_geometry \<Rightarrow> imsic_location \<Rightarrow> 'as page_addr option" where
  "location_to_addr geo loc =
     (if \<not> location_is_valid geo loc then None
      else let num_pages = ucast (file_id_bits (loc_file loc))
                 OR shl (hart_id_bits (loc_hart loc)) (guest_index_bits geo)
                 OR shl (group_id_bits (loc_group loc)) (group_index_shift geo - GUEST_INDEX_SHIFT)
           in checked_add_pages (geo_base_addr geo) num_pages)"

definition addr_to_location :: "'as imsic_geometry \<Rightarrow> 'as page_addr \<Rightarrow> imsic_location option" where
  "addr_to_location geo addr =
     (if page_addr_bits addr AND NOT (index_mask geo) \<noteq> page_addr_bits (geo_base_addr geo) then None
      else let group = extract_field (page_addr_bits addr) (group_index_bits geo) (group_index_shift geo);
               hart = extract_field (page_addr_bits addr) (hart_index_bits geo) (guest_index_bits geo + GUEST_INDEX_SHIFT);
               file = ucast (extract_field (page_addr_bits addr) (guest_index_bits geo) GUEST_INDEX_SHIFT) :: u32
           in if guests_per_hart geo < ucast file then None
              else Some \<lparr>loc_group = ImsicGroupId group, loc_hart = ImsicHartId hart,
                         loc_file = file_id_from_index file\<rparr>)"

section \<open>The address ranges of the groups\<close>

record 'as group_range_iter =
  gri_base_addr :: "'as page_addr"
  gri_group_index_shift :: u32
  gri_index :: u64
  gri_total :: u64
  gri_group_pages :: u64

definition group_ranges :: "'as imsic_geometry \<Rightarrow> 'as group_range_iter" where
  "group_ranges geo =
     \<lparr>gri_base_addr = geo_base_addr geo, gri_group_index_shift = group_index_shift geo, gri_index = 0,
      gri_total = shl 1 (group_index_bits geo),
      gri_group_pages = shl 1 (hart_index_bits geo + guest_index_bits geo)\<rparr>"

definition group_range_next ::
    "'as group_range_iter \<Rightarrow> 'as page_addr_range option \<times> 'as group_range_iter" where
  "group_range_next it =
     (if gri_total it \<le> gri_index it then (None, it)
      else (case checked_add_pages (gri_base_addr it)
                   (shl (gri_index it) (gri_group_index_shift it - GUEST_INDEX_SHIFT)) of
              None \<Rightarrow> (None, it)
            | Some base \<Rightarrow> (Some (page_addr_range_new base (gri_group_pages it)),
                            it\<lparr>gri_index := gri_index it + 1\<rparr>)))"

definition group_range_len :: "'as group_range_iter \<Rightarrow> u64" where
  "group_range_len it = gri_total it - gri_index it"

lemma group_range_next_less:
  "group_range_next it = (Some r, it') \<Longrightarrow>
   unat (gri_total it' - gri_index it') < unat (gri_total it - gri_index it)"
proof -
  assume "group_range_next it = (Some r, it')"
  then have lt: "gri_index it < gri_total it" and it': "it' = it\<lparr>gri_index := gri_index it + 1\<rparr>"
    by (auto simp: group_range_next_def not_le split: if_splits option.splits)
  have n: "unat (gri_index it + 1) = unat (gri_index it) + 1"
    using unat_add_u64 [of "gri_index it" 1] lt unat_u64_less [of "gri_total it"] by (simp add: word_less_nat_alt)
  have le: "gri_index it + 1 \<le> gri_total it"
    using lt n by (simp add: word_le_nat_alt word_less_nat_alt)
  show ?thesis
    using unat_sub_u64 [OF le] unat_sub_u64 [of "gri_index it" "gri_total it"] lt n
    by (simp add: it' word_less_nat_alt word_le_nat_alt)
qed

function group_range_list :: "'as group_range_iter \<Rightarrow> 'as page_addr_range list" where
  "group_range_list it =
     (case group_range_next it of
        (None, _) \<Rightarrow> []
      | (Some r, it') \<Rightarrow> r # group_range_list it')"
  by pat_completeness auto
termination
  by (relation "measure (\<lambda>it. unat (gri_total it - gri_index it))")
     (auto intro: group_range_next_less sym)

declare group_range_list.simps [simp del]

section \<open>Well-formed geometries\<close>

text \<open>The checks of the constructor on widths as natural numbers.\<close>

definition geometry_wf :: "'as imsic_geometry \<Rightarrow> bool" where
  "geometry_wf geo \<longleftrightarrow>
     unat (group_index_shift geo) + unat (group_index_bits geo) < 64
   \<and> 24 \<le> unat (group_index_shift geo)
   \<and> 12 + unat (hart_index_bits geo) + unat (guest_index_bits geo) \<le> unat (group_index_shift geo)
   \<and> unat (guests_per_hart geo) < 2 ^ unat (guest_index_bits geo)
   \<and> page_addr_bits (geo_base_addr geo) AND index_mask geo = 0
   \<and> page_addr_wf (geo_base_addr geo)"

lemma unat_add_u32: "unat a + unat b < 2 ^ 32 \<Longrightarrow> unat ((a :: u32) + b) = unat a + unat b"
  by (simp add: unat_word_ariths)

lemma shl_1: "unat n < 64 \<Longrightarrow> unat (shl 1 n) = 2 ^ unat n"
proof -
  assume n: "unat n < 64"
  have "(2 :: nat) ^ unat n < 2 ^ 64"
    using n by (rule power_strict_increasing) simp
  then have "unat (word_of_nat (2 ^ unat n) :: u64) = 2 ^ unat n"
    by (rule unat_of_nat_u64)
  then show ?thesis
    using n by (simp add: shl_def push_bit_eq_mult)
qed

lemma less_shl_1: "unat n < 64 \<Longrightarrow> x < shl 1 n \<longleftrightarrow> unat x < 2 ^ unat n"
  by (simp add: word_less_nat_alt shl_1)

lemma shl_1_minus_1: "unat n < 64 \<Longrightarrow> shl 1 n - 1 = mask (unat n)"
  by (simp add: shl_def mask_eq_exp_minus_1 push_bit_eq_mult)

lemma extract_field_eq: "unat n < 64 \<Longrightarrow> unat s < 64 \<Longrightarrow> extract_field v n s = take_bit (unat n) (drop_bit (unat s) v)"
  by (simp add: extract_field_def shl_1_minus_1 shr_def take_bit_eq_mask)

lemma geometry_new_wf:
  assumes "imsic_geometry_new base gb gs hb ub guests = Ok geo"
    and "unat gb < 64" and "unat gs < 64" and "unat hb < 64" and "unat ub < 64" and "page_addr_wf base"
  shows "geometry_wf geo \<and> geo = \<lparr>geo_base_addr = base, group_index_bits = gb, group_index_shift = gs,
    hart_index_bits = hb, guest_index_bits = ub, guests_per_hart = guests\<rparr>"
proof -
  have u: "unat (gs + gb) = unat gs + unat gb" "unat (12 + hb + ub) = 12 + unat hb + unat ub"
    using assms(2-5) by (simp_all add: unat_add_u32)
  show ?thesis
    using assms u shl_1 [of ub] unfolding imsic_geometry_new_def geometry_wf_def
    by (auto simp: Let_def not_le MIN_GROUP_INDEX_SHIFT_def GUEST_INDEX_SHIFT_def word_less_nat_alt
        word_le_nat_alt split: if_splits)
qed

lemma geometry_widths:
  assumes "geometry_wf geo"
  shows "unat (group_index_bits geo) < 40" "unat (group_index_shift geo) < 64" "unat (hart_index_bits geo) \<le> 51"
    "unat (guest_index_bits geo) \<le> 51" "unat (hart_index_bits geo + guest_index_bits geo)
      = unat (hart_index_bits geo) + unat (guest_index_bits geo)"
    "unat (guest_index_bits geo + GUEST_INDEX_SHIFT) = unat (guest_index_bits geo) + 12"
    "unat (group_index_shift geo - GUEST_INDEX_SHIFT) = unat (group_index_shift geo) - 12"
  using assms
  by (auto simp: geometry_wf_def unat_add_u32 GUEST_INDEX_SHIFT_def unat_sub word_le_nat_alt)

lemma gen_mask_eq: "unat n < 64 \<Longrightarrow> unat s < 64 \<Longrightarrow> gen_mask n s = push_bit (unat s) (mask (unat n))"
  by (simp add: gen_mask_def shl_1_minus_1) (simp add: shl_def)

lemma bit_index_mask:
  assumes "geometry_wf geo"
  shows "bit (index_mask geo) i \<longleftrightarrow>
     12 \<le> i \<and> i < 12 + unat (hart_index_bits geo) + unat (guest_index_bits geo)
   \<or> unat (group_index_shift geo) \<le> i \<and> i < unat (group_index_shift geo) + unat (group_index_bits geo)"
proof -
  note w = geometry_widths [OF assms]
  have s: "unat (group_index_shift geo) + unat (group_index_bits geo) < 64"
    "12 + unat (hart_index_bits geo) + unat (guest_index_bits geo) \<le> unat (group_index_shift geo)"
    using assms by (simp_all add: geometry_wf_def)
  have "index_mask geo = push_bit 12 (mask (unat (hart_index_bits geo) + unat (guest_index_bits geo)))
      OR push_bit (unat (group_index_shift geo)) (mask (unat (group_index_bits geo)))"
    using w s by (simp add: index_mask_def Let_def gen_mask_eq GUEST_INDEX_SHIFT_def)
  then show ?thesis
    using s by (auto simp: bit_simps)
qed

section \<open>Locations and addresses\<close>

text \<open>The page offset of a location, and how its bits lie.\<close>

definition location_pages :: "'as imsic_geometry \<Rightarrow> imsic_location \<Rightarrow> u64" where
  "location_pages geo loc =
     ucast (file_id_bits (loc_file loc)) OR push_bit (unat (guest_index_bits geo)) (hart_id_bits (loc_hart loc))
     OR push_bit (unat (group_index_shift geo) - 12) (group_id_bits (loc_group loc))"

lemma unat_less_bit: "unat (x :: u64) < 2 ^ n \<Longrightarrow> bit x i \<Longrightarrow> i < n"
proof (rule ccontr)
  assume lt: "unat x < 2 ^ n" and b: "bit x i" and "\<not> i < n"
  have "bit (unat x) i"
    using b by (simp add: bit_unsigned_iff)
  moreover have "take_bit n (unat x) = unat x"
    using lt by (simp add: take_bit_nat_eq_self_iff)
  ultimately show False
    using \<open>\<not> i < n\<close> by (metis bit_take_bit_iff)
qed

lemma location_valid_bits:
  assumes wf: "geometry_wf geo" and v: "location_is_valid geo loc"
  shows "bit (group_id_bits (loc_group loc)) i \<Longrightarrow> i < unat (group_index_bits geo)"
    "bit (hart_id_bits (loc_hart loc)) i \<Longrightarrow> i < unat (hart_index_bits geo)"
    "bit (ucast (file_id_bits (loc_file loc)) :: u64) i \<Longrightarrow> i < unat (guest_index_bits geo)"
proof -
  note w = geometry_widths [OF wf]
  have "unat (group_id_bits (loc_group loc)) < 2 ^ unat (group_index_bits geo)"
    "unat (hart_id_bits (loc_hart loc)) < 2 ^ unat (hart_index_bits geo)"
    using v w by (simp_all add: location_is_valid_def less_shl_1)
  moreover have "unat (ucast (file_id_bits (loc_file loc)) :: u64) < 2 ^ unat (guest_index_bits geo)"
    using v wf unfolding location_is_valid_def geometry_wf_def word_le_nat_alt by linarith
  ultimately show "bit (group_id_bits (loc_group loc)) i \<Longrightarrow> i < unat (group_index_bits geo)"
    "bit (hart_id_bits (loc_hart loc)) i \<Longrightarrow> i < unat (hart_index_bits geo)"
    "bit (ucast (file_id_bits (loc_file loc)) :: u64) i \<Longrightarrow> i < unat (guest_index_bits geo)"
    by (metis unat_less_bit)+
qed

lemma bit_location_pages:
  assumes "i < 64"
  shows "bit (location_pages geo loc) i \<longleftrightarrow>
     bit (ucast (file_id_bits (loc_file loc)) :: u64) i
   \<or> unat (guest_index_bits geo) \<le> i \<and> bit (hart_id_bits (loc_hart loc)) (i - unat (guest_index_bits geo))
   \<or> unat (group_index_shift geo) - 12 \<le> i
     \<and> bit (group_id_bits (loc_group loc)) (i - (unat (group_index_shift geo) - 12))"
  using assms unfolding location_pages_def bit_or_iff bit_push_bit_iff by (auto simp: bit_simps)

lemma location_pages_mask:
  assumes wf: "geometry_wf geo" and v: "location_is_valid geo loc"
  shows "bit (location_pages geo loc) i \<Longrightarrow> i < 52 \<and> bit (index_mask geo) (i + 12)"
proof -
  assume b: "bit (location_pages geo loc) i"
  then have "i < 64"
    by (rule bit_imp_le_length [THEN order.strict_trans2]) simp
  then consider "bit (ucast (file_id_bits (loc_file loc)) :: u64) i"
    | "unat (guest_index_bits geo) \<le> i" "bit (hart_id_bits (loc_hart loc)) (i - unat (guest_index_bits geo))"
    | "unat (group_index_shift geo) - 12 \<le> i"
      "bit (group_id_bits (loc_group loc)) (i - (unat (group_index_shift geo) - 12))"
    using b bit_location_pages by blast
  then have "i < unat (hart_index_bits geo) + unat (guest_index_bits geo)
      \<or> unat (group_index_shift geo) - 12 \<le> i \<and> i < unat (group_index_shift geo) - 12 + unat (group_index_bits geo)"
    by cases (auto dest!: location_valid_bits [OF wf v])
  then show ?thesis
    using wf unfolding bit_index_mask [OF wf] geometry_wf_def by linarith
qed

lemma unat_or_disjoint:
  assumes "(a :: u64) AND b = 0"
  shows "unat a + unat b = unat (a OR b)"
proof -
  have "unat a AND unat b = 0"
    using arg_cong [OF assms, of unat] by (simp only: unsigned_and_eq unsigned_0)
  then have "unat a + unat b = unat a OR unat b"
    by (rule disjunctive_add_eq_or)
  then show ?thesis
    by (simp only: unsigned_or_eq)
qed

lemma unat_push_bit_12: "unat (x :: u64) < 2 ^ 52 \<Longrightarrow> unat (push_bit 12 x) = unat x * 4096"
proof -
  assume "unat x < 2 ^ 52"
  then have "unat x * unat (4096 :: u64) < 2 ^ 64"
    by simp
  then have "unat (x * 4096) = unat x * 4096"
    using unat_mult_u64 [of x 4096] by simp
  then show ?thesis
    by (simp add: push_bit_eq_mult)
qed

lemma base_disjoint:
  assumes "geometry_wf geo" and "location_is_valid geo loc"
  shows "page_addr_bits (geo_base_addr geo) AND push_bit 12 (location_pages geo loc) = 0"
proof (rule bit_eqI)
  fix i
  have "\<not> (bit (page_addr_bits (geo_base_addr geo)) i \<and> bit (index_mask geo) i)"
    using assms(1) unfolding geometry_wf_def by (metis bit_0_eq bit_and_iff bot_apply bot_bool_def)
  moreover have "bit (index_mask geo) i" if "bit (push_bit 12 (location_pages geo loc)) i"
    using that location_pages_mask [OF assms, of "i - 12"] by (auto simp: bit_push_bit_iff)
  ultimately show "bit (page_addr_bits (geo_base_addr geo) AND push_bit 12 (location_pages geo loc)) i = bit (0 :: u64) i"
    by (auto simp: bit_and_iff)
qed

lemma unat_location_pages:
  assumes "geometry_wf geo" and "location_is_valid geo loc"
  shows "unat (location_pages geo loc) < 2 ^ 52"
proof -
  have "take_bit 52 (location_pages geo loc) = location_pages geo loc"
    using location_pages_mask [OF assms] by (intro bit_eqI) (auto simp: bit_take_bit_iff)
  then have "take_bit 52 (unat (location_pages geo loc)) = unat (location_pages geo loc)"
    by (metis unsigned_take_bit_eq)
  then show ?thesis
    by (metis take_bit_nat_less_exp)
qed

lemma location_to_addr_eq:
  assumes wf: "geometry_wf geo"
  shows "location_to_addr geo loc =
    (if location_is_valid geo loc
     then Some (PageAddr (RawAddr (page_addr_bits (geo_base_addr geo) OR push_bit 12 (location_pages geo loc))
                  (addr_space (geo_base_addr geo))))
     else None)"
proof (cases "location_is_valid geo loc")
  case True
  note w = geometry_widths [OF wf]
  let ?b = "geo_base_addr geo" and ?n = "location_pages geo loc"
  have n: "unat ?n < 2 ^ 52" and d: "page_addr_bits ?b AND push_bit 12 ?n = 0"
    using unat_location_pages [OF wf True] base_disjoint [OF wf True] by simp_all
  have s: "addr_nat ?b + unat ?n * 4096 = unat (page_addr_bits ?b OR push_bit 12 ?n)"
    using unat_or_disjoint [OF d] unat_push_bit_12 [OF n] by (simp add: addr_nat_def)
  have al: "4096 dvd addr_nat ?b"
    using wf by (simp add: geometry_wf_def page_addr_wf_iff)
  have "checked_add_pages ?b ?n =
      Some (PageAddr (RawAddr (page_addr_bits ?b OR push_bit 12 ?n) (addr_space ?b)))"
    unfolding checked_add_pages_def checked_add_pages_with_size_Some page_addr_is_aligned_iff
    using s al by (simp add: s [symmetric])
  moreover have "location_to_addr geo loc = checked_add_pages ?b ?n"
    using True w by (simp add: location_to_addr_def Let_def location_pages_def shl_def)
  ultimately show ?thesis
    using True by simp
qed (simp add: location_to_addr_def)

lemma file_id_roundtrip:
  "file_id_bits (file_id_from_index i) = i"
  "f \<noteq> Guest (- 1) \<Longrightarrow> file_id_from_index (file_id_bits f) = f"
  by (simp add: file_id_from_index_def)
     (cases f; auto simp: file_id_from_index_def add_eq_0_iff2)

lemma take_drop_bit_eqI:
  assumes "\<And>i. i < n \<Longrightarrow> bit (x :: u64) (s + i) = bit y i" and "\<And>i. bit y i \<Longrightarrow> i < n"
  shows "take_bit n (drop_bit s x) = y"
  using assms by (intro bit_eqI) (auto simp: bit_take_bit_iff bit_drop_bit_eq)

lemma extract_location:
  fixes a :: "'as page_addr"
  assumes wf: "geometry_wf geo" and v: "location_is_valid geo loc"
    and a: "page_addr_bits a = page_addr_bits (geo_base_addr geo) OR push_bit 12 (location_pages geo loc)"
  shows "page_addr_bits a AND NOT (index_mask geo) = page_addr_bits (geo_base_addr geo)"
    and "take_bit (unat (group_index_bits geo)) (drop_bit (unat (group_index_shift geo)) (page_addr_bits a))
      = group_id_bits (loc_group loc)"
    and "take_bit (unat (hart_index_bits geo)) (drop_bit (unat (guest_index_bits geo) + 12) (page_addr_bits a))
      = hart_id_bits (loc_hart loc)"
    and "take_bit (unat (guest_index_bits geo)) (drop_bit 12 (page_addr_bits a)) = ucast (file_id_bits (loc_file loc))"
proof -
  let ?b = "page_addr_bits (geo_base_addr geo)" and ?p = "location_pages geo loc"
  have base: "\<not> bit ?b i" if "bit (index_mask geo) i" for i
    using wf that unfolding geometry_wf_def by (metis bit_0_eq bit_and_iff bot_apply bot_bool_def)
  note m = bit_index_mask [OF wf] and l = location_valid_bits [OF wf v]
  have s: "unat (group_index_shift geo) + unat (group_index_bits geo) < 64" "24 \<le> unat (group_index_shift geo)"
    "12 + unat (hart_index_bits geo) + unat (guest_index_bits geo) \<le> unat (group_index_shift geo)"
    using wf by (simp_all add: geometry_wf_def)
  have bit_a: "bit (page_addr_bits a) i = bit ?p (i - 12)" if "bit (index_mask geo) i" for i
  proof -
    have "12 \<le> i" "i < 64"
      using that s unfolding m by auto
    then show ?thesis
      using base [OF that] by (simp add: a bit_or_iff bit_push_bit_iff)
  qed
  show "page_addr_bits a AND NOT (index_mask geo) = ?b"
  proof (rule bit_eqI)
    fix i assume i: "possible_bit TYPE(u64) i"
    have "bit (index_mask geo) i" if "bit (push_bit 12 ?p) i"
      using that location_pages_mask [OF wf v, of "i - 12"] by (auto simp: bit_push_bit_iff)
    then show "bit (page_addr_bits a AND NOT (index_mask geo)) i = bit ?b i"
      using base i by (auto simp: a bit_and_iff bit_or_iff bit_not_iff)
  qed
  show "take_bit (unat (group_index_bits geo)) (drop_bit (unat (group_index_shift geo)) (page_addr_bits a))
      = group_id_bits (loc_group loc)"
  proof (rule take_drop_bit_eqI)
    fix i assume i: "i < unat (group_index_bits geo)"
    let ?i = "unat (group_index_shift geo) + i"
    have "bit (page_addr_bits a) ?i = bit ?p (?i - 12)"
      by (rule bit_a) (use i m in auto)
    also have "\<dots> = bit (group_id_bits (loc_group loc)) i"
      using i s l(2) [of "?i - 12 - unat (guest_index_bits geo)"] l(3) [of "?i - 12"]
      by (subst bit_location_pages) auto
    finally show "bit (page_addr_bits a) ?i = bit (group_id_bits (loc_group loc)) i" .
  qed (rule l(1))
  show "take_bit (unat (hart_index_bits geo)) (drop_bit (unat (guest_index_bits geo) + 12) (page_addr_bits a))
      = hart_id_bits (loc_hart loc)"
  proof (rule take_drop_bit_eqI)
    fix i assume i: "i < unat (hart_index_bits geo)"
    let ?i = "unat (guest_index_bits geo) + 12 + i"
    have "bit (page_addr_bits a) ?i = bit ?p (?i - 12)"
      by (rule bit_a) (use i m in auto)
    also have "\<dots> = bit (hart_id_bits (loc_hart loc)) i"
      using i s l(3) [of "?i - 12"] by (subst bit_location_pages) auto
    finally show "bit (page_addr_bits a) ?i = bit (hart_id_bits (loc_hart loc)) i" .
  qed (rule l(2))
  show "take_bit (unat (guest_index_bits geo)) (drop_bit 12 (page_addr_bits a)) = ucast (file_id_bits (loc_file loc))"
  proof (rule take_drop_bit_eqI)
    fix i assume i: "i < unat (guest_index_bits geo)"
    have "bit (page_addr_bits a) (12 + i) = bit ?p (12 + i - 12)"
      by (rule bit_a) (use i m in auto)
    also have "\<dots> = bit (ucast (file_id_bits (loc_file loc)) :: u64) i"
      using i s by (subst bit_location_pages) auto
    finally show "bit (page_addr_bits a) (12 + i) = bit (ucast (file_id_bits (loc_file loc)) :: u64) i" .
  qed (rule l(3))
qed

lemma addr_to_location_eq:
  assumes wf: "geometry_wf geo"
  shows "addr_to_location geo a =
    (let group = take_bit (unat (group_index_bits geo)) (drop_bit (unat (group_index_shift geo)) (page_addr_bits a));
         hart = take_bit (unat (hart_index_bits geo)) (drop_bit (unat (guest_index_bits geo) + 12) (page_addr_bits a));
         file = ucast (take_bit (unat (guest_index_bits geo)) (drop_bit 12 (page_addr_bits a))) :: u32
     in if page_addr_bits a AND NOT (index_mask geo) \<noteq> page_addr_bits (geo_base_addr geo)
           \<or> guests_per_hart geo < ucast file then None
        else Some \<lparr>loc_group = ImsicGroupId group, loc_hart = ImsicHartId hart, loc_file = file_id_from_index file\<rparr>)"
proof -
  note w = geometry_widths [OF wf]
  have "unat (guest_index_bits geo) + 12 < 64"
    using wf by (simp add: geometry_wf_def)
  then show ?thesis
    using w by (simp add: addr_to_location_def extract_field_eq GUEST_INDEX_SHIFT_def Let_def)
qed

lemma ucast_u32_u64: "(ucast (ucast (x :: u32) :: u64) :: u32) = x"
  by (rule bit_eqI) (auto simp: bit_simps)

lemma ucast_u64_u32: "unat (x :: u64) < 2 ^ 32 \<Longrightarrow> ucast (ucast x :: u32) = x"
proof (rule bit_eqI)
  fix i assume "unat x < 2 ^ 32"
  then show "bit (ucast (ucast x :: u32) :: u64) i = bit x i"
    using unat_less_bit [of x 32 i] by (auto simp: bit_simps dest: bit_imp_le_length)
qed

lemma location_addr_location:
  assumes wf: "geometry_wf geo" and v: "location_is_valid geo loc" and f: "loc_file loc \<noteq> Guest (- 1)"
  shows "\<exists>a. location_to_addr geo loc = Some a \<and> addr_to_location geo a = Some loc"
proof -
  define a where "a = PageAddr (RawAddr (page_addr_bits (geo_base_addr geo) OR push_bit 12 (location_pages geo loc))
                  (addr_space (geo_base_addr geo)))"
  have bits: "page_addr_bits a = page_addr_bits (geo_base_addr geo) OR push_bit 12 (location_pages geo loc)"
    by (simp add: a_def page_addr_bits_def)
  have "\<not> guests_per_hart geo < ucast (file_id_bits (loc_file loc))"
    using v by (simp add: location_is_valid_def not_less)
  then have "addr_to_location geo a = Some loc"
    by (simp add: addr_to_location_eq [OF wf] extract_location [OF wf v bits] ucast_u32_u64 file_id_roundtrip(2) [OF f])
  then show ?thesis
    using v by (simp add: location_to_addr_eq [OF wf] a_def)
qed

lemma addr_location_addr:
  assumes wf: "geometry_wf geo" and w: "unat (guest_index_bits geo) \<le> 32"
    and sp: "addr_space a = addr_space (geo_base_addr geo)" and loc: "addr_to_location geo a = Some loc"
  shows "location_to_addr geo loc = Some a"
proof -
  let ?x = "page_addr_bits a" and ?b = "page_addr_bits (geo_base_addr geo)"
  define fl where "fl = take_bit (unat (guest_index_bits geo)) (drop_bit 12 ?x)"
  have s: "unat (group_index_shift geo) + unat (group_index_bits geo) < 64" "24 \<le> unat (group_index_shift geo)"
    "12 + unat (hart_index_bits geo) + unat (guest_index_bits geo) \<le> unat (group_index_shift geo)"
    using wf by (simp_all add: geometry_wf_def)
  have "unat fl < 2 ^ unat (guest_index_bits geo)"
    by (simp add: fl_def unsigned_take_bit_eq)
  also have "\<dots> \<le> 2 ^ 32"
    using w by (rule power_increasing) simp
  finally have u: "ucast (ucast fl :: u32) = fl"
    by (rule ucast_u64_u32)
  have m: "?x AND NOT (index_mask geo) = ?b" and g: "\<not> guests_per_hart geo < fl"
    and l: "loc = \<lparr>loc_group = ImsicGroupId (take_bit (unat (group_index_bits geo))
                     (drop_bit (unat (group_index_shift geo)) ?x)),
               loc_hart = ImsicHartId (take_bit (unat (hart_index_bits geo))
                     (drop_bit (unat (guest_index_bits geo) + 12) ?x)),
               loc_file = file_id_from_index (ucast fl)\<rparr>"
    using loc u by (auto simp: addr_to_location_eq [OF wf] Let_def fl_def [symmetric] split: if_splits)
  have f: "bit fl j \<longleftrightarrow> j < unat (guest_index_bits geo) \<and> bit ?x (12 + j)" for j
    by (simp add: fl_def bit_take_bit_iff bit_drop_bit_eq)
  have v: "location_is_valid geo loc"
    using s g by (simp add: location_is_valid_def l less_shl_1 unsigned_take_bit_eq file_id_roundtrip u not_less)
  have "?b OR push_bit 12 (location_pages geo loc) = ?x"
  proof (rule bit_eqI)
    fix i assume "possible_bit TYPE(u64) i"
    then have i: "i < 64"
      by simp
    have b: "bit ?b i = (bit ?x i \<and> \<not> bit (index_mask geo) i)"
      using i by (simp add: m [symmetric] bit_and_iff bit_not_iff)
    have p: "bit (push_bit 12 (location_pages geo loc)) i = (bit ?x i \<and> bit (index_mask geo) i)"
    proof (cases "12 \<le> i")
      case True
      then have "i - 12 < 64"
        using i by simp
      then show ?thesis
        using True i s unfolding bit_push_bit_iff bit_location_pages [OF \<open>i - 12 < 64\<close>] bit_index_mask [OF wf]
        by (auto simp: l file_id_roundtrip u f bit_take_bit_iff bit_drop_bit_eq)
    qed (use s in \<open>auto simp: bit_push_bit_iff bit_index_mask [OF wf]\<close>)
    show "bit (?b OR push_bit 12 (location_pages geo loc)) i = bit ?x i"
      using b p by (auto simp: bit_or_iff)
  qed
  then show ?thesis
    using v sp by (simp add: location_to_addr_eq [OF wf] page_addr_eq_iff addr_nat_def page_addr_bits_def)
qed

text \<open>
  C34: for a geometry that the constructor accepts, with widths below 64, locations and addresses are two
  names of the same interrupt files. Every valid location has an address, and the location read from that
  address is the location again (the file number \<open>u32::MAX\<close> excepted, whose index wraps to the
  supervisor's). When file numbers fit 32 bits, an address that translates to a location is the address of
  that location, so two addresses never share one.
\<close>

theorem imsic_location_roundtrip:
  assumes "imsic_geometry_new base gb gs hb ub guests = Ok geo"
    and "unat gb < 64" and "unat gs < 64" and "unat hb < 64" and "unat ub < 64" and "page_addr_wf base"
  shows "(\<forall>loc. location_is_valid geo loc \<and> loc_file loc \<noteq> Guest (- 1) \<longrightarrow>
            (\<exists>a. location_to_addr geo loc = Some a \<and> addr_to_location geo a = Some loc))
    \<and> (unat ub \<le> 32 \<longrightarrow> (\<forall>a loc. addr_space a = addr_space base \<and> addr_to_location geo a = Some loc \<longrightarrow>
            location_to_addr geo loc = Some a))"
proof -
  have "geometry_wf geo" and "guest_index_bits geo = ub" and "geo_base_addr geo = base"
    using geometry_new_wf [OF assms] by auto
  then show ?thesis
    using location_addr_location [of geo] addr_location_addr [of geo] by auto
qed

definition example_imsic_base :: supervisor_page_addr where
  "example_imsic_base = PageAddr (raw_supervisor 0x28000000)"

definition example_geometry :: "supervisor_phys imsic_geometry" where
  "example_geometry = \<lparr>geo_base_addr = example_imsic_base, group_index_bits = 2, group_index_shift = 24,
                       hart_index_bits = 4, guest_index_bits = 4, guests_per_hart = 3\<rparr>"

lemma example_geometry_new: "imsic_geometry_new example_imsic_base 2 24 4 4 3 = Ok example_geometry"
  by (simp add: imsic_geometry_new_def example_geometry_def example_imsic_base_def raw_supervisor_def page_addr_bits_def
      shl_def MIN_GROUP_INDEX_SHIFT_def GUEST_INDEX_SHIFT_def index_mask_def gen_mask_def)

theorem imsic_location_roundtrip_witness:
  "\<exists>a. location_to_addr example_geometry
         \<lparr>loc_group = ImsicGroupId 2, loc_hart = ImsicHartId 3, loc_file = Guest 1\<rparr> = Some a
     \<and> addr_to_location example_geometry a
         = Some \<lparr>loc_group = ImsicGroupId 2, loc_hart = ImsicHartId 3, loc_file = Guest 1\<rparr>"
proof -
  have "page_addr_wf example_imsic_base"
    by (simp add: example_imsic_base_def page_addr_wf_iff raw_supervisor_def)
  moreover have "location_is_valid example_geometry
      \<lparr>loc_group = ImsicGroupId 2, loc_hart = ImsicHartId 3, loc_file = Guest 1\<rparr>"
    by (simp add: location_is_valid_def example_geometry_def shl_def)
  ultimately show ?thesis
    using imsic_location_roundtrip [OF example_geometry_new] by simp
qed

text \<open>
  With more than 32 bits of file numbers the truncation of the file number makes two addresses one location:
  the file \<open>2 ^ 32\<close> of a hart is taken for its supervisor file.
\<close>

definition wide_geometry :: "supervisor_phys imsic_geometry" where
  "wide_geometry = \<lparr>geo_base_addr = PageAddr (raw_supervisor 0), group_index_bits = 0, group_index_shift = 48,
                    hart_index_bits = 1, guest_index_bits = 33, guests_per_hart = 3\<rparr>"

lemma wide_file_truncated:
  "imsic_geometry_new (PageAddr (raw_supervisor 0)) 0 48 1 33 3 = Ok wide_geometry"
  "addr_to_location wide_geometry (PageAddr (raw_supervisor 0x100000000000))
     = addr_to_location wide_geometry (PageAddr (raw_supervisor 0))"
  "addr_to_location wide_geometry (PageAddr (raw_supervisor 0)) \<noteq> None"
  by (simp_all add: imsic_geometry_new_def wide_geometry_def raw_supervisor_def page_addr_bits_def addr_to_location_def
      shl_def shr_def MIN_GROUP_INDEX_SHIFT_def GUEST_INDEX_SHIFT_def index_mask_def gen_mask_def extract_field_def
      file_id_from_index_def)

end
