(* ===== verification/Pci_Address.thy ===== *)
theory Pci_Address
  imports Salus_Prelude
begin

text \<open>
  Addresses of PCI functions (\<open>drivers/src/pci/address.rs\<close>): the four components with their widths, the
  address that packs them into 32 bits, and the successors of an address. The macro that gives every
  component its conversions is modelled once, over the width of the component.
\<close>

section \<open>Components\<close>

datatype pci_function = Function (function_bits: u32)

datatype pci_device_num = Device (device_bits: u32)

datatype pci_bus_num = Bus (bus_bits: u32)

datatype pci_segment = Segment (segment_bits: u32)

definition FUNCTION_BITS :: nat where "FUNCTION_BITS = 3"

definition DEVICE_BITS :: nat where "DEVICE_BITS = 5"

definition DEVICE_SHIFT :: nat where "DEVICE_SHIFT = 3"

definition BUS_BITS :: nat where "BUS_BITS = 8"

definition BUS_SHIFT :: nat where "BUS_SHIFT = 8"

definition SEGMENT_BITS :: nat where "SEGMENT_BITS = 16"

definition SEGMENT_SHIFT :: nat where "SEGMENT_SHIFT = 16"

definition component_max :: "nat \<Rightarrow> u32" where
  "component_max bits = push_bit bits 1 - 1"

text \<open>\<open>try_from\<close> of the macro, for a component of \<open>bits\<close> bits, and \<open>next\<close> on top of it.\<close>

definition component_try_from :: "nat \<Rightarrow> (u32 \<Rightarrow> 'c) \<Rightarrow> u64 \<Rightarrow> 'c option" where
  "component_try_from bits mk v = (if ucast (component_max bits) < v then None else Some (mk (ucast v)))"

definition component_next :: "nat \<Rightarrow> (u32 \<Rightarrow> 'c) \<Rightarrow> u32 \<Rightarrow> 'c option" where
  "component_next bits mk c = component_try_from bits mk (ucast (c + 1))"

record bus_range =
  br_start :: pci_bus_num
  br_end :: pci_bus_num

definition bus_from_function :: "pci_function \<Rightarrow> pci_bus_num" where
  "bus_from_function f = Bus (function_bits f)"

section \<open>Addresses\<close>

datatype pci_address = Address (pci_bits: u32)

definition pci_address_new :: "pci_segment \<Rightarrow> pci_bus_num \<Rightarrow> pci_device_num \<Rightarrow> pci_function \<Rightarrow> pci_address" where
  "pci_address_new seg bus dev func =
     Address (push_bit SEGMENT_SHIFT (segment_bits seg) OR push_bit BUS_SHIFT (bus_bits bus)
              OR push_bit DEVICE_SHIFT (device_bits dev) OR function_bits func)"

definition try_from_components :: "u32 \<Rightarrow> u32 \<Rightarrow> u32 \<Rightarrow> u32 \<Rightarrow> pci_address option" where
  "try_from_components seg bus dev func =
     Option.bind (component_try_from SEGMENT_BITS Segment (ucast seg)) (\<lambda>s.
     Option.bind (component_try_from BUS_BITS Bus (ucast bus)) (\<lambda>b.
     Option.bind (component_try_from DEVICE_BITS Device (ucast dev)) (\<lambda>d.
     Option.bind (component_try_from FUNCTION_BITS Function (ucast func)) (\<lambda>f.
       Some (pci_address_new s b d f)))))"

definition bus_address :: "pci_bus_num \<Rightarrow> pci_address" where
  "bus_address bus = Address (push_bit BUS_SHIFT (bus_bits bus))"

definition addr_function :: "pci_address \<Rightarrow> pci_function" where
  "addr_function a = Function (pci_bits a AND component_max FUNCTION_BITS)"

definition addr_device :: "pci_address \<Rightarrow> pci_device_num" where
  "addr_device a = Device (drop_bit DEVICE_SHIFT (pci_bits a) AND component_max DEVICE_BITS)"

definition addr_bus :: "pci_address \<Rightarrow> pci_bus_num" where
  "addr_bus a = Bus (drop_bit BUS_SHIFT (pci_bits a) AND component_max BUS_BITS)"

definition addr_segment :: "pci_address \<Rightarrow> pci_segment" where
  "addr_segment a = Segment (drop_bit SEGMENT_SHIFT (pci_bits a) AND component_max SEGMENT_BITS)"

definition next_function :: "pci_address \<Rightarrow> pci_address option" where
  "next_function a =
     map_option (pci_address_new (addr_segment a) (addr_bus a) (addr_device a))
       (component_next FUNCTION_BITS Function (function_bits (addr_function a)))"

definition next_device :: "pci_address \<Rightarrow> pci_address option" where
  "next_device a =
     map_option (\<lambda>dev. pci_address_new (addr_segment a) (addr_bus a) dev (Function 0))
       (component_next DEVICE_BITS Device (device_bits (addr_device a)))"

definition next_bus :: "pci_address \<Rightarrow> pci_address option" where
  "next_bus a =
     map_option (\<lambda>bus. pci_address_new (addr_segment a) bus (Device 0) (Function 0))
       (component_next BUS_BITS Bus (bus_bits (addr_bus a)))"

definition next_segment :: "pci_address \<Rightarrow> pci_address option" where
  "next_segment a =
     map_option (\<lambda>seg. pci_address_new seg (Bus 0) (Device 0) (Function 0))
       (component_next SEGMENT_BITS Segment (segment_bits (addr_segment a)))"

lemmas component_defs = component_max_def FUNCTION_BITS_def DEVICE_BITS_def DEVICE_SHIFT_def BUS_BITS_def
  BUS_SHIFT_def SEGMENT_BITS_def SEGMENT_SHIFT_def

section \<open>Packing and unpacking\<close>

lemma component_max_mask:
  "component_max FUNCTION_BITS = mask 3" "component_max DEVICE_BITS = mask 5" "component_max BUS_BITS = mask 8"
  "component_max SEGMENT_BITS = mask 16"
  by (simp_all add: component_defs mask_eq_exp_minus_1)

lemma ucast_u32: "unat (ucast (v :: u32) :: u64) = unat v" "(ucast (ucast (v :: u32) :: u64) :: u32) = v"
proof -
  have "unat v < 2 ^ 32"
    using unsigned_less [of v] by simp
  then show "unat (ucast v :: u64) = unat v"
    by (simp add: unsigned_ucast_eq take_bit_nat_eq_self_iff less_trans)
  show "(ucast (ucast v :: u64) :: u32) = v"
    by (rule bit_eqI) (auto simp: bit_simps)
qed

lemma component_try_from_u32:
  "component_try_from FUNCTION_BITS mk (ucast (v :: u32)) = (if unat v < 2 ^ 3 then Some (mk v) else None)"
  "component_try_from DEVICE_BITS mk' (ucast (v :: u32)) = (if unat v < 2 ^ 5 then Some (mk' v) else None)"
  "component_try_from BUS_BITS mk'' (ucast (v :: u32)) = (if unat v < 2 ^ 8 then Some (mk'' v) else None)"
  "component_try_from SEGMENT_BITS mk3 (ucast (v :: u32)) = (if unat v < 2 ^ 16 then Some (mk3 v) else None)"
  by (auto simp: component_try_from_def component_defs word_less_nat_alt ucast_u32)

lemma u32_bit_bound: "unat (x :: u32) < 2 ^ n \<Longrightarrow> bit x i \<Longrightarrow> i < n"
proof (rule ccontr)
  assume lt: "unat x < 2 ^ n" and b: "bit x i" and "\<not> i < n"
  have "bit (unat x) i"
    using b by (simp add: bit_unsigned_iff)
  moreover have "take_bit n (unat x) = unat x"
    using lt by (simp add: take_bit_nat_eq_self_iff)
  ultimately show False
    using \<open>\<not> i < n\<close> by (metis bit_take_bit_iff)
qed

lemma address_components:
  assumes "unat (segment_bits s) < 2 ^ 16" and "unat (bus_bits b) < 2 ^ 8"
    and "unat (device_bits d) < 2 ^ 5" and "unat (function_bits f) < 2 ^ 3"
  shows "addr_segment (pci_address_new s b d f) = s" "addr_bus (pci_address_new s b d f) = b"
    "addr_device (pci_address_new s b d f) = d" "addr_function (pci_address_new s b d f) = f"
proof -
  note bd = u32_bit_bound [OF assms(1)] u32_bit_bound [OF assms(2)] u32_bit_bound [OF assms(3)] u32_bit_bound [OF assms(4)]
  let ?x = "pci_bits (pci_address_new s b d f)"
  have x: "bit ?x i \<longleftrightarrow> i < 32 \<and> (16 \<le> i \<and> bit (segment_bits s) (i - 16) \<or> 8 \<le> i \<and> bit (bus_bits b) (i - 8)
      \<or> 3 \<le> i \<and> bit (device_bits d) (i - 3) \<or> bit (function_bits f) i)" for i
    by (auto simp: pci_address_new_def component_defs bit_or_iff bit_push_bit_iff dest: bit_imp_le_length)
  have sb: "\<not> bit (bus_bits b) (i + 8)" "\<not> bit (device_bits d) (i + 13)" "\<not> bit (device_bits d) (i + 5)"
    "\<not> bit (function_bits f) (i + 16)" "\<not> bit (function_bits f) (i + 8)" "\<not> bit (function_bits f) (i + 3)" for i
    using bd(2) [of "i + 8"] bd(3) [of "i + 13"] bd(3) [of "i + 5"] bd(4) [of "i + 16"] bd(4) [of "i + 8"]
      bd(4) [of "i + 3"] by auto
  have "drop_bit 16 ?x AND mask 16 = segment_bits s"
    using sb by (intro bit_eqI) (auto simp: bit_and_iff bit_mask_iff bit_drop_bit_eq x add.commute dest: bd(1))
  moreover have "drop_bit 8 ?x AND mask 8 = bus_bits b"
    using sb by (intro bit_eqI) (auto simp: bit_and_iff bit_mask_iff bit_drop_bit_eq x add.commute dest: bd(2))
  moreover have "drop_bit 3 ?x AND mask 5 = device_bits d"
    using sb by (intro bit_eqI) (auto simp: bit_and_iff bit_mask_iff bit_drop_bit_eq x add.commute dest: bd(3))
  moreover have "?x AND mask 3 = function_bits f"
    by (intro bit_eqI) (auto simp: bit_and_iff bit_mask_iff x dest: bd(4))
  ultimately show "addr_segment (pci_address_new s b d f) = s" "addr_bus (pci_address_new s b d f) = b"
    "addr_device (pci_address_new s b d f) = d" "addr_function (pci_address_new s b d f) = f"
    unfolding addr_segment_def addr_bus_def addr_device_def addr_function_def component_max_mask
    by (simp_all add: component_defs)
qed

text \<open>
  Any four numbers make an address exactly when each fits its component, the components read from
  that address are the numbers, and every address is made of its own components, so addresses and
  tuples of components in range correspond one to one.
\<close>

lemma pci_address_components:
  "(case try_from_components s b d f of
      Some x \<Rightarrow> unat s < 2 ^ 16 \<and> unat b < 2 ^ 8 \<and> unat d < 2 ^ 5 \<and> unat f < 2 ^ 3
        \<and> addr_segment x = Segment s \<and> addr_bus x = Bus b \<and> addr_device x = Device d \<and> addr_function x = Function f
    | None \<Rightarrow> 2 ^ 16 \<le> unat s \<or> 2 ^ 8 \<le> unat b \<or> 2 ^ 5 \<le> unat d \<or> 2 ^ 3 \<le> unat f)
   \<and> pci_address_new (addr_segment a) (addr_bus a) (addr_device a) (addr_function a) = a"
proof
  show "case try_from_components s b d f of
      Some x \<Rightarrow> unat s < 2 ^ 16 \<and> unat b < 2 ^ 8 \<and> unat d < 2 ^ 5 \<and> unat f < 2 ^ 3
        \<and> addr_segment x = Segment s \<and> addr_bus x = Bus b \<and> addr_device x = Device d \<and> addr_function x = Function f
    | None \<Rightarrow> 2 ^ 16 \<le> unat s \<or> 2 ^ 8 \<le> unat b \<or> 2 ^ 5 \<le> unat d \<or> 2 ^ 3 \<le> unat f"
    using address_components [of "Segment s" "Bus b" "Device d" "Function f"]
    by (auto simp: try_from_components_def component_try_from_u32)
  have "push_bit 16 (drop_bit 16 x AND mask 16) OR push_bit 8 (drop_bit 8 x AND mask 8)
      OR push_bit 3 (drop_bit 3 x AND mask 5) OR (x AND mask 3) = x" for x :: u32
  proof (rule bit_eqI)
    fix n assume "possible_bit TYPE(u32) n"
    then have n: "n < 32"
      by simp
    consider "16 \<le> n" | "8 \<le> n" "n < 16" | "3 \<le> n" "n < 8" | "n < 3"
      by linarith
    then show "bit (push_bit 16 (drop_bit 16 x AND mask 16) OR push_bit 8 (drop_bit 8 x AND mask 8)
        OR push_bit 3 (drop_bit 3 x AND mask 5) OR (x AND mask 3)) n = bit x n"
      by cases (use n in \<open>simp_all add: bit_or_iff bit_push_bit_iff bit_and_iff bit_mask_iff bit_drop_bit_eq less_diff_conv2\<close>)
  qed
  then show "pci_address_new (addr_segment a) (addr_bus a) (addr_device a) (addr_function a) = a"
    unfolding pci_address_new_def addr_segment_def addr_bus_def addr_device_def addr_function_def component_max_mask
    by (simp add: component_defs)
qed

end
