(* ===== verification/Msi_Page_Table.thy ===== *)
theory Msi_Page_Table
  imports Imsic_Geometry Pci_Address Page_Table
begin

text \<open>
  The table that redirects message-signalled interrupts of devices to a guest's interrupt files
  (\<open>drivers/src/iommu/msi_page_table.rs\<close>, with the identifiers of \<open>device_directory.rs\<close> and the errors
  of \<open>error.rs\<close>). The table is an array of 16-byte entries in memory; the mutex around it makes every
  operation one step.
\<close>

datatype device_id = DeviceId (device_id_bits: u32)

datatype gsc_id = GscId (gsc_id_bits: u16)

text \<open>The errors of probing, which is not modelled, are left out.\<close>

datatype iommu_error =
    InsufficientMsiTablePages | MisalignedMsiTablePages | UnownedMsiTablePages
  | InvalidImsicLocation imsic_location | MsiPageNotOwned supervisor_page_addr
  | MsiAlreadyMapped imsic_location | MsiNotMapped imsic_location | OutOfPages | NotIntermediateTable
  | PciAddressTooLarge pci_address | IommuOwnerMismatch | DeviceNotFound device_id
  | DeviceAlreadyEnabled device_id | DeviceNotEnabled device_id | InvalidQueuePointer u64 | QueueFull
  | QueueEmpty | OutOfGscIds | InvalidGscId gsc_id | GscIdAlreadyFree gsc_id | GscIdInUse gsc_id

type_synonym 'a iommu_result = "(iommu_error, 'a) result"

section \<open>Entries\<close>

definition MSI_PTE_PFN_SHIFT :: nat where "MSI_PTE_PFN_SHIFT = 10"

definition MSI_PTE_VALID :: u64 where "MSI_PTE_VALID = push_bit 0 1"

definition MSI_PTE_WRITE :: u64 where "MSI_PTE_WRITE = push_bit 2 1"

definition msi_pte_set :: "supervisor_phys pfn \<Rightarrow> u64" where
  "msi_pte_set p = push_bit MSI_PTE_PFN_SHIFT (pfn_bits p) OR MSI_PTE_VALID OR MSI_PTE_WRITE"

definition msi_pte_clear :: u64 where
  "msi_pte_clear = 0"

definition msi_pte_valid :: "u64 \<Rightarrow> bool" where
  "msi_pte_valid pte \<longleftrightarrow> pte AND (MSI_PTE_VALID OR MSI_PTE_WRITE) = MSI_PTE_VALID OR MSI_PTE_WRITE"

definition msi_index_from :: "guest_phys imsic_geometry \<Rightarrow> imsic_location \<Rightarrow> u64 option" where
  "msi_index_from geo loc =
     (if \<not> location_is_valid geo loc then None
      else Some (ucast (file_id_bits (loc_file loc))
                 OR shl (hart_id_bits (loc_hart loc)) (guest_index_bits geo)
                 OR shl (group_id_bits (loc_group loc)) (guest_index_bits geo + hart_index_bits geo)))"

section \<open>The table\<close>

record msi_page_table =
  mpt_pages :: seq_pages
  mpt_src_geometry :: "guest_phys imsic_geometry"
  mpt_dest_geometry :: "supervisor_phys imsic_geometry"
  mpt_owner :: page_owner_id

text \<open>The address of an entry; \<open>as_mut\<close> turns a null pointer into \<open>None\<close>.\<close>

definition msi_entry_for_index :: "msi_page_table \<Rightarrow> u64 \<Rightarrow> u64 option" where
  "msi_entry_for_index t index =
     (if seq_length_bytes (mpt_pages t) div 16 \<le> index then None
      else let ptr = page_addr_bits (seq_addr (mpt_pages t)) + 16 * index in if ptr = 0 then None else Some ptr)"

definition required_table_size :: "guest_phys imsic_geometry \<Rightarrow> u64" where
  "required_table_size geo = max 4096 (shl 1 (index_bits geo) * 16)"

definition msi_page_table_new ::
    "seq_pages \<Rightarrow> guest_phys imsic_geometry \<Rightarrow> supervisor_phys imsic_geometry \<Rightarrow> page_tracker \<Rightarrow> page_owner_id
     \<Rightarrow> msi_page_table iommu_result" where
  "msi_page_table_new pages src dest tracker owner =
     (let table_size = required_table_size src in
      if seq_length_bytes pages < table_size then Err InsufficientMsiTablePages
      else if page_addr_bits (seq_addr pages) mod table_size \<noteq> 0 then Err MisalignedMsiTablePages
      else result_bind (page_addr_iter_from (seq_addr pages)) (\<lambda>it.
        if \<not> list_all (\<lambda>a. is_internal_state_page tracker a owner)
               (page_addr_iter_take (unat (seq_count pages)) it)
        then Err UnownedMsiTablePages
        else Ok \<lparr>mpt_pages = pages, mpt_src_geometry = src, mpt_dest_geometry = dest, mpt_owner = owner\<rparr>))"

text \<open>The check of the destination that \<open>map\<close> and \<open>remap\<close> begin with.\<close>

definition msi_dest :: "msi_page_table \<Rightarrow> page_tracker \<Rightarrow> imsic_location \<Rightarrow> supervisor_page_addr iommu_result" where
  "msi_dest t tracker dest =
     result_bind (ok_or (location_to_addr (mpt_dest_geometry t) dest) (InvalidImsicLocation dest)) (\<lambda>dest_addr.
       if \<not> is_mapped_page tracker dest_addr (mpt_owner t) (Mmio Imsic) then Err (MsiPageNotOwned dest_addr)
       else Ok dest_addr)"

definition msi_map ::
    "msi_page_table \<Rightarrow> page_tracker \<Rightarrow> mem \<Rightarrow> imsic_location \<Rightarrow> imsic_location \<Rightarrow> unit iommu_result \<times> mem" where
  "msi_map t tracker m src dest =
     (case result_bind (msi_dest t tracker dest) (\<lambda>dest_addr.
             result_bind (ok_or (msi_index_from (mpt_src_geometry t) src) (InvalidImsicLocation src)) (\<lambda>index.
             result_bind (unwrap_option (msi_entry_for_index t index)) (\<lambda>entry.
               if msi_pte_valid (m entry) then Err (MsiAlreadyMapped src)
               else Ok (m(entry := msi_pte_set (page_addr_pfn dest_addr)))))) of
        Ok m' \<Rightarrow> (Ok (), m')
      | Err e \<Rightarrow> (Err e, m)
      | Panic \<Rightarrow> (Panic, m))"

definition msi_remap ::
    "msi_page_table \<Rightarrow> page_tracker \<Rightarrow> mem \<Rightarrow> imsic_location \<Rightarrow> imsic_location \<Rightarrow> unit iommu_result \<times> mem" where
  "msi_remap t tracker m src dest =
     (case result_bind (msi_dest t tracker dest) (\<lambda>dest_addr.
             result_bind (ok_or (Option.bind (msi_index_from (mpt_src_geometry t) src) (msi_entry_for_index t))
                            (InvalidImsicLocation src)) (\<lambda>entry.
               if \<not> msi_pte_valid (m entry) then Err (MsiNotMapped src)
               else Ok (m(entry := msi_pte_set (page_addr_pfn dest_addr))))) of
        Ok m' \<Rightarrow> (Ok (), m')
      | Err e \<Rightarrow> (Err e, m)
      | Panic \<Rightarrow> (Panic, m))"

definition msi_unmap :: "msi_page_table \<Rightarrow> mem \<Rightarrow> imsic_location \<Rightarrow> unit iommu_result \<times> mem" where
  "msi_unmap t m loc =
     (case result_bind (ok_or (msi_index_from (mpt_src_geometry t) loc) (InvalidImsicLocation loc)) (\<lambda>index.
             result_bind (unwrap_option (msi_entry_for_index t index)) (\<lambda>entry.
               if \<not> msi_pte_valid (m entry) then Err (MsiNotMapped loc)
               else Ok (m(entry := msi_pte_clear)))) of
        Ok m' \<Rightarrow> (Ok (), m')
      | Err e \<Rightarrow> (Err e, m)
      | Panic \<Rightarrow> (Panic, m))"

definition msi_address_pattern :: "msi_page_table \<Rightarrow> guest_page_addr \<times> u64" where
  "msi_address_pattern t = (geo_base_addr (mpt_src_geometry t), index_mask (mpt_src_geometry t))"

definition msi_page_table_drop :: "owner_vec \<Rightarrow> msi_page_table \<Rightarrow> page_tracker \<Rightarrow> unit pt_result \<times> page_tracker" where
  "msi_page_table_drop av t tr =
     (case result_bind (unwrap (seq_from_mem_range StInternalDirty (seq_addr (mpt_pages t)) Size4k
                                  (seq_count (mpt_pages t)))) seq_into_list of
        Ok ps \<Rightarrow> release_each av ps tr
      | Err e \<Rightarrow> (Err e, tr)
      | Panic \<Rightarrow> (Panic, tr))"

section \<open>Indices\<close>

lemma geometry_index_bits:
  assumes "geometry_wf geo"
  shows "unat (guest_index_bits geo + hart_index_bits geo) = unat (guest_index_bits geo) + unat (hart_index_bits geo)"
    "unat (index_bits geo) = unat (group_index_bits geo) + unat (hart_index_bits geo) + unat (guest_index_bits geo)"
    "unat (group_index_bits geo) + unat (hart_index_bits geo) + unat (guest_index_bits geo) < 52"
  using assms by (auto simp: geometry_wf_def index_bits_def unat_add_u32)

text \<open>The index of a location holds its components in adjacent bit fields.\<close>

lemma msi_index_fields:
  assumes wf: "geometry_wf geo" and i: "msi_index_from geo loc = Some i"
  shows "take_bit (unat (guest_index_bits geo)) (drop_bit 0 i) = ucast (file_id_bits (loc_file loc))"
    "take_bit (unat (hart_index_bits geo)) (drop_bit (unat (guest_index_bits geo)) i) = hart_id_bits (loc_hart loc)"
    "take_bit (unat (group_index_bits geo)) (drop_bit (unat (guest_index_bits geo) + unat (hart_index_bits geo)) i)
      = group_id_bits (loc_group loc)"
    "unat i < 2 ^ unat (index_bits geo)"
proof -
  let ?u = "unat (guest_index_bits geo)" and ?h = "unat (hart_index_bits geo)" and ?g = "unat (group_index_bits geo)"
  note w = geometry_index_bits [OF wf] and n = geometry_widths [OF wf]
  have v: "location_is_valid geo loc"
    using i by (auto simp: msi_index_from_def split: if_splits)
  note l = location_valid_bits [OF wf v]
  have eq: "i = ucast (file_id_bits (loc_file loc)) OR push_bit ?u (hart_id_bits (loc_hart loc))
      OR push_bit (?u + ?h) (group_id_bits (loc_group loc))"
    using i v n w by (simp add: msi_index_from_def shl_def)
  have b: "bit i j \<longleftrightarrow> bit (ucast (file_id_bits (loc_file loc)) :: u64) j \<or> ?u \<le> j \<and> bit (hart_id_bits (loc_hart loc)) (j - ?u)
      \<or> ?u + ?h \<le> j \<and> bit (group_id_bits (loc_group loc)) (j - (?u + ?h))" if "j < 64" for j
    using that unfolding eq bit_or_iff bit_push_bit_iff by auto
  show "take_bit ?u (drop_bit 0 i) = ucast (file_id_bits (loc_file loc))"
    by (rule take_drop_bit_eqI, use b w in auto) (rule l(3))
  show "take_bit ?h (drop_bit ?u i) = hart_id_bits (loc_hart loc)"
  proof (rule take_drop_bit_eqI)
    fix j assume j: "j < ?h"
    have "\<not> bit (ucast (file_id_bits (loc_file loc)) :: u64) (?u + j)"
      using l(3) [of "?u + j"] by auto
    then show "bit i (?u + j) = bit (hart_id_bits (loc_hart loc)) j"
      using b [of "?u + j"] j w by auto
  qed (rule l(2))
  show "take_bit ?g (drop_bit (?u + ?h) i) = group_id_bits (loc_group loc)"
  proof (rule take_drop_bit_eqI)
    fix j assume j: "j < ?g"
    have "\<not> bit (ucast (file_id_bits (loc_file loc)) :: u64) (?u + ?h + j)"
      "\<not> bit (hart_id_bits (loc_hart loc)) (?h + j)"
      using l(3) [of "?u + ?h + j"] l(2) [of "?h + j"] by auto
    then show "bit i (?u + ?h + j) = bit (group_id_bits (loc_group loc)) j"
      using b [of "?u + ?h + j"] j w by (auto simp: add.assoc)
  qed (rule l(1))
  have "take_bit (unat (index_bits geo)) i = i"
  proof (rule bit_eqI)
    fix j assume "possible_bit TYPE(u64) j"
    then have "j < unat (index_bits geo)" if "bit i j"
      using b [of j] that l(1) [of "j - (?u + ?h)"] l(2) [of "j - ?u"] l(3) [of j] w(2) by auto
    then show "bit (take_bit (unat (index_bits geo)) i) j = bit i j"
      by (auto simp: bit_take_bit_iff)
  qed
  then have "take_bit (unat (index_bits geo)) (unat i) = unat i"
    by (metis unsigned_take_bit_eq)
  then show "unat i < 2 ^ unat (index_bits geo)"
    by (metis take_bit_nat_less_exp)
qed

lemma msi_index_inj:
  assumes "geometry_wf geo" and "msi_index_from geo loc = Some i" and "msi_index_from geo loc' = Some i"
  shows "loc_group loc = loc_group loc' \<and> loc_hart loc = loc_hart loc'
    \<and> file_id_bits (loc_file loc) = file_id_bits (loc_file loc')"
proof -
  note x = msi_index_fields [OF assms(1,2)] and y = msi_index_fields [OF assms(1,3)]
  have "file_id_bits (loc_file loc) = file_id_bits (loc_file loc')"
    using x(1) y(1) by (metis ucast_u32_u64)
  then show ?thesis
    using x(2,3) y(2,3) by (metis imsic_group_id.expand imsic_hart_id.expand)
qed

section \<open>Entries lie in the table\<close>

text \<open>The pages of a table: 4kB pages inside the address space, not at the null address.\<close>

definition msi_pages_ok :: "seq_pages \<Rightarrow> bool" where
  "msi_pages_ok pages \<longleftrightarrow> seq_page_size pages = Size4k \<and> page_addr_wf (seq_addr pages) \<and> 0 < addr_nat (seq_addr pages)
     \<and> addr_nat (seq_addr pages) + 4096 * unat (seq_count pages) \<le> 2 ^ 64"

definition msi_table_ok :: "msi_page_table \<Rightarrow> bool" where
  "msi_table_ok t \<longleftrightarrow> geometry_wf (mpt_src_geometry t) \<and> geometry_wf (mpt_dest_geometry t) \<and> msi_pages_ok (mpt_pages t)
     \<and> 16 * 2 ^ unat (index_bits (mpt_src_geometry t)) \<le> 4096 * unat (seq_count (mpt_pages t))"

lemma msi_length:
  assumes "msi_pages_ok pages"
  shows "unat (seq_length_bytes pages) = 4096 * unat (seq_count pages)"
proof -
  have "unat (4096 :: u64) * unat (seq_count pages) < 2 ^ 64"
    using assms by (simp add: msi_pages_ok_def)
  then show ?thesis
    using assms unat_mult_u64 [of 4096 "seq_count pages"]
    by (simp add: msi_pages_ok_def seq_length_bytes_def)
qed

lemma msi_page_table_new_ok:
  assumes new: "msi_page_table_new pages src dest tracker owner = Ok t"
    and wf: "geometry_wf src" "geometry_wf dest" and ok: "msi_pages_ok pages"
  shows "msi_table_ok t \<and> t = \<lparr>mpt_pages = pages, mpt_src_geometry = src, mpt_dest_geometry = dest, mpt_owner = owner\<rparr>"
proof -
  have t: "t = \<lparr>mpt_pages = pages, mpt_src_geometry = src, mpt_dest_geometry = dest, mpt_owner = owner\<rparr>"
    and sz: "\<not> seq_length_bytes pages < required_table_size src"
    using new by (auto simp: msi_page_table_new_def Let_def result_bind_Ok split: if_splits)
  have w: "unat (index_bits src) < 52"
    using geometry_index_bits [OF wf(1)] by simp
  have "(2 :: nat) ^ unat (index_bits src) < 2 ^ 52"
    using w by (rule power_strict_increasing) simp
  then have "unat (shl 1 (index_bits src)) * unat (16 :: u64) < 2 ^ 64"
    using shl_1 [of "index_bits src"] w by simp
  then have "unat (shl 1 (index_bits src) * 16) = 2 ^ unat (index_bits src) * 16"
    using unat_mult_u64 [of "shl 1 (index_bits src)" 16] shl_1 [of "index_bits src"] w by simp
  moreover have "shl 1 (index_bits src) * 16 \<le> seq_length_bytes pages"
    using sz by (simp add: required_table_size_def not_less)
  ultimately show ?thesis
    using wf ok t msi_length [OF ok] by (simp add: msi_table_ok_def word_le_nat_alt)
qed

lemma msi_entry_bounds:
  assumes ok: "msi_table_ok t" and v: "location_is_valid (mpt_src_geometry t) loc"
  obtains i e where "msi_index_from (mpt_src_geometry t) loc = Some i" "msi_entry_for_index t i = Some e"
    "unat e = addr_nat (seq_addr (mpt_pages t)) + 16 * unat i"
    "unat e + 16 \<le> addr_nat (seq_addr (mpt_pages t)) + 4096 * unat (seq_count (mpt_pages t))"
proof -
  let ?p = "mpt_pages t" and ?a = "addr_nat (seq_addr (mpt_pages t))"
  obtain i where i: "msi_index_from (mpt_src_geometry t) loc = Some i"
    using v by (simp add: msi_index_from_def)
  have "unat i < 2 ^ unat (index_bits (mpt_src_geometry t))"
    using msi_index_fields(4) [OF _ i] ok by (simp add: msi_table_ok_def)
  then have lt: "16 * unat i + 16 \<le> 4096 * unat (seq_count ?p)"
    using ok unfolding msi_table_ok_def by linarith
  have p: "msi_pages_ok ?p"
    using ok by (simp add: msi_table_ok_def)
  then have b: "0 < ?a" "?a + 4096 * unat (seq_count ?p) \<le> 2 ^ 64"
    by (simp_all add: msi_pages_ok_def)
  have m: "unat (16 * i) = 16 * unat i"
    using unat_mult_u64 [of 16 i] lt b by simp
  have e: "unat (page_addr_bits (seq_addr ?p) + 16 * i) = ?a + 16 * unat i"
    using unat_add_u64 [of "page_addr_bits (seq_addr ?p)" "16 * i"] lt b m by (simp add: addr_nat_def)
  then have "page_addr_bits (seq_addr ?p) + 16 * i \<noteq> 0"
    using b(1) by (metis add_is_0 less_irrefl unsigned_0)
  moreover have "\<not> seq_length_bytes ?p div 16 \<le> i"
    using lt by (simp add: word_le_nat_alt unat_div msi_length [OF p] not_le)
  ultimately have "msi_entry_for_index t i = Some (page_addr_bits (seq_addr ?p) + 16 * i)"
    by (simp add: msi_entry_for_index_def)
  then show thesis
    using that [OF i] e lt by simp
qed

text \<open>
  C35: the entry of every valid interrupt-file location lies inside the pages of the table. For a table that
  the constructor accepts, on 4kB pages inside the address space and not at address 0, the index of a valid
  location is in range, so the lookups that are unwrapped never panic; the 16 bytes of its entry are between
  the first and the last byte of the pages and aligned to 16; and two locations share an entry only when
  group, hart and file number agree.
\<close>

theorem msi_entry_in_bounds:
  assumes "msi_page_table_new pages src dest tracker owner = Ok t"
    and "geometry_wf src" and "geometry_wf dest" and "msi_pages_ok pages"
  shows "(\<forall>loc. location_is_valid src loc \<longrightarrow> (\<exists>i e. msi_index_from src loc = Some i \<and> msi_entry_for_index t i = Some e
            \<and> addr_nat (seq_addr pages) \<le> unat e \<and> unat e + 16 \<le> addr_nat (seq_addr pages) + 4096 * unat (seq_count pages)
            \<and> 16 dvd unat e))
    \<and> (\<forall>loc loc' i j e. msi_index_from src loc = Some i \<and> msi_index_from src loc' = Some j
          \<and> msi_entry_for_index t i = Some e \<and> msi_entry_for_index t j = Some e \<longrightarrow>
          loc_group loc = loc_group loc' \<and> loc_hart loc = loc_hart loc'
          \<and> file_id_bits (loc_file loc) = file_id_bits (loc_file loc'))"
proof -
  have t: "t = \<lparr>mpt_pages = pages, mpt_src_geometry = src, mpt_dest_geometry = dest, mpt_owner = owner\<rparr>"
    and ok: "msi_table_ok t"
    using msi_page_table_new_ok [OF assms] by auto
  have al: "16 dvd addr_nat (seq_addr pages)"
    using assms(4) dvd_trans [of 16 4096 "addr_nat (seq_addr pages)"] by (simp add: msi_pages_ok_def page_addr_wf_iff)
  have "\<exists>i e. msi_index_from src loc = Some i \<and> msi_entry_for_index t i = Some e
      \<and> addr_nat (seq_addr pages) \<le> unat e \<and> unat e + 16 \<le> addr_nat (seq_addr pages) + 4096 * unat (seq_count pages)
      \<and> 16 dvd unat e" if "location_is_valid src loc" for loc
    using msi_entry_bounds [OF ok, of loc] that al t by (metis (no_types, lifting) dvd_add dvd_triv_left le_add1 msi_page_table.select_convs(1,2))
  moreover have "i = j" if "msi_index_from src loc = Some i" "msi_index_from src loc' = Some j"
    "msi_entry_for_index t i = Some e" "msi_entry_for_index t j = Some e" for loc loc' i j e
  proof -
    have "location_is_valid src loc" "location_is_valid src loc'"
      using that by (auto simp: msi_index_from_def split: if_splits)
    then have "unat e = addr_nat (seq_addr pages) + 16 * unat i" "unat e = addr_nat (seq_addr pages) + 16 * unat j"
      using msi_entry_bounds [OF ok] that t by (metis msi_page_table.select_convs(1,2) option.inject)+
    then show "i = j"
      by (simp add: word_unat_eq_iff)
  qed
  ultimately show ?thesis
    using msi_index_inj [OF assms(2)] by blast
qed

section \<open>Mapping and unmapping\<close>

lemma msi_pte_set_valid: "msi_pte_valid (msi_pte_set p)"
proof -
  have "(push_bit 10 x OR 1 OR 4) AND 5 = (5 :: u64)" for x :: u64
  proof (rule bit_eqI)
    fix i
    have five: "(5 :: u64) = 1 OR 4"
      by simp
    show "bit ((push_bit 10 x OR 1 OR 4) AND 5) i = bit (5 :: u64) i"
      unfolding five by (auto simp: bit_simps)
  qed
  then show ?thesis
    by (simp add: msi_pte_valid_def msi_pte_set_def MSI_PTE_PFN_SHIFT_def MSI_PTE_VALID_def MSI_PTE_WRITE_def)
qed

lemma msi_pte_set_pfn: "drop_bit 10 (msi_pte_set (page_addr_pfn a)) = pfn_bits (page_addr_pfn a)"
proof -
  have "drop_bit 10 (push_bit 10 (x AND PFN_MASK) OR 1 OR 4) = x AND PFN_MASK" for x :: u64
  proof (rule bit_eqI)
    fix i assume "possible_bit TYPE(u64) i"
    have m: "PFN_MASK = mask 44"
      by (simp add: PFN_MASK_def PFN_BITS_def mask_eq_exp_minus_1)
    have four: "(4 :: u64) = push_bit 2 1"
      by simp
    show "bit (drop_bit 10 (push_bit 10 (x AND PFN_MASK) OR 1 OR 4)) i = bit (x AND PFN_MASK) i"
      unfolding m four by (auto simp: bit_simps)
  qed
  then show ?thesis
    by (simp add: msi_pte_set_def page_addr_pfn_def MSI_PTE_PFN_SHIFT_def MSI_PTE_VALID_def MSI_PTE_WRITE_def)
qed

text \<open>
  C36: interrupts of devices can only be directed at interrupt files of the table's owner. On a well-formed
  table \<open>map\<close> and \<open>remap\<close> never panic and leave memory alone on an error. On success the source location is
  valid, the destination is an interrupt file that the page tracker holds as mapped memory of the owner, the
  entry was free (in use, for \<open>remap\<close>), exactly that entry has changed, it is valid and holds the frame of the
  destination, and unmapping the location succeeds and clears it.
\<close>

theorem msi_map_owned:
  assumes "msi_table_ok t"
  shows "\<forall>(op, was) \<in> {(msi_map, False), (msi_remap, True)}.
    case op t tracker m src dest of
      (Ok _, m') \<Rightarrow> \<exists>i e a. msi_index_from (mpt_src_geometry t) src = Some i \<and> msi_entry_for_index t i = Some e
        \<and> location_to_addr (mpt_dest_geometry t) dest = Some a \<and> is_mapped_page tracker a (mpt_owner t) (Mmio Imsic)
        \<and> msi_pte_valid (m e) = was \<and> (\<forall>x. x \<noteq> e \<longrightarrow> m' x = m x)
        \<and> msi_pte_valid (m' e) \<and> drop_bit 10 (m' e) = pfn_bits (page_addr_pfn a)
        \<and> msi_unmap t m' src = (Ok (), m'(e := 0))
    | (Err err, m') \<Rightarrow> m' = m
    | (Panic, m') \<Rightarrow> False"
proof -
  have entry: "\<exists>e. msi_entry_for_index t i = Some e" if "msi_index_from (mpt_src_geometry t) src = Some i" for i
    using msi_entry_bounds [OF assms, of src] that
    by (metis msi_index_from_def option.inject option.simps(3))
  have dest: "msi_dest t tracker dest \<noteq> Panic"
    "msi_dest t tracker dest = Ok a \<Longrightarrow> location_to_addr (mpt_dest_geometry t) dest = Some a
       \<and> is_mapped_page tracker a (mpt_owner t) (Mmio Imsic)" for a
    by (cases "location_to_addr (mpt_dest_geometry t) dest"; auto simp: msi_dest_def split: if_splits)+
  have unmap: "msi_unmap t m' src = (Ok (), m'(e := 0))"
    if "msi_index_from (mpt_src_geometry t) src = Some i" "msi_entry_for_index t i = Some e" "msi_pte_valid (m' e)" for m' i e
    using that by (simp add: msi_unmap_def msi_pte_clear_def)
  show ?thesis
  proof (cases "msi_dest t tracker dest")
    case (Ok a)
    show ?thesis
    proof (cases "msi_index_from (mpt_src_geometry t) src")
      case (Some i)
      then obtain e where e: "msi_entry_for_index t i = Some e"
        using entry by blast
      show ?thesis
        using Ok Some e dest(2) [OF Ok] unmap [OF Some e] msi_pte_set_valid msi_pte_set_pfn
        by (simp add: msi_map_def msi_remap_def)
    qed (use Ok in \<open>simp add: msi_map_def msi_remap_def\<close>)
  qed (use dest(1) in \<open>simp_all add: msi_map_def msi_remap_def\<close>)
qed

section \<open>Witnesses\<close>

definition msi_example_pages :: seq_pages where
  "msi_example_pages = \<lparr>seq_addr = PageAddr (raw_supervisor 0x80000000), seq_page_size = Size4k, seq_count = 1,
                        seq_state = StInternalClean\<rparr>"

definition msi_example_tracker :: page_tracker where
  "msi_example_tracker =
     \<lparr>next_owner_id = 2,
      active_guests = \<lparr>pv_items = [owner_host], pv_capacity = 4,
                       pv_base = PageAddr (raw_supervisor 0x70000000), pv_page_size = Size4k\<rparr>,
      tracker_pages =
        \<lparr>pm_pages = \<lparr>pv_items = [\<lparr>info_mem_type = Mmio Imsic, info_state = Mapped, info_owners = [owner_host], info_link = None\<rparr>,
                                 \<lparr>info_mem_type = Ram, info_state = VmState, info_owners = [owner_host], info_link = None\<rparr>],
                     pv_capacity = 85, pv_base = PageAddr (raw_supervisor 0x70001000), pv_page_size = Size4k\<rparr>,
         pm_sparse_map = [\<lparr>base_pfn = 0x28000, num_pages = 1, page_map_index = 0\<rparr>,
                          \<lparr>base_pfn = 0x80000, num_pages = 1, page_map_index = 1\<rparr>]\<rparr>\<rparr>"

definition msi_example_geometry :: "'as \<Rightarrow> 'as imsic_geometry" where
  "msi_example_geometry sp = \<lparr>geo_base_addr = PageAddr (RawAddr 0x28000000 sp), group_index_bits = 0, group_index_shift = 24,
                              hart_index_bits = 1, guest_index_bits = 0, guests_per_hart = 0\<rparr>"

definition msi_example_table :: msi_page_table where
  "msi_example_table = \<lparr>mpt_pages = msi_example_pages, mpt_src_geometry = msi_example_geometry (GuestPhys owner_host),
                        mpt_dest_geometry = msi_example_geometry SupervisorPhys, mpt_owner = owner_host\<rparr>"

lemma msi_example_wf: "geometry_wf (msi_example_geometry sp)" "msi_pages_ok msi_example_pages"
  by (simp_all add: geometry_wf_def msi_example_geometry_def index_mask_def gen_mask_def shl_def GUEST_INDEX_SHIFT_def
      page_addr_bits_def page_addr_wf_iff msi_pages_ok_def msi_example_pages_def raw_supervisor_def)

lemma msi_example_new:
  "msi_page_table_new msi_example_pages (msi_example_geometry (GuestPhys owner_host)) (msi_example_geometry SupervisorPhys)
     msi_example_tracker owner_host = Ok msi_example_table"
proof -
  have sz: "required_table_size (msi_example_geometry (GuestPhys owner_host)) = 4096"
    by (simp add: required_table_size_def msi_example_geometry_def index_bits_def shl_def)
  have st: "is_internal_state_page msi_example_tracker (PageAddr (RawAddr 0x80000000 SupervisorPhys)) owner_host"
    by (simp add: is_internal_state_page_def tracker_check_def page_map_get_def get_map_index_def msi_example_tracker_def
        entry_covers_def pv_get_def info_owner_def page_addr_index_def page_addr_pfn_def page_addr_bits_def PFN_SHIFT_def
        PFN_MASK_def PFN_BITS_def)
  show ?thesis
    unfolding msi_page_table_new_def sz
    using st by (simp add: msi_example_pages_def msi_example_table_def seq_length_bytes_def page_addr_bits_def
        raw_supervisor_def page_addr_iter_from_def page_addr_iter_new_def page_addr_with_alignment_def
        page_size_is_aligned_iff page_addr_iter_take.simps(2) [of 0, simplified] page_addr_iter_step_def)
qed

theorem msi_entry_in_bounds_witness:
  "\<exists>i e. msi_index_from (msi_example_geometry (GuestPhys owner_host))
           \<lparr>loc_group = ImsicGroupId 0, loc_hart = ImsicHartId 1, loc_file = Supervisor\<rparr> = Some i
     \<and> msi_entry_for_index msi_example_table i = Some e \<and> unat e + 16 \<le> 0x80001000"
proof -
  have "location_is_valid (msi_example_geometry (GuestPhys owner_host))
      \<lparr>loc_group = ImsicGroupId 0, loc_hart = ImsicHartId 1, loc_file = Supervisor\<rparr>"
    by (simp add: location_is_valid_def msi_example_geometry_def shl_def)
  then show ?thesis
    using msi_entry_in_bounds [OF msi_example_new msi_example_wf(1) msi_example_wf(1) msi_example_wf(2)]
    by (fastforce simp: msi_example_pages_def raw_supervisor_def)
qed

theorem msi_map_owned_witness:
  "case msi_map msi_example_table msi_example_tracker (\<lambda>_. 0)
          \<lparr>loc_group = ImsicGroupId 0, loc_hart = ImsicHartId 1, loc_file = Supervisor\<rparr>
          \<lparr>loc_group = ImsicGroupId 0, loc_hart = ImsicHartId 0, loc_file = Supervisor\<rparr> of
     (res, m') \<Rightarrow> res \<noteq> Panic"
proof -
  have "msi_table_ok msi_example_table"
    using msi_page_table_new_ok [OF msi_example_new msi_example_wf(1) msi_example_wf(1) msi_example_wf(2)] by simp
  from msi_map_owned [OF this, where tracker = msi_example_tracker and m = "\<lambda>_. 0"
      and src = "\<lparr>loc_group = ImsicGroupId 0, loc_hart = ImsicHartId 1, loc_file = Supervisor\<rparr>"
      and dest = "\<lparr>loc_group = ImsicGroupId 0, loc_hart = ImsicHartId 0, loc_file = Supervisor\<rparr>"]
  show ?thesis
    by (auto split: prod.splits result.splits)
qed

end
