(* ===== verification/Device_Directory.thy ===== *)
theory Device_Directory
  imports Msi_Page_Table Pte_Pool First_Stage
begin

text \<open>
  The device directory of the IOMMU (\<open>drivers/src/iommu/device_directory.rs\<close>): a tree of tables in memory
  that leads from a device's ID to its device context, which says how its DMA is translated. The directory is
  behind a mutex, so each operation is an atomic step on memory.
\<close>

section \<open>Device IDs\<close>

definition DEVICE_ID_BITS :: nat where "DEVICE_ID_BITS = 24"

definition LEAF_INDEX_BITS :: nat where "LEAF_INDEX_BITS = 6"

definition NON_LEAF_INDEX_BITS :: nat where "NON_LEAF_INDEX_BITS = 9"

definition device_id_new :: "u32 \<Rightarrow> device_id option" where
  "device_id_new val =
     (if val AND NOT (push_bit DEVICE_ID_BITS 1 - 1) = 0 then Some (DeviceId val) else None)"

definition level_index_bits :: "device_id \<Rightarrow> nat \<Rightarrow> u64" where
  "level_index_bits d level =
     (if level = 0 then ucast (device_id_bits d) AND (push_bit LEAF_INDEX_BITS 1 - 1)
      else drop_bit (LEAF_INDEX_BITS + NON_LEAF_INDEX_BITS * (level - 1)) (ucast (device_id_bits d))
           AND (push_bit NON_LEAF_INDEX_BITS 1 - 1))"

definition device_id_try_from :: "pci_address \<Rightarrow> device_id iommu_result" where
  "device_id_try_from address = ok_or (device_id_new (pci_bits address)) (PciAddressTooLarge address)"

section \<open>Device contexts\<close>

text \<open>A device context is 64 bytes of memory; its fields are the words at these offsets.\<close>

definition DC_TC :: u64 where "DC_TC = 0"
definition DC_IOHGATP :: u64 where "DC_IOHGATP = 8"
definition DC_FSC :: u64 where "DC_FSC = 16"
definition DC_TA :: u64 where "DC_TA = 24"
definition DC_MSIPTP :: u64 where "DC_MSIPTP = 32"
definition DC_MSI_ADDR_MASK :: u64 where "DC_MSI_ADDR_MASK = 40"
definition DC_MSI_ADDR_PATTERN :: u64 where "DC_MSI_ADDR_PATTERN = 48"

lemmas dc_offsets = DC_TC_def DC_IOHGATP_def DC_FSC_def DC_TA_def DC_MSIPTP_def DC_MSI_ADDR_MASK_def DC_MSI_ADDR_PATTERN_def

definition DC_VALID :: u64 where "DC_VALID = push_bit 0 1"

definition DC_SW_INVALIDATED :: u64 where "DC_SW_INVALIDATED = push_bit 31 1"

definition dc_init :: "mem \<Rightarrow> u64 \<Rightarrow> mem" where
  "dc_init m dc = m(dc + DC_TC := DC_SW_INVALIDATED, dc + DC_IOHGATP := 0, dc + DC_FSC := 0, dc + DC_TA := 0,
     dc + DC_MSIPTP := 0, dc + DC_MSI_ADDR_MASK := 0, dc + DC_MSI_ADDR_PATTERN := 0)"

definition dc_present :: "mem \<Rightarrow> u64 \<Rightarrow> bool" where
  "dc_present m dc \<longleftrightarrow> m (dc + DC_TC) AND (DC_VALID OR DC_SW_INVALIDATED) \<noteq> 0"

definition dc_valid :: "mem \<Rightarrow> u64 \<Rightarrow> bool" where
  "dc_valid m dc \<longleftrightarrow> m (dc + DC_TC) AND DC_VALID \<noteq> 0"

text \<open>The mode of the page table, a constant of its paging mode, is an argument.\<close>

definition dc_set :: "u64 \<Rightarrow> mem \<Rightarrow> u64 \<Rightarrow> guest_stage_table \<Rightarrow> msi_page_table \<Rightarrow> gsc_id \<Rightarrow> mem" where
  "dc_set hgatp_mode m dc pt msi_pt gscid =
     (let (addr, mask) = msi_address_pattern msi_pt in
      m(dc + DC_MSIPTP := pfn_bits (page_addr_pfn (seq_addr (mpt_pages msi_pt))) OR push_bit 60 0x1,
        dc + DC_MSI_ADDR_MASK := drop_bit PFN_SHIFT mask,
        dc + DC_MSI_ADDR_PATTERN := pfn_bits (page_addr_pfn addr),
        dc + DC_IOHGATP := pfn_bits (page_addr_pfn (seq_addr (gst_root pt)))
          OR push_bit 44 (ucast (gsc_id_bits gscid)) OR push_bit 60 hgatp_mode,
        dc + DC_TC := DC_VALID))"

definition dc_invalidate :: "mem \<Rightarrow> u64 \<Rightarrow> mem" where
  "dc_invalidate m dc = m(dc + DC_TC := DC_SW_INVALIDATED)"

section \<open>Tables\<close>

definition NL_PFN_BITS :: nat where "NL_PFN_BITS = 44"

definition NL_PFN_MASK :: u64 where "NL_PFN_MASK = push_bit NL_PFN_BITS 1 - 1"

definition NL_PFN_SHIFT :: nat where "NL_PFN_SHIFT = 10"

definition NL_VALID :: u64 where "NL_VALID = 1"

definition nle_valid :: "u64 \<Rightarrow> bool" where
  "nle_valid v \<longleftrightarrow> v AND NL_VALID \<noteq> 0"

definition nle_pfn :: "u64 \<Rightarrow> supervisor_phys pfn" where
  "nle_pfn v = pfn_supervisor (drop_bit NL_PFN_SHIFT v AND NL_PFN_MASK)"

definition nle_set :: "supervisor_phys pfn \<Rightarrow> u64" where
  "nle_set p = push_bit NL_PFN_SHIFT (pfn_bits p) OR NL_VALID"

record dd_table =
  ddt_table_addr :: supervisor_page_addr
  ddt_level :: nat

datatype dd_entry = PresentLeaf u64 | NotPresentLeaf u64 | NextLevel dd_table | InvalidEntry u64 nat

record device_directory =
  dd_root :: page
  dd_num_levels :: nat

definition dd_table_from_root :: "device_directory \<Rightarrow> dd_table" where
  "dd_table_from_root d = \<lparr>ddt_table_addr = page_base (dd_root d), ddt_level = dd_num_levels d - 1\<rparr>"

definition from_non_leaf_entry :: "u64 \<Rightarrow> nat \<Rightarrow> dd_table option iommu_result" where
  "from_non_leaf_entry nle level =
     (if nle_valid nle
      then result_bind (unwrap_option (page_addr_from_pfn (nle_pfn nle) Size4k))
             (\<lambda>a. Ok (Some \<lparr>ddt_table_addr = a, ddt_level = level\<rparr>))
      else Ok None)"

definition ddt_is_leaf :: "dd_table \<Rightarrow> bool" where
  "ddt_is_leaf t \<longleftrightarrow> ddt_level t = 0"

text \<open>An entry is the address of its context or word. The unwrap of the pointer panics when it is null.\<close>

definition entry_for_id :: "mem \<Rightarrow> dd_table \<Rightarrow> device_id \<Rightarrow> dd_entry iommu_result" where
  "entry_for_id m t d =
     (let index = level_index_bits d (ddt_level t) in
      if ddt_is_leaf t then
        let dc = page_addr_bits (ddt_table_addr t) + 64 * index
        in if dc = 0 then Panic else Ok (if dc_present m dc then PresentLeaf dc else NotPresentLeaf dc)
      else
        let nle = page_addr_bits (ddt_table_addr t) + 8 * index
        in if nle = 0 then Panic
           else if nle_valid (m nle)
           then result_bind (from_non_leaf_entry (m nle) (ddt_level t - 1))
                  (\<lambda>next_t. result_bind (unwrap_option next_t) (\<lambda>table. Ok (NextLevel table)))
           else Ok (InvalidEntry nle (ddt_level t - 1)))"

definition dd_next_level_or_fill ::
    "'s pte_supply \<Rightarrow> 's \<times> mem \<Rightarrow> dd_table \<Rightarrow> device_id \<Rightarrow> dd_table iommu_result \<times> 's \<times> mem" where
  "dd_next_level_or_fill get_page sm t d =
     (case entry_for_id (snd sm) t d of
        Ok (NextLevel t') \<Rightarrow> (Ok t', sm)
      | Ok (InvalidEntry nle level) \<Rightarrow>
          (case get_page sm of
             (None, sm') \<Rightarrow> (Err OutOfPages, sm')
           | (Some page, s', m') \<Rightarrow>
               let v = nle_set (page_addr_pfn (page_base page))
               in (result_bind (from_non_leaf_entry v level) unwrap_option, s', m'(nle := v)))
      | Ok _ \<Rightarrow> (Err NotIntermediateTable, sm)
      | Err e \<Rightarrow> (Err e, sm)
      | Panic \<Rightarrow> (Panic, sm))"

lemma entry_for_id_level: "entry_for_id m t d = Ok (NextLevel t') \<Longrightarrow> ddt_level t' < ddt_level t"
  by (auto simp: entry_for_id_def ddt_is_leaf_def from_non_leaf_entry_def Let_def result_bind_Ok split: if_splits)

text \<open>The loop of \<open>get_context_for_id\<close>.\<close>

function dd_walk :: "mem \<Rightarrow> dd_table \<Rightarrow> device_id \<Rightarrow> dd_entry iommu_result" where
  "dd_walk m t d =
     (case entry_for_id m t d of Ok (NextLevel t') \<Rightarrow> dd_walk m t' d | r \<Rightarrow> r)"
  by pat_completeness auto
termination
  by (relation "measure (\<lambda>(m, t, d). ddt_level t)") (auto intro: entry_for_id_level)

declare dd_walk.simps [simp del]

definition get_context_for_id :: "mem \<Rightarrow> device_directory \<Rightarrow> device_id \<Rightarrow> u64 option iommu_result" where
  "get_context_for_id m dir d =
     result_bind (dd_walk m (dd_table_from_root dir) d)
       (\<lambda>e. Ok (case e of PresentLeaf dc \<Rightarrow> Some dc | _ \<Rightarrow> None))"

section \<open>The directory\<close>

definition DDT3_LEVELS :: nat where "DDT3_LEVELS = 3"

definition device_directory_new :: "page \<Rightarrow> device_directory" where
  "device_directory_new root = \<lparr>dd_root = root, dd_num_levels = DDT3_LEVELS\<rparr>"

definition dd_base_address :: "device_directory \<Rightarrow> supervisor_page_addr" where
  "dd_base_address dir = page_base (dd_root dir)"

text \<open>The loop of \<open>add_device\<close>: each turn goes down one level, so as many turns as there are levels are enough.\<close>

fun dd_fill ::
    "'s pte_supply \<Rightarrow> nat \<Rightarrow> 's \<times> mem \<Rightarrow> dd_table \<Rightarrow> device_id \<Rightarrow> dd_table iommu_result \<times> 's \<times> mem" where
  "dd_fill get_page 0 sm t d = (if ddt_is_leaf t then Ok t else Panic, sm)"
| "dd_fill get_page (Suc n) sm t d =
     (if ddt_is_leaf t then (Ok t, sm)
      else case dd_next_level_or_fill get_page sm t d of
             (Ok t', sm') \<Rightarrow> dd_fill get_page n sm' t' d
           | (Err e, sm') \<Rightarrow> (Err e, sm')
           | (Panic, sm') \<Rightarrow> (Panic, sm'))"

definition add_device ::
    "'s pte_supply \<Rightarrow> 's \<times> mem \<Rightarrow> device_directory \<Rightarrow> device_id \<Rightarrow> unit iommu_result \<times> 's \<times> mem" where
  "add_device get_page sm dir d =
     (case dd_fill get_page (dd_num_levels dir) sm (dd_table_from_root dir) d of
        (Ok table, s, m) \<Rightarrow>
          (case entry_for_id m table d of
             Ok (NotPresentLeaf dc) \<Rightarrow> (Ok (), s, dc_init m dc)
           | Ok _ \<Rightarrow> (Ok (), s, m)
           | Err e \<Rightarrow> (Err e, s, m)
           | Panic \<Rightarrow> (Panic, s, m))
      | (Err e, sm') \<Rightarrow> (Err e, sm')
      | (Panic, sm') \<Rightarrow> (Panic, sm'))"

definition enable_device ::
    "u64 \<Rightarrow> mem \<Rightarrow> device_directory \<Rightarrow> device_id \<Rightarrow> guest_stage_table \<Rightarrow> msi_page_table \<Rightarrow> gsc_id
      \<Rightarrow> unit iommu_result \<times> mem" where
  "enable_device hgatp_mode m dir d pt msi_pt gscid =
     (if gst_owner pt \<noteq> mpt_owner msi_pt then (Err IommuOwnerMismatch, m)
      else case get_context_for_id m dir d of
        Ok (Some dc) \<Rightarrow>
          if dc_valid m dc then (Err (DeviceAlreadyEnabled d), m)
          else (Ok (), dc_set hgatp_mode m dc pt msi_pt gscid)
      | Ok None \<Rightarrow> (Err (DeviceNotFound d), m)
      | Err e \<Rightarrow> (Err e, m)
      | Panic \<Rightarrow> (Panic, m))"

definition disable_device :: "mem \<Rightarrow> device_directory \<Rightarrow> device_id \<Rightarrow> unit iommu_result \<times> mem" where
  "disable_device m dir d =
     (case get_context_for_id m dir d of
        Ok (Some dc) \<Rightarrow>
          if \<not> dc_valid m dc then (Err (DeviceNotEnabled d), m) else (Ok (), dc_invalidate m dc)
      | Ok None \<Rightarrow> (Err (DeviceNotFound d), m)
      | Err e \<Rightarrow> (Err e, m)
      | Panic \<Rightarrow> (Panic, m))"

section \<open>The invariant of the tree\<close>

definition id_nat :: "device_id \<Rightarrow> nat" where
  "id_nat d = unat (device_id_bits d)"

text \<open>The promise of the type, and the number of the table of a level that an ID goes through.\<close>

definition device_id_ok :: "device_id \<Rightarrow> bool" where
  "device_id_ok d \<longleftrightarrow> id_nat d < 2 ^ DEVICE_ID_BITS"

definition id_prefix :: "device_id \<Rightarrow> nat \<Rightarrow> nat" where
  "id_prefix d level = id_nat d div 2 ^ (6 + 9 * level)"

text \<open>The tables of a directory: from the address of each to its level and its number.\<close>

type_synonym dd_tables = "u64 \<Rightarrow> (nat \<times> nat) option"

definition dd_inv :: "device_directory \<Rightarrow> dd_tables \<Rightarrow> mem \<Rightarrow> bool" where
  "dd_inv dir T m \<longleftrightarrow>
     dd_num_levels dir = 3 \<and> T (page_addr_bits (page_base (dd_root dir))) = Some (2, 0)
   \<and> (\<forall>t l p. T t = Some (l, p) \<longrightarrow> 4096 dvd unat t \<and> 0 < unat t \<and> unat t + 4096 \<le> 2 ^ 56)
   \<and> (\<forall>t l p i. T t = Some (Suc l, p) \<longrightarrow> i < 512 \<longrightarrow> nle_valid (m (t + 8 * word_of_nat i)) \<longrightarrow>
        T (push_bit PFN_SHIFT (pfn_bits (nle_pfn (m (t + 8 * word_of_nat i))))) = Some (l, 512 * p + i))"

lemma dd_inv_table:
  "dd_inv dir T m \<Longrightarrow> T t = Some (l, p) \<Longrightarrow> 4096 dvd unat t \<and> 0 < unat t \<and> unat t + 4096 \<le> 2 ^ 56"
  unfolding dd_inv_def by blast

lemma dd_inv_next:
  "dd_inv dir T m \<Longrightarrow> T t = Some (Suc l, p) \<Longrightarrow> i < 512 \<Longrightarrow> nle_valid (m (t + 8 * word_of_nat i))
   \<Longrightarrow> T (push_bit PFN_SHIFT (pfn_bits (nle_pfn (m (t + 8 * word_of_nat i))))) = Some (l, 512 * p + i)"
  unfolding dd_inv_def by blast

lemma unat_ucast_u32: "unat (ucast (x :: u32) :: u64) = unat x"
proof -
  have "unat x < 2 ^ 32"
    using unsigned_less [of x] by simp
  then show ?thesis
    by (simp add: unsigned_ucast_eq take_bit_nat_eq_self)
qed

lemma unat_level_index:
  "unat (level_index_bits d 0) = id_nat d mod 64"
  "unat (level_index_bits d (Suc l)) = id_prefix d l mod 512"
proof -
  have m: "unat (x AND (push_bit k 1 - 1)) = unat x mod 2 ^ k" if "k < 64" for x :: u64 and k
  proof -
    have "push_bit k (1 :: u64) = 2 ^ k"
      by (simp add: push_bit_eq_mult)
    then show ?thesis
      using that by (simp only: and_exp_minus_1)
  qed
  show "unat (level_index_bits d 0) = id_nat d mod 64"
    using m [of 6] by (simp add: level_index_bits_def LEAF_INDEX_BITS_def unat_ucast_u32 id_nat_def)
  have "unat (level_index_bits d (Suc l)) = unat (drop_bit (6 + 9 * l) (ucast (device_id_bits d) :: u64)) mod 2 ^ 9"
    using m [of 9] by (simp add: level_index_bits_def LEAF_INDEX_BITS_def NON_LEAF_INDEX_BITS_def)
  then show "unat (level_index_bits d (Suc l)) = id_prefix d l mod 512"
    by (simp only: unat_drop_bit_u64 unat_ucast_u32 id_prefix_def id_nat_def) simp
qed

lemma id_prefix_step: "512 * id_prefix d (Suc l) + id_prefix d l mod 512 = id_prefix d l"
proof -
  have "id_prefix d (Suc l) = id_prefix d l div 512"
    by (simp add: id_prefix_def power_add div_mult2_eq [symmetric])
  then show ?thesis
    by simp
qed

lemma id_prefix_top: "device_id_ok d \<Longrightarrow> id_prefix d 2 = 0"
  by (simp add: device_id_ok_def id_prefix_def DEVICE_ID_BITS_def)

text \<open>The address of a word of a table.\<close>

lemma unat_table_word:
  fixes t w :: u64
  assumes "unat t + 4096 \<le> 2 ^ 56" and "unat w < 4096"
  shows "unat (t + w) = unat t + unat w"
  using assms by (intro unat_add_u64) simp

lemma table_word_inj:
  fixes t w :: u64
  assumes "4096 dvd unat t" "4096 dvd unat t'" "unat t + 4096 \<le> 2 ^ 56" "unat t' + 4096 \<le> 2 ^ 56" "unat w < 4096" "unat w' < 4096"
  shows "t + w = t' + w' \<longleftrightarrow> t = t' \<and> w = w'"
proof
  assume "t + w = t' + w'"
  then have e: "unat t + unat w = unat t' + unat w'"
    using assms unat_table_word by metis
  obtain k k' where k: "unat t = 4096 * k" "unat t' = 4096 * k'"
    using assms(1,2) by (auto elim!: dvdE)
  then have "(4096 * k + unat w) div 4096 = (4096 * k' + unat w') div 4096"
    using e by simp
  then have "k = k'"
    using assms(5,6) by simp
  then show "t = t' \<and> w = w'"
    using k e by (simp add: word_unat_eq_iff)
qed simp

lemma in_page_word:
  assumes "in_bytes t 4096 c"
  obtains w where "unat w < 4096" "c = t + w"
proof
  have le: "t \<le> c"
    using assms by (simp add: in_bytes_def word_le_nat_alt)
  show "unat (c - t) < 4096"
    using assms unat_sub_u64 [OF le] unfolding in_bytes_def by linarith
qed simp

lemma nle_addr: "i < 512 \<Longrightarrow> unat (8 * word_of_nat i :: u64) = 8 * i"
  by (simp add: unat_word_ariths unat_of_nat)

section \<open>Walking the tree\<close>

text \<open>The context of a device in the leaf table at an address.\<close>

definition dc_addr :: "u64 \<Rightarrow> device_id \<Rightarrow> u64" where
  "dc_addr t d = t + 64 * level_index_bits d 0"

definition leaf_entry :: "mem \<Rightarrow> u64 \<Rightarrow> dd_entry" where
  "leaf_entry m dc = (if dc_present m dc then PresentLeaf dc else NotPresentLeaf dc)"

lemma unat_dc_offset: "unat (64 * level_index_bits d 0) = 64 * (id_nat d mod 64)"
  by (subst unat_mult_u64) (simp_all add: unat_level_index)

lemma entry_for_leaf:
  assumes "dd_inv dir T m" and "T (page_addr_bits a) = Some (0, p)"
  shows "entry_for_id m \<lparr>ddt_table_addr = a, ddt_level = 0\<rparr> d = Ok (leaf_entry m (dc_addr (page_addr_bits a) d))"
proof -
  have t: "0 < unat (page_addr_bits a)" "unat (page_addr_bits a) + 4096 \<le> 2 ^ 56"
    using dd_inv_table [OF assms] by simp_all
  have "64 * (id_nat d mod 64) < 4096"
    by simp
  then have "unat (page_addr_bits a + 64 * level_index_bits d 0) \<noteq> 0"
    using t unat_table_word [OF t(2), of "64 * level_index_bits d 0"] by (simp add: unat_dc_offset)
  then have "page_addr_bits a + 64 * level_index_bits d 0 \<noteq> 0"
    by (metis unat_0)
  then show ?thesis
    by (simp add: entry_for_id_def ddt_is_leaf_def Let_def leaf_entry_def dc_addr_def)
qed

lemma entry_for_non_leaf:
  assumes inv: "dd_inv dir T m" and t: "T (page_addr_bits a) = Some (Suc l, id_prefix d (Suc l))"
  defines "nle \<equiv> page_addr_bits a + 8 * word_of_nat (id_prefix d l mod 512)"
  shows "if nle_valid (m nle)
    then \<exists>b. entry_for_id m \<lparr>ddt_table_addr = a, ddt_level = Suc l\<rparr> d = Ok (NextLevel \<lparr>ddt_table_addr = b, ddt_level = l\<rparr>)
      \<and> T (page_addr_bits b) = Some (l, id_prefix d l) \<and> page_addr_bits b = push_bit PFN_SHIFT (pfn_bits (nle_pfn (m nle)))
    else entry_for_id m \<lparr>ddt_table_addr = a, ddt_level = Suc l\<rparr> d = Ok (InvalidEntry nle l)"
proof -
  have ta: "0 < unat (page_addr_bits a)" "unat (page_addr_bits a) + 4096 \<le> 2 ^ 56"
    using dd_inv_table [OF inv t] by simp_all
  have ix: "level_index_bits d (Suc l) = word_of_nat (id_prefix d l mod 512)"
    by (simp add: unat_level_index(2) [symmetric])
  have lt: "id_prefix d l mod 512 < 512"
    by simp
  have "unat nle \<noteq> 0"
    using ta unat_table_word [OF ta(2), of "8 * word_of_nat (id_prefix d l mod 512)"] nle_addr [OF lt] unfolding nle_def by simp
  then have nz: "nle \<noteq> 0"
    by (metis unat_0)
  show ?thesis
  proof (cases "nle_valid (m nle)")
    case False
    then show ?thesis
      using nz by (simp add: entry_for_id_def ddt_is_leaf_def Let_def ix nle_def)
  next
    case True
    define b where "b = PageAddr (raw_supervisor (push_bit PFN_SHIFT (pfn_bits (nle_pfn (m nle)))))"
    have n: "T (push_bit PFN_SHIFT (pfn_bits (nle_pfn (m nle)))) = Some (l, id_prefix d l)"
      using dd_inv_next [OF inv t lt] True id_prefix_step [of d l] by (simp add: nle_def)
    then have al: "4096 dvd unat (push_bit PFN_SHIFT (pfn_bits (nle_pfn (m nle))))"
      using dd_inv_table [OF inv] by blast
    have "page_addr_from_pfn (nle_pfn (m nle)) Size4k = Some b"
      using al by (simp add: page_addr_from_pfn_def page_addr_with_alignment_def page_size_is_aligned_iff b_def
          nle_pfn_def pfn_supervisor_def raw_supervisor_def)
    then have "entry_for_id m \<lparr>ddt_table_addr = a, ddt_level = Suc l\<rparr> d = Ok (NextLevel \<lparr>ddt_table_addr = b, ddt_level = l\<rparr>)"
      using nz True by (simp add: entry_for_id_def ddt_is_leaf_def Let_def ix nle_def from_non_leaf_entry_def)
    then show ?thesis
      using True n by (auto simp: b_def page_addr_bits_def raw_supervisor_def)
  qed
qed

lemma dd_walk_correct:
  assumes inv: "dd_inv dir T m"
  shows "T (page_addr_bits a) = Some (l, id_prefix d l) \<Longrightarrow>
    (\<exists>t. T t = Some (0, id_prefix d 0) \<and> dd_walk m \<lparr>ddt_table_addr = a, ddt_level = l\<rparr> d = Ok (leaf_entry m (dc_addr t d)))
    \<or> (\<exists>nle k. dd_walk m \<lparr>ddt_table_addr = a, ddt_level = l\<rparr> d = Ok (InvalidEntry nle k))"
proof (induction l arbitrary: a)
  case 0
  then show ?case
    using entry_for_leaf [OF inv 0] dd_walk.simps [of m "\<lparr>ddt_table_addr = a, ddt_level = 0\<rparr>"]
    by (auto simp: leaf_entry_def)
next
  case (Suc l)
  let ?nle = "page_addr_bits a + 8 * word_of_nat (id_prefix d l mod 512)"
  note e = entry_for_non_leaf [OF inv Suc.prems]
  note step = dd_walk.simps [of m "\<lparr>ddt_table_addr = a, ddt_level = Suc l\<rparr>" d]
  show ?case
  proof (cases "nle_valid (m ?nle)")
    case True
    then obtain b where "entry_for_id m \<lparr>ddt_table_addr = a, ddt_level = Suc l\<rparr> d = Ok (NextLevel \<lparr>ddt_table_addr = b, ddt_level = l\<rparr>)"
      "T (page_addr_bits b) = Some (l, id_prefix d l)"
      using e by auto
    then show ?thesis
      using Suc.IH [of b] step by simp
  next
    case False
    then show ?thesis
      using e step by simp
  qed
qed

text \<open>The walk reads the words of the inner tables and, in the leaf table, whether the device is present.\<close>

definition inner_agree :: "dd_tables \<Rightarrow> mem \<Rightarrow> mem \<Rightarrow> bool" where
  "inner_agree T m m' \<longleftrightarrow>
     (\<forall>t l p i. T t = Some (Suc l, p) \<longrightarrow> i < 512 \<longrightarrow> m' (t + 8 * word_of_nat i) = m (t + 8 * word_of_nat i))"

lemma dd_inv_agree: "dd_inv dir T m \<Longrightarrow> inner_agree T m m' \<Longrightarrow> dd_inv dir T m'"
  unfolding dd_inv_def inner_agree_def by metis

definition reread_leaf :: "mem \<Rightarrow> dd_entry \<Rightarrow> dd_entry" where
  "reread_leaf m e = (case e of PresentLeaf dc \<Rightarrow> leaf_entry m dc | NotPresentLeaf dc \<Rightarrow> leaf_entry m dc | _ \<Rightarrow> e)"

lemma reread_leaf_entry [simp]: "reread_leaf m' (leaf_entry m dc) = leaf_entry m' dc" "reread_leaf m' (InvalidEntry n k) = InvalidEntry n k"
  by (simp_all add: reread_leaf_def leaf_entry_def)

lemma dd_walk_frame:
  assumes inv: "dd_inv dir T m" and ag: "inner_agree T m m'"
  shows "T (page_addr_bits a) = Some (l, id_prefix d l) \<Longrightarrow>
    dd_walk m' \<lparr>ddt_table_addr = a, ddt_level = l\<rparr> d
      = result_bind (dd_walk m \<lparr>ddt_table_addr = a, ddt_level = l\<rparr> d) (\<lambda>e. Ok (reread_leaf m' e))"
proof (induction l arbitrary: a)
  case 0
  note e = entry_for_leaf [OF inv 0] entry_for_leaf [OF dd_inv_agree [OF inv ag] 0]
  show ?case
    unfolding dd_walk.simps [of _ "\<lparr>ddt_table_addr = a, ddt_level = 0\<rparr>"] e by (auto simp: leaf_entry_def reread_leaf_def)
next
  case (Suc l)
  let ?nle = "page_addr_bits a + 8 * word_of_nat (id_prefix d l mod 512)"
  have same: "m' ?nle = m ?nle"
    using ag Suc.prems by (simp add: inner_agree_def)
  note e = entry_for_non_leaf [OF inv Suc.prems] entry_for_non_leaf [OF dd_inv_agree [OF inv ag] Suc.prems]
  show ?case
  proof (cases "nle_valid (m ?nle)")
    case True
    then obtain b b' where b: "entry_for_id m \<lparr>ddt_table_addr = a, ddt_level = Suc l\<rparr> d = Ok (NextLevel \<lparr>ddt_table_addr = b, ddt_level = l\<rparr>)"
      "entry_for_id m' \<lparr>ddt_table_addr = a, ddt_level = Suc l\<rparr> d = Ok (NextLevel \<lparr>ddt_table_addr = b', ddt_level = l\<rparr>)"
      "T (page_addr_bits b) = Some (l, id_prefix d l)" "page_addr_bits b' = page_addr_bits b"
      using e same by auto
    then have "b' = b"
      by (simp add: supervisor_addr_eq_iff addr_nat_def)
    then show ?thesis
      using b Suc.IH [OF b(3)] dd_walk.simps [of _ "\<lparr>ddt_table_addr = a, ddt_level = Suc l\<rparr>"] by simp
  next
    case False
    then show ?thesis
      using e same dd_walk.simps [of _ "\<lparr>ddt_table_addr = a, ddt_level = Suc l\<rparr>"] by simp
  qed
qed

lemma dd_root_table:
  assumes "dd_inv dir T m" and "device_id_ok d"
  shows "T (page_addr_bits (page_base (dd_root dir))) = Some (2, id_prefix d 2)"
    and "dd_table_from_root dir = \<lparr>ddt_table_addr = page_base (dd_root dir), ddt_level = 2\<rparr>"
  using assms by (simp_all add: dd_inv_def id_prefix_top dd_table_from_root_def)

section \<open>Contexts as values\<close>

record device_context =
  dc_tc :: u64
  dc_iohgatp :: u64
  dc_fsc :: u64
  dc_ta :: u64
  dc_msiptp :: u64
  dc_msi_addr_mask :: u64
  dc_msi_addr_pattern :: u64

definition dc_read :: "mem \<Rightarrow> u64 \<Rightarrow> device_context" where
  "dc_read m dc = \<lparr>dc_tc = m (dc + DC_TC), dc_iohgatp = m (dc + DC_IOHGATP), dc_fsc = m (dc + DC_FSC),
     dc_ta = m (dc + DC_TA), dc_msiptp = m (dc + DC_MSIPTP), dc_msi_addr_mask = m (dc + DC_MSI_ADDR_MASK),
     dc_msi_addr_pattern = m (dc + DC_MSI_ADDR_PATTERN)\<rparr>"

text \<open>What the IOMMU sees: the context of each device that was added.\<close>

definition dd_view :: "mem \<Rightarrow> device_directory \<Rightarrow> device_id \<Rightarrow> device_context option" where
  "dd_view m dir d = (case get_context_for_id m dir d of Ok (Some dc) \<Rightarrow> Some (dc_read m dc) | _ \<Rightarrow> None)"

lemma get_context_cases:
  assumes inv: "dd_inv dir T m" and ok: "device_id_ok d"
  obtains (found) t where "T t = Some (0, id_prefix d 0)" "get_context_for_id m dir d = Ok (Some (dc_addr t d))"
      "dc_present m (dc_addr t d)" "dd_walk m (dd_table_from_root dir) d = Ok (PresentLeaf (dc_addr t d))"
      "dd_view m dir d = Some (dc_read m (dc_addr t d))"
  | (none) "get_context_for_id m dir d = Ok None" "dd_view m dir d = None"
proof -
  consider t where "T t = Some (0, id_prefix d 0)" "dd_walk m (dd_table_from_root dir) d = Ok (leaf_entry m (dc_addr t d))"
    | nle k where "dd_walk m (dd_table_from_root dir) d = Ok (InvalidEntry nle k)"
    using dd_walk_correct [OF inv dd_root_table(1) [OF inv ok]] dd_root_table(2) [OF inv ok] by metis
  then show thesis
  proof cases
    case (1 t)
    then show ?thesis
      using found [of t] none by (cases "dc_present m (dc_addr t d)") (simp_all add: get_context_for_id_def dd_view_def leaf_entry_def)
  next
    case 2
    then show ?thesis
      using none by (simp add: get_context_for_id_def dd_view_def)
  qed
qed

text \<open>Every word of a context is inside its 64 bytes, and contexts of different devices do not meet.\<close>

lemma dc_words:
  assumes inv: "dd_inv dir T m" and t: "T t = Some (0, id_prefix d 0)" and off: "unat off < 64"
  shows "dc_addr t d + off = t + (64 * level_index_bits d 0 + off)"
    and "unat (64 * level_index_bits d 0 + off) = 64 * (id_nat d mod 64) + unat off"
    and "unat (64 * level_index_bits d 0 + off) < 4096"
proof -
  have lt: "64 * (id_nat d mod 64) + unat off < 4096"
    using off mod_less_divisor [of 64 "id_nat d"] by linarith
  show "dc_addr t d + off = t + (64 * level_index_bits d 0 + off)"
    by (simp add: dc_addr_def add.assoc)
  show "unat (64 * level_index_bits d 0 + off) = 64 * (id_nat d mod 64) + unat off"
    using lt by (subst unat_add_u64) (simp_all add: unat_dc_offset)
  then show "unat (64 * level_index_bits d 0 + off) < 4096"
    using lt by simp
qed

lemma dc_inj:
  assumes inv: "dd_inv dir T m" and t: "T t = Some (0, id_prefix d 0)" "T t' = Some (0, id_prefix d' 0)"
    and off: "unat off < 64" "unat off' < 64" and e: "dc_addr t d + off = dc_addr t' d' + off'"
  shows "d = d' \<and> off = off'"
proof -
  note w = dc_words [OF inv t(1) off(1)] and w' = dc_words [OF inv t(2) off(2)]
  have "t = t'" and s: "64 * level_index_bits d 0 + off = 64 * level_index_bits d' 0 + off'"
    using e table_word_inj [OF _ _ _ _ w(3) w'(3), of t t'] dd_inv_table [OF inv t(1)] dd_inv_table [OF inv t(2)] w(1) w'(1) by auto
  then have p: "id_nat d div 64 = id_nat d' div 64"
    using t by (simp add: id_prefix_def)
  have n: "64 * (id_nat d mod 64) + unat off = 64 * (id_nat d' mod 64) + unat off'"
    using s w(2) w'(2) by simp
  then have "(64 * (id_nat d mod 64) + unat off) div 64 = (64 * (id_nat d' mod 64) + unat off') div 64"
    by simp
  then have q: "id_nat d mod 64 = id_nat d' mod 64"
    using off by simp
  then have "id_nat d = id_nat d'"
    using p by (metis div_mult_mod_eq)
  then show ?thesis
    using n q by (cases d; cases d') (simp add: id_nat_def word_unat_eq_iff)
qed

definition dc_only :: "mem \<Rightarrow> mem \<Rightarrow> u64 \<Rightarrow> bool" where
  "dc_only m m' dc \<longleftrightarrow> (\<forall>c. m' c \<noteq> m c \<longrightarrow> (\<exists>off. unat off < 64 \<and> c = dc + off))"

lemma dc_only_writes:
  "dc_only m (dc_init m dc) dc" "dc_only m (dc_set h m dc pt msi_pt g) dc" "dc_only m (dc_invalidate m dc) dc"
  unfolding dc_only_def dc_init_def dc_set_def dc_invalidate_def dc_offsets
  by (auto simp: split_beta intro: exI [of _ 0] exI [of _ 8] exI [of _ 16] exI [of _ 24] exI [of _ 32] exI [of _ 40] exI [of _ 48])

lemma dc_only_agree:
  assumes inv: "dd_inv dir T m" and t: "T t = Some (0, id_prefix d 0)" and w: "dc_only m m' (dc_addr t d)"
  shows "inner_agree T m m'"
  unfolding inner_agree_def
proof (intro allI impI, rule ccontr)
  fix t' l p i
  assume t': "T t' = Some (Suc l, p)" and i: "(i :: nat) < 512" and "m' (t' + 8 * word_of_nat i) \<noteq> m (t' + 8 * word_of_nat i)"
  then obtain off where off: "unat off < 64" "t' + 8 * word_of_nat i = dc_addr t d + off"
    using w unfolding dc_only_def by blast
  note ww = dc_words [OF inv t off(1)]
  have "unat (8 * word_of_nat i :: u64) < 4096"
    using nle_addr [OF i] i by simp
  then have "t' = t"
    using off(2) ww dd_inv_table [OF inv t] dd_inv_table [OF inv t'] table_word_inj by metis
  then show False
    using t t' by simp
qed

lemma dc_only_read:
  assumes inv: "dd_inv dir T m" and t: "T t = Some (0, id_prefix d 0)" "T t' = Some (0, id_prefix d' 0)" and ne: "d' \<noteq> d"
    and w: "dc_only m m' (dc_addr t d)"
  shows "dc_read m' (dc_addr t' d') = dc_read m (dc_addr t' d')" "dc_present m' (dc_addr t' d') = dc_present m (dc_addr t' d')"
proof -
  have e: "m' (dc_addr t' d' + off) = m (dc_addr t' d' + off)" if "unat off < 64" for off
    using w dc_inj [OF inv t _ that, of _] that ne unfolding dc_only_def by metis
  have "m' (dc_addr t' d') = m (dc_addr t' d')"
    using e [of 0] by simp
  with e show "dc_read m' (dc_addr t' d') = dc_read m (dc_addr t' d')" "dc_present m' (dc_addr t' d') = dc_present m (dc_addr t' d')"
    by (simp_all add: dc_read_def dc_present_def dc_offsets)
qed

text \<open>A write inside the context of one device changes nothing of any other.\<close>

lemma dc_only_view:
  assumes inv: "dd_inv dir T m" and t: "T t = Some (0, id_prefix d 0)" and w: "dc_only m m' (dc_addr t d)"
  shows "dd_inv dir T m'"
    and "device_id_ok d' \<Longrightarrow> d' \<noteq> d \<Longrightarrow> dd_view m' dir d' = dd_view m dir d'"
    and "device_id_ok d \<Longrightarrow> dd_walk m (dd_table_from_root dir) d = Ok (leaf_entry m (dc_addr t d)) \<Longrightarrow>
      dc_present m' (dc_addr t d) \<Longrightarrow> dd_view m' dir d = Some (dc_read m' (dc_addr t d))"
proof -
  note ag = dc_only_agree [OF inv t w]
  show "dd_inv dir T m'"
    by (rule dd_inv_agree [OF inv ag])
  have frame: "dd_walk m' (dd_table_from_root dir) x = result_bind (dd_walk m (dd_table_from_root dir) x) (\<lambda>e. Ok (reread_leaf m' e))"
    if "device_id_ok x" for x
    using dd_walk_frame [OF inv ag dd_root_table(1) [OF inv that]] dd_root_table(2) [OF inv that] by simp
  show "dd_view m' dir d' = dd_view m dir d'" if ok: "device_id_ok d'" and ne: "d' \<noteq> d"
  proof -
    consider t' where "T t' = Some (0, id_prefix d' 0)" "dd_walk m (dd_table_from_root dir) d' = Ok (leaf_entry m (dc_addr t' d'))"
      | nle k where "dd_walk m (dd_table_from_root dir) d' = Ok (InvalidEntry nle k)"
      using dd_walk_correct [OF inv dd_root_table(1) [OF inv ok]] dd_root_table(2) [OF inv ok] by metis
    then show ?thesis
    proof cases
      case (1 t')
      then show ?thesis
        using frame [OF ok] dc_only_read [OF inv t 1(1) ne w]
        by (simp add: dd_view_def get_context_for_id_def leaf_entry_def reread_leaf_def split: if_splits)
    next
      case 2
      then show ?thesis
        using frame [OF ok] by (simp add: dd_view_def get_context_for_id_def)
    qed
  qed
  show "dd_view m' dir d = Some (dc_read m' (dc_addr t d))"
    if "device_id_ok d" "dd_walk m (dd_table_from_root dir) d = Ok (leaf_entry m (dc_addr t d))" "dc_present m' (dc_addr t d)"
    using frame [OF that(1)] that(2,3) by (simp add: dd_view_def get_context_for_id_def leaf_entry_def [of m'])
qed

section \<open>Enabling and disabling devices\<close>

definition context_valid :: "device_context \<Rightarrow> bool" where
  "context_valid c \<longleftrightarrow> dc_tc c AND DC_VALID \<noteq> 0"

definition context_enabled :: "u64 \<Rightarrow> guest_stage_table \<Rightarrow> msi_page_table \<Rightarrow> gsc_id \<Rightarrow> device_context \<Rightarrow> device_context" where
  "context_enabled hgatp_mode pt msi_pt gscid c =
     c\<lparr>dc_tc := DC_VALID,
       dc_iohgatp := pfn_bits (page_addr_pfn (seq_addr (gst_root pt)))
         OR push_bit 44 (ucast (gsc_id_bits gscid)) OR push_bit 60 hgatp_mode,
       dc_msiptp := pfn_bits (page_addr_pfn (seq_addr (mpt_pages msi_pt))) OR push_bit 60 1,
       dc_msi_addr_mask := drop_bit PFN_SHIFT (snd (msi_address_pattern msi_pt)),
       dc_msi_addr_pattern := pfn_bits (page_addr_pfn (fst (msi_address_pattern msi_pt)))\<rparr>"

definition context_disabled :: "device_context \<Rightarrow> device_context" where
  "context_disabled c = c\<lparr>dc_tc := DC_SW_INVALIDATED\<rparr>"

definition context_initial :: device_context where
  "context_initial = \<lparr>dc_tc = DC_SW_INVALIDATED, dc_iohgatp = 0, dc_fsc = 0, dc_ta = 0, dc_msiptp = 0, dc_msi_addr_mask = 0,
     dc_msi_addr_pattern = 0\<rparr>"

lemma dc_init_read: "dc_read (dc_init m dc) dc = context_initial" "dc_present (dc_init m dc) dc"
  by (simp_all add: dc_read_def dc_init_def context_initial_def dc_offsets dc_present_def DC_VALID_def DC_SW_INVALIDATED_def)

lemma dc_valid_read: "dc_valid m dc = context_valid (dc_read m dc)"
  by (simp add: dc_valid_def context_valid_def dc_read_def)

lemma dc_set_read:
  "dc_read (dc_set h m dc pt msi_pt g) dc = context_enabled h pt msi_pt g (dc_read m dc)" "dc_present (dc_set h m dc pt msi_pt g) dc"
  by (simp_all add: dc_read_def dc_set_def context_enabled_def dc_offsets split_beta dc_present_def DC_VALID_def DC_SW_INVALIDATED_def)

lemma dc_invalidate_read:
  "dc_read (dc_invalidate m dc) dc = context_disabled (dc_read m dc)" "dc_present (dc_invalidate m dc) dc"
  by (simp_all add: dc_read_def dc_invalidate_def context_disabled_def dc_offsets dc_present_def DC_VALID_def DC_SW_INVALIDATED_def)

lemma enable_device_correct:
  assumes inv: "dd_inv dir T m" and ok: "device_id_ok d"
  shows "case enable_device h m dir d pt msi_pt g of
      (Ok _, m') \<Rightarrow> gst_owner pt = mpt_owner msi_pt \<and> dd_inv dir T m'
        \<and> (\<exists>c. dd_view m dir d = Some c \<and> \<not> context_valid c \<and> dd_view m' dir d = Some (context_enabled h pt msi_pt g c))
        \<and> (\<forall>d'. device_id_ok d' \<and> d' \<noteq> d \<longrightarrow> dd_view m' dir d' = dd_view m dir d')
    | (Err e, m') \<Rightarrow> m' = m \<and> e = (if gst_owner pt \<noteq> mpt_owner msi_pt then IommuOwnerMismatch
        else if dd_view m dir d = None then DeviceNotFound d else DeviceAlreadyEnabled d)
    | (Panic, m') \<Rightarrow> False"
  using inv ok
proof (cases rule: get_context_cases)
  case (found t)
  have "leaf_entry m (dc_addr t d) = PresentLeaf (dc_addr t d)"
    using found(3) by (simp add: leaf_entry_def)
  then show ?thesis
    using dc_only_view [OF inv found(1) dc_only_writes(2) [where h = h and pt = pt and msi_pt = msi_pt and g = g]] found ok dc_set_read
    by (auto simp: enable_device_def dc_valid_read)
next
  case none
  then show ?thesis
    by (simp add: enable_device_def)
qed

lemma disable_device_correct:
  assumes inv: "dd_inv dir T m" and ok: "device_id_ok d"
  shows "case disable_device m dir d of
      (Ok _, m') \<Rightarrow> dd_inv dir T m'
        \<and> (\<exists>c. dd_view m dir d = Some c \<and> context_valid c \<and> dd_view m' dir d = Some (context_disabled c))
        \<and> (\<forall>d'. device_id_ok d' \<and> d' \<noteq> d \<longrightarrow> dd_view m' dir d' = dd_view m dir d')
    | (Err e, m') \<Rightarrow> m' = m \<and> e = (if dd_view m dir d = None then DeviceNotFound d else DeviceNotEnabled d)
    | (Panic, m') \<Rightarrow> False"
  using inv ok
proof (cases rule: get_context_cases)
  case (found t)
  have "leaf_entry m (dc_addr t d) = PresentLeaf (dc_addr t d)"
    using found(3) by (simp add: leaf_entry_def)
  then show ?thesis
    using dc_only_view [OF inv found(1) dc_only_writes(3)] found ok dc_invalidate_read
    by (auto simp: disable_device_def dc_valid_read)
next
  case none
  then show ?thesis
    by (simp add: disable_device_def)
qed

section \<open>Adding devices\<close>

text \<open>
  The directory grows: tables are added, the words that lead to tables stay, and no context appears,
  changes or is lost.
\<close>

definition dd_grow :: "device_directory \<Rightarrow> dd_tables \<Rightarrow> mem \<Rightarrow> dd_tables \<Rightarrow> mem \<Rightarrow> bool" where
  "dd_grow dir T m T' m' \<longleftrightarrow> T \<subseteq>\<^sub>m T'
   \<and> (\<forall>t l p i. T t = Some (Suc l, p) \<longrightarrow> i < 512 \<longrightarrow> nle_valid (m (t + 8 * word_of_nat i)) \<longrightarrow>
        m' (t + 8 * word_of_nat i) = m (t + 8 * word_of_nat i))
   \<and> (\<forall>d. device_id_ok d \<longrightarrow> dd_view m' dir d = dd_view m dir d)"

definition dd_fresh :: "dd_tables \<Rightarrow> supervisor_page_addr \<Rightarrow> bool" where
  "dd_fresh T a \<longleftrightarrow> 4096 dvd addr_nat a \<and> 0 < addr_nat a \<and> addr_nat a + 4096 \<le> 2 ^ 56 \<and> T (page_addr_bits a) = None"

definition dd_fill_ok ::
    "('s \<Rightarrow> supervisor_page_addr set) \<Rightarrow> ('s \<Rightarrow> mem \<Rightarrow> bool) \<Rightarrow> device_directory \<Rightarrow> dd_tables \<Rightarrow> 's \<times> mem \<Rightarrow> bool" where
  "dd_fill_ok avail src_ok dir T sm \<longleftrightarrow> dd_inv dir T (snd sm) \<and> src_ok (fst sm) (snd sm) \<and> (\<forall>a \<in> avail (fst sm). dd_fresh T a)"

lemma dd_grow_refl: "dd_grow dir T m T m"
  by (simp add: dd_grow_def)

lemma dd_grow_table: "dd_grow dir T m T' m' \<Longrightarrow> T t = Some x \<Longrightarrow> T' t = Some x"
  unfolding dd_grow_def map_le_def by (metis domI)

lemma dd_grow_word:
  "dd_grow dir T m T' m' \<Longrightarrow> T t = Some (Suc l, p) \<Longrightarrow> i < 512 \<Longrightarrow> nle_valid (m (t + 8 * word_of_nat i))
   \<Longrightarrow> m' (t + 8 * word_of_nat i) = m (t + 8 * word_of_nat i)"
  unfolding dd_grow_def by blast

lemma dd_grow_trans:
  assumes "dd_grow dir T m T1 m1" and "dd_grow dir T1 m1 T2 m2"
  shows "dd_grow dir T m T2 m2"
proof -
  have "T \<subseteq>\<^sub>m T2"
    using assms map_le_trans unfolding dd_grow_def by blast
  moreover have "m2 (t + 8 * word_of_nat i) = m (t + 8 * word_of_nat i)"
    if "T t = Some (Suc l, p)" "i < 512" "nle_valid (m (t + 8 * word_of_nat i))" for t l p i
    using dd_grow_word [OF assms(1) that] dd_grow_word [OF assms(2) dd_grow_table [OF assms(1) that(1)] that(2)] that(3) by simp
  moreover have "dd_view m2 dir d = dd_view m dir d" if "device_id_ok d" for d
    using assms that by (simp add: dd_grow_def)
  ultimately show ?thesis
    unfolding dd_grow_def by blast
qed

lemma nle_set_facts:
  assumes "4096 dvd addr_nat a" and "addr_nat a + 4096 \<le> 2 ^ 56"
  shows "nle_valid (nle_set (page_addr_pfn a))" "push_bit PFN_SHIFT (pfn_bits (nle_pfn (nle_set (page_addr_pfn a)))) = page_addr_bits a"
proof -
  have "bit (nle_set (page_addr_pfn a) AND NL_VALID) 0"
    by (simp add: nle_set_def NL_VALID_def NL_PFN_SHIFT_def bit_simps)
  then show "nle_valid (nle_set (page_addr_pfn a))"
    by (metis bit_0_eq bot_apply bot_bool_def nle_valid_def)
  have lt: "unat (pfn_bits (page_addr_pfn a)) < 2 ^ 44"
    by (simp add: pfn_bits_nat)
  have mask: "NL_PFN_MASK = mask 44"
    by (simp add: NL_PFN_MASK_def NL_PFN_BITS_def mask_eq_exp_minus_1 push_bit_eq_mult)
  have "pfn_bits (nle_pfn (nle_set (page_addr_pfn a))) = pfn_bits (page_addr_pfn a)"
  proof (rule bit_eqI)
    fix n
    assume "possible_bit TYPE(u64) n"
    then show "bit (pfn_bits (nle_pfn (nle_set (page_addr_pfn a)))) n = bit (pfn_bits (page_addr_pfn a)) n"
      using unat_less_bit [OF lt, of n]
      by (auto simp: nle_pfn_def nle_set_def pfn_supervisor_def NL_PFN_SHIFT_def mask NL_VALID_def bit_simps)
  qed
  then show "push_bit PFN_SHIFT (pfn_bits (nle_pfn (nle_set (page_addr_pfn a)))) = page_addr_bits a"
    using page_addr_push [OF assms(1)] assms(2) by (simp add: PFN_SHIFT_def)
qed

text \<open>A fresh page of zeros becomes the table of an entry that had none.\<close>

definition linked :: "dd_tables \<Rightarrow> mem \<Rightarrow> u64 \<Rightarrow> supervisor_page_addr \<Rightarrow> mem \<Rightarrow> bool" where
  "linked T m nle p m' \<longleftrightarrow>
     (\<forall>t x w. T t = Some x \<longrightarrow> unat w < 4096 \<longrightarrow>
        m' (t + w) = (if t + w = nle then nle_set (page_addr_pfn p) else m (t + w)))
   \<and> (\<forall>w. unat w < 4096 \<longrightarrow> m' (page_addr_bits p + w) = 0)"

lemma linkedI:
  assumes inv: "dd_inv dir T m" and a: "T a = Some x" and w: "unat w < 4096" and p: "dd_fresh T p"
    and z: "zero_page m1 p" and fr: "\<forall>c. \<not> in_bytes (page_addr_bits p) 4096 c \<longrightarrow> m1 c = m c"
  shows "linked T m (a + w) p (m1(a + w := nle_set (page_addr_pfn p)))"
  unfolding linked_def
proof (intro conjI allI impI)
  have pp: "4096 dvd unat (page_addr_bits p)" "unat (page_addr_bits p) + 4096 \<le> 2 ^ 56" "T (page_addr_bits p) = None"
    using p by (simp_all add: dd_fresh_def addr_nat_def)
  have ne: "t + v \<noteq> page_addr_bits p + v'" if "T t = Some y" "unat v < 4096" "unat v' < 4096" for t y v v'
    using that dd_inv_table [OF inv, of t] pp table_word_inj [of t "page_addr_bits p" v v'] by (cases y) auto
  fix t y and v :: u64
  assume t: "T t = Some y" and v: "unat v < 4096"
  have "\<not> in_bytes (page_addr_bits p) 4096 (t + v)"
  proof
    assume b: "in_bytes (page_addr_bits p) 4096 (t + v)"
    obtain v' where "unat v' < 4096" "t + v = page_addr_bits p + v'"
      using in_page_word [OF b] by metis
    then show False
      using ne [OF t v, of v'] by simp
  qed
  then show "(m1(a + w := nle_set (page_addr_pfn p))) (t + v) = (if t + v = a + w then nle_set (page_addr_pfn p) else m (t + v))"
    using fr by auto
next
  fix v :: u64
  assume v: "unat v < 4096"
  have pp: "4096 dvd unat (page_addr_bits p)" "unat (page_addr_bits p) + 4096 \<le> 2 ^ 56" "T (page_addr_bits p) = None"
    using p by (simp_all add: dd_fresh_def addr_nat_def)
  have "page_addr_bits p + v \<noteq> a + w"
    using a w v dd_inv_table [OF inv, of a] pp table_word_inj [of "page_addr_bits p" a v w] by (cases x) auto
  moreover have "in_bytes (page_addr_bits p) 4096 (page_addr_bits p + v)"
    using v unat_table_word [OF pp(2) v] by (simp add: in_bytes_def)
  ultimately show "(m1(a + w := nle_set (page_addr_pfn p))) (page_addr_bits p + v) = 0"
    using z by (simp add: zero_page_def)
qed

lemma zero_not_valid [simp]: "\<not> nle_valid 0" "m dc = 0 \<Longrightarrow> \<not> dc_present m dc"
  by (simp_all add: nle_valid_def dc_present_def DC_TC_def)

lemma word_8: "i < 512 \<Longrightarrow> unat (8 * word_of_nat i :: u64) < 4096"
  using nle_addr [of i] by simp

lemma linked_inv:
  assumes inv: "dd_inv dir T m" and a: "T a = Some (Suc l, q)" and j: "j < 512" and p: "dd_fresh T p"
    and nv: "\<not> nle_valid (m (a + 8 * word_of_nat j))" and li: "linked T m (a + 8 * word_of_nat j) p m'"
  shows "dd_inv dir (T(page_addr_bits p \<mapsto> (l, 512 * q + j))) m'"
proof -
  let ?T = "T(page_addr_bits p \<mapsto> (l, 512 * q + j))"
  have pp: "4096 dvd unat (page_addr_bits p) \<and> 0 < unat (page_addr_bits p) \<and> unat (page_addr_bits p) + 4096 \<le> 2 ^ 56"
    and none: "T (page_addr_bits p) = None"
    using p by (simp_all add: dd_fresh_def addr_nat_def)
  have pf: "4096 dvd addr_nat p" "addr_nat p + 4096 \<le> 2 ^ 56"
    using p by (simp_all add: dd_fresh_def)
  have next_t: "?T (push_bit PFN_SHIFT (pfn_bits (nle_pfn (m' (t + 8 * word_of_nat i))))) = Some (k, 512 * r + i)"
    if t: "?T t = Some (Suc k, r)" and i: "i < 512" and v: "nle_valid (m' (t + 8 * word_of_nat i))" for t k r i
  proof (cases "t = page_addr_bits p")
    case True
    then show ?thesis
      using v li word_8 [OF i] by (simp add: linked_def)
  next
    case False
    then have t': "T t = Some (Suc k, r)"
      using t by simp
    show ?thesis
    proof (cases "t + 8 * word_of_nat i = a + 8 * word_of_nat j")
      case True
      then have "t = a" "8 * word_of_nat i = (8 * word_of_nat j :: u64)"
        using True table_word_inj [OF _ _ _ _ word_8 [OF i] word_8 [OF j], of t a] dd_inv_table [OF inv t'] dd_inv_table [OF inv a]
        by blast+
      then have "t = a" "i = j"
        using nle_addr [OF i] nle_addr [OF j] by (metis, metis nat_mult_eq_cancel1 zero_less_numeral)
      moreover have "m' (t + 8 * word_of_nat i) = nle_set (page_addr_pfn p)"
        using li t' word_8 [OF i] True unfolding linked_def by metis
      ultimately show ?thesis
        using nle_set_facts(2) [OF pf] a t' by simp
    next
      case ne: False
      then have "m' (t + 8 * word_of_nat i) = m (t + 8 * word_of_nat i)"
        using li t' word_8 [OF i] unfolding linked_def by metis
      then show ?thesis
        using dd_inv_next [OF inv t' i] v none by auto
    qed
  qed
  show ?thesis
    using inv pp none next_t unfolding dd_inv_def [of dir ?T] by (auto simp: dd_inv_def [of dir T])
qed

definition walk_context :: "mem \<Rightarrow> dd_table \<Rightarrow> device_id \<Rightarrow> device_context option" where
  "walk_context m t d = (case dd_walk m t d of Ok (PresentLeaf dc) \<Rightarrow> Some (dc_read m dc) | _ \<Rightarrow> None)"

lemma dd_view_walk: "dd_view m dir d = walk_context m (dd_table_from_root dir) d"
  by (simp add: dd_view_def walk_context_def get_context_for_id_def split: result.splits dd_entry.splits)

lemma walk_context_empty:
  assumes inv: "dd_inv dir T m" and t: "T (page_addr_bits p) = Some (l, id_prefix d l)"
    and z: "\<forall>w. unat w < 4096 \<longrightarrow> m (page_addr_bits p + w) = 0"
  shows "walk_context m \<lparr>ddt_table_addr = p, ddt_level = l\<rparr> d = None"
proof (cases l)
  case 0
  have "m (dc_addr (page_addr_bits p) d) = 0"
    using z dc_words(3) [OF inv t [unfolded 0], of 0] by (simp add: dc_addr_def)
  then show ?thesis
    using entry_for_leaf [OF inv t [unfolded 0], of d] dd_walk.simps [of m "\<lparr>ddt_table_addr = p, ddt_level = 0\<rparr>" d]
    by (simp add: walk_context_def 0 leaf_entry_def)
next
  case (Suc k)
  have "m (page_addr_bits p + 8 * word_of_nat (id_prefix d k mod 512)) = 0"
    using z word_8 by simp
  then show ?thesis
    using entry_for_non_leaf [OF inv t [unfolded Suc]] dd_walk.simps [of m "\<lparr>ddt_table_addr = p, ddt_level = Suc k\<rparr>" d]
    by (simp add: walk_context_def Suc)
qed

lemma linked_context:
  assumes inv: "dd_inv dir T m" and a: "T a = Some (Suc l, q)" and j: "j < 512" and p: "dd_fresh T p"
    and nv: "\<not> nle_valid (m (a + 8 * word_of_nat j))" and li: "linked T m (a + 8 * word_of_nat j) p m'"
  shows "T (page_addr_bits b) = Some (k, id_prefix d k) \<Longrightarrow>
    walk_context m' \<lparr>ddt_table_addr = b, ddt_level = k\<rparr> d = walk_context m \<lparr>ddt_table_addr = b, ddt_level = k\<rparr> d"
proof (induction k arbitrary: b)
  let ?T = "T(page_addr_bits p \<mapsto> (l, 512 * q + j))"
  note inv' = linked_inv [OF inv a j p nv li]
  have none: "T (page_addr_bits p) = None"
    using p by (simp add: dd_fresh_def)
  have up: "?T t = Some x" if "T t = Some x" for t x
    using that none by auto
  have at: "t = a \<and> w = 8 * word_of_nat j" if "T t = Some x" "unat w < 4096" "t + w = a + 8 * word_of_nat j" for t x and w :: u64
    using that table_word_inj [OF _ _ _ _ that(2) word_8 [OF j], of t a] dd_inv_table [OF inv, of t] dd_inv_table [OF inv a]
    by (cases x) blast
  {
    case 0
    have "m' (dc_addr (page_addr_bits b) d + off) = m (dc_addr (page_addr_bits b) d + off)" if "unat off < 64" for off
    proof -
      note w = dc_words [OF inv 0 that]
      have "page_addr_bits b + (64 * level_index_bits d 0 + off) \<noteq> a + 8 * word_of_nat j"
        using at [OF 0 w(3)] a 0 by auto
      then show ?thesis
        using li 0 w(3) unfolding w(1) linked_def by metis
    qed
    note e = this this [of 0]
    have "dc_read m' (dc_addr (page_addr_bits b) d) = dc_read m (dc_addr (page_addr_bits b) d)"
      "dc_present m' (dc_addr (page_addr_bits b) d) = dc_present m (dc_addr (page_addr_bits b) d)"
      using e by (simp_all add: dc_read_def dc_present_def dc_offsets)
    then show ?case
      using entry_for_leaf [OF inv 0, of d] entry_for_leaf [OF inv' up [OF 0], of d] dd_walk.simps [of _ "\<lparr>ddt_table_addr = b, ddt_level = 0\<rparr>" d]
      by (simp add: walk_context_def leaf_entry_def)
  next
    case (Suc k)
    define i where "i = id_prefix d k mod 512"
    let ?c = "page_addr_bits b + 8 * word_of_nat i"
    have i: "i < 512"
      by (simp add: i_def)
    note e = entry_for_non_leaf [OF inv Suc.prems, folded i_def] and e' = entry_for_non_leaf [OF inv' up [OF Suc.prems], folded i_def]
    note step = dd_walk.simps [of _ "\<lparr>ddt_table_addr = b, ddt_level = Suc k\<rparr>" d]
    show ?case
    proof (cases "?c = a + 8 * word_of_nat j")
      case True
      then have ba: "page_addr_bits b = a" and ij: "8 * word_of_nat i = (8 * word_of_nat j :: u64)"
        using at [OF Suc.prems word_8 [OF i] True] by simp_all
      have "i = j"
        using ij nle_addr [OF i] nle_addr [OF j] by (metis nat_mult_eq_cancel1 zero_less_numeral)
      moreover have "l = k" "q = id_prefix d (Suc k)"
        using ba a Suc.prems by simp_all
      ultimately have tp: "?T (page_addr_bits p) = Some (k, id_prefix d k)"
        using id_prefix_step [of d k] by (simp add: i_def)
      have "m' ?c = nle_set (page_addr_pfn p)"
        using li Suc.prems word_8 [OF i] True unfolding linked_def by metis
      then obtain b' where "entry_for_id m' \<lparr>ddt_table_addr = b, ddt_level = Suc k\<rparr> d = Ok (NextLevel \<lparr>ddt_table_addr = b', ddt_level = k\<rparr>)"
        "page_addr_bits b' = page_addr_bits p"
        using e' nle_set_facts [of p] p by (auto simp: dd_fresh_def)
      then have "walk_context m' \<lparr>ddt_table_addr = b, ddt_level = Suc k\<rparr> d = walk_context m' \<lparr>ddt_table_addr = p, ddt_level = k\<rparr> d"
        using step by (simp add: walk_context_def supervisor_addr_eq_iff addr_nat_def [symmetric])
          (metis addr_nat_def supervisor_addr_eq_iff)
      also have "\<dots> = None"
        using li by (intro walk_context_empty [OF inv' tp]) (simp add: linked_def)
      also have "None = walk_context m \<lparr>ddt_table_addr = b, ddt_level = Suc k\<rparr> d"
        using e nv True step by (simp add: walk_context_def)
      finally show ?thesis .
    next
      case False
      then have same: "m' ?c = m ?c"
        using li Suc.prems word_8 [OF i] unfolding linked_def by metis
      show ?thesis
      proof (cases "nle_valid (m ?c)")
        case True
        then obtain b1 b2 where b: "entry_for_id m \<lparr>ddt_table_addr = b, ddt_level = Suc k\<rparr> d = Ok (NextLevel \<lparr>ddt_table_addr = b1, ddt_level = k\<rparr>)"
          "entry_for_id m' \<lparr>ddt_table_addr = b, ddt_level = Suc k\<rparr> d = Ok (NextLevel \<lparr>ddt_table_addr = b2, ddt_level = k\<rparr>)"
          "T (page_addr_bits b1) = Some (k, id_prefix d k)" "page_addr_bits b2 = page_addr_bits b1"
          using e e' same by auto
        then have "b2 = b1"
          by (simp add: supervisor_addr_eq_iff addr_nat_def)
        then show ?thesis
          using b Suc.IH [OF b(3)] step by (simp add: walk_context_def)
      next
        case False
        then show ?thesis
          using e e' same step by (simp add: walk_context_def)
      qed
    qed
  }
qed

lemma linked_grow:
  assumes inv: "dd_inv dir T m" and a: "T a = Some (Suc l, q)" and j: "j < 512" and p: "dd_fresh T p"
    and nv: "\<not> nle_valid (m (a + 8 * word_of_nat j))" and li: "linked T m (a + 8 * word_of_nat j) p m'"
  shows "dd_grow dir T m (T(page_addr_bits p \<mapsto> (l, 512 * q + j))) m'"
  unfolding dd_grow_def
proof (intro conjI allI impI)
  show "T \<subseteq>\<^sub>m T(page_addr_bits p \<mapsto> (l, 512 * q + j))"
    using p by (auto simp: map_le_def dd_fresh_def)
  fix t k r i
  assume "T t = Some (Suc k, r)" "i < 512" and v: "nle_valid (m (t + 8 * word_of_nat i))"
  moreover have "t + 8 * word_of_nat i \<noteq> a + 8 * word_of_nat j"
    using v nv by metis
  ultimately show "m' (t + 8 * word_of_nat i) = m (t + 8 * word_of_nat i)"
    using li word_8 [of i] unfolding linked_def by metis
next
  fix d
  assume "device_id_ok d"
  then show "dd_view m' dir d = dd_view m dir d"
    using linked_context [OF assms dd_root_table(1) [OF inv]] dd_root_table(2) [OF inv] by (simp add: dd_view_walk)
qed

context pte_source
begin

lemma dd_next_correct:
  assumes ok: "dd_fill_ok avail src_ok dir T (s, m)" and t: "T (page_addr_bits a) = Some (Suc l, id_prefix d (Suc l))"
  shows "case dd_next_level_or_fill get_pte_page (s, m) \<lparr>ddt_table_addr = a, ddt_level = Suc l\<rparr> d of
      (Ok t', s', m') \<Rightarrow> \<exists>T' b. t' = \<lparr>ddt_table_addr = b, ddt_level = l\<rparr> \<and> dd_fill_ok avail src_ok dir T' (s', m')
        \<and> dd_grow dir T m T' m' \<and> T' (page_addr_bits b) = Some (l, id_prefix d l)
        \<and> nle_valid (m' (page_addr_bits a + 8 * word_of_nat (id_prefix d l mod 512)))
        \<and> entry_for_id m' \<lparr>ddt_table_addr = a, ddt_level = Suc l\<rparr> d = Ok (NextLevel \<lparr>ddt_table_addr = b, ddt_level = l\<rparr>)
    | (Err e, s', m') \<Rightarrow> e = OutOfPages \<and> dd_fill_ok avail src_ok dir T (s', m) \<and> m' = m
    | (Panic, _) \<Rightarrow> False"
proof -
  have inv: "dd_inv dir T m" and src: "src_ok s m" and fresh: "\<forall>x \<in> avail s. dd_fresh T x"
    using ok by (simp_all add: dd_fill_ok_def)
  let ?i = "id_prefix d l mod 512"
  let ?nle = "page_addr_bits a + 8 * word_of_nat ?i"
  note e = entry_for_non_leaf [OF inv t]
  show ?thesis
  proof (cases "nle_valid (m ?nle)")
    case True
    then obtain b where "entry_for_id m \<lparr>ddt_table_addr = a, ddt_level = Suc l\<rparr> d = Ok (NextLevel \<lparr>ddt_table_addr = b, ddt_level = l\<rparr>)"
      "T (page_addr_bits b) = Some (l, id_prefix d l)"
      using e by auto
    then show ?thesis
      using ok True by (auto simp: dd_next_level_or_fill_def intro!: exI [of _ T] dd_grow_refl)
  next
    case False
    then have en: "entry_for_id m \<lparr>ddt_table_addr = a, ddt_level = Suc l\<rparr> d = Ok (InvalidEntry ?nle l)"
      using e by simp
    obtain po s1 m1 where g: "get_pte_page (s, m) = (po, s1, m1)"
      by (metis prod_cases3)
    show ?thesis
    proof (cases po)
      case None
      then show ?thesis
        using get_none [OF src] g en ok by (auto simp: dd_next_level_or_fill_def dd_fill_ok_def)
    next
      case (Some pg)
      let ?p = "page_base pg"
      let ?m = "m1(?nle := nle_set (page_addr_pfn ?p))"
      let ?T = "T(page_addr_bits ?p \<mapsto> (l, id_prefix d l))"
      note gs = get_some [OF src g [unfolded Some]]
      have p: "dd_fresh T ?p"
        using gs fresh by blast
      have i: "?i < 512"
        by simp
      have li: "linked T m ?nle ?p ?m"
        using gs by (intro linkedI [OF inv t word_8 [OF i] p]) simp_all
      have inv': "dd_inv dir ?T ?m" and grow: "dd_grow dir T m ?T ?m"
        using linked_inv [OF inv t i p False li] linked_grow [OF inv t i p False li] id_prefix_step [of d l] by simp_all
      have fresh': "dd_fresh ?T x" if "x \<in> avail s1" for x
      proof -
        have "x \<in> avail s" "x \<noteq> ?p"
          using that gs by blast+
        then show ?thesis
          using fresh by (auto simp: dd_fresh_def supervisor_addr_eq_iff addr_nat_def word_unat_eq_iff)
      qed
      have "?m c = m1 c" if "x \<in> avail s1" and c: "in_bytes (page_addr_bits x) 4096 c" for x c
      proof -
        have x: "dd_fresh T x"
          using that gs fresh by blast
        then have xx: "4096 dvd unat (page_addr_bits x)" "unat (page_addr_bits x) + 4096 \<le> 2 ^ 56" "T (page_addr_bits x) = None"
          by (simp_all add: dd_fresh_def addr_nat_def)
        obtain w where w: "unat w < 4096" "c = page_addr_bits x + w"
          using in_page_word [OF c] by metis
        then have "c \<noteq> ?nle"
          using table_word_inj [OF xx(1) _ xx(2) _ w(1) word_8 [OF i], of "page_addr_bits a"] dd_inv_table [OF inv t] xx(3) t by auto
        then show ?thesis
          by simp
      qed
      then have src': "src_ok s1 ?m"
        using gs src_frame [of s1 m1 ?m] by blast
      have nv: "nle_valid (?m ?nle)" and bits: "push_bit PFN_SHIFT (pfn_bits (nle_pfn (?m ?nle))) = page_addr_bits ?p"
        using nle_set_facts [of ?p] p by (simp_all add: dd_fresh_def)
      have ta: "?T (page_addr_bits a) = Some (Suc l, id_prefix d (Suc l))"
        using t p by (auto simp: dd_fresh_def)
      obtain b where b: "entry_for_id ?m \<lparr>ddt_table_addr = a, ddt_level = Suc l\<rparr> d = Ok (NextLevel \<lparr>ddt_table_addr = b, ddt_level = l\<rparr>)"
        "page_addr_bits b = page_addr_bits ?p"
        using entry_for_non_leaf [OF inv' ta] nv bits by auto
      then have "b = ?p"
        by (simp add: supervisor_addr_eq_iff addr_nat_def)
      have al: "page_addr_from_pfn (nle_pfn (nle_set (page_addr_pfn ?p))) Size4k = Some ?p"
      proof -
        have "page_addr_from_pfn (nle_pfn (nle_set (page_addr_pfn ?p))) Size4k
            = page_addr_with_alignment (raw_supervisor (page_addr_bits ?p)) Size4k"
          using bits by (simp add: page_addr_from_pfn_def nle_pfn_def pfn_supervisor_def raw_supervisor_def)
        then show ?thesis
          using p by (cases "raw_space (page_addr_raw ?p)"; cases "page_addr_raw ?p"; cases ?p)
            (auto simp: page_addr_with_alignment_def page_size_is_aligned_iff dd_fresh_def raw_supervisor_def page_addr_bits_def)
      qed
      have "dd_next_level_or_fill get_pte_page (s, m) \<lparr>ddt_table_addr = a, ddt_level = Suc l\<rparr> d
          = (Ok \<lparr>ddt_table_addr = ?p, ddt_level = l\<rparr>, s1, ?m)"
        using en g Some al nv by (simp add: dd_next_level_or_fill_def from_non_leaf_entry_def Let_def)
      then show ?thesis
        using inv' grow src' fresh' nv b \<open>b = ?p\<close>
        by (auto simp: dd_fill_ok_def intro!: exI [of _ ?T])
    qed
  qed
qed

lemma dd_fill_correct:
  "dd_fill_ok avail src_ok dir T (s, m) \<Longrightarrow> T (page_addr_bits a) = Some (l, id_prefix d l) \<Longrightarrow> l \<le> n \<Longrightarrow>
    case dd_fill get_pte_page n (s, m) \<lparr>ddt_table_addr = a, ddt_level = l\<rparr> d of
      (Ok t, s', m') \<Rightarrow> \<exists>T' b. t = \<lparr>ddt_table_addr = b, ddt_level = 0\<rparr> \<and> dd_fill_ok avail src_ok dir T' (s', m')
        \<and> dd_grow dir T m T' m' \<and> T' (page_addr_bits b) = Some (0, id_prefix d 0)
        \<and> dd_walk m' \<lparr>ddt_table_addr = a, ddt_level = l\<rparr> d = Ok (leaf_entry m' (dc_addr (page_addr_bits b) d))
    | (Err e, s', m') \<Rightarrow> e = OutOfPages \<and> (\<exists>T'. dd_fill_ok avail src_ok dir T' (s', m') \<and> dd_grow dir T m T' m')
    | (Panic, _) \<Rightarrow> False"
proof (induction l arbitrary: T s m a n)
  case 0
  have inv: "dd_inv dir T m"
    using 0(1) by (simp add: dd_fill_ok_def)
  have "dd_fill get_pte_page n (s, m) \<lparr>ddt_table_addr = a, ddt_level = 0\<rparr> d = (Ok \<lparr>ddt_table_addr = a, ddt_level = 0\<rparr>, s, m)"
    by (cases n) (simp_all add: ddt_is_leaf_def)
  moreover have "dd_walk m \<lparr>ddt_table_addr = a, ddt_level = 0\<rparr> d = Ok (leaf_entry m (dc_addr (page_addr_bits a) d))"
    using entry_for_leaf [OF inv 0(2), of d] dd_walk.simps [of m "\<lparr>ddt_table_addr = a, ddt_level = 0\<rparr>" d]
    by (simp add: leaf_entry_def)
  ultimately show ?case
    using 0 by (auto intro!: exI [of _ T] dd_grow_refl)
next
  case (Suc l)
  then obtain n' where n: "n = Suc n'" "l \<le> n'"
    by (cases n) auto
  note nx = dd_next_correct [OF Suc.prems(1,2)]
  obtain r s1 m1 where r: "dd_next_level_or_fill get_pte_page (s, m) \<lparr>ddt_table_addr = a, ddt_level = Suc l\<rparr> d = (r, s1, m1)"
    by (metis prod_cases3)
  show ?case
  proof (cases r)
    case (Ok t1)
    then obtain T1 b1 where t1: "t1 = \<lparr>ddt_table_addr = b1, ddt_level = l\<rparr>" and ok1: "dd_fill_ok avail src_ok dir T1 (s1, m1)"
      and g1: "dd_grow dir T m T1 m1" and T1: "T1 (page_addr_bits b1) = Some (l, id_prefix d l)"
      and v1: "nle_valid (m1 (page_addr_bits a + 8 * word_of_nat (id_prefix d l mod 512)))"
      and e1: "entry_for_id m1 \<lparr>ddt_table_addr = a, ddt_level = Suc l\<rparr> d = Ok (NextLevel \<lparr>ddt_table_addr = b1, ddt_level = l\<rparr>)"
      using nx r by auto
    have step: "dd_fill get_pte_page n (s, m) \<lparr>ddt_table_addr = a, ddt_level = Suc l\<rparr> d
        = dd_fill get_pte_page n' (s1, m1) \<lparr>ddt_table_addr = b1, ddt_level = l\<rparr> d"
      using r Ok t1 by (simp add: n ddt_is_leaf_def)
    note ih = Suc.IH [OF ok1 T1 n(2)]
    have Ta: "T1 (page_addr_bits a) = Some (Suc l, id_prefix d (Suc l))"
      by (rule dd_grow_table [OF g1 Suc.prems(2)])
    have walk: "dd_walk m' \<lparr>ddt_table_addr = a, ddt_level = Suc l\<rparr> d = dd_walk m' \<lparr>ddt_table_addr = b1, ddt_level = l\<rparr> d"
      if gr: "dd_grow dir T1 m1 T' m'" and fo: "dd_fill_ok avail src_ok dir T' (s', m')" for T' s' m'
    proof -
      have inv': "dd_inv dir T' m'" and inv1: "dd_inv dir T1 m1"
        using fo ok1 by (simp_all add: dd_fill_ok_def)
      have c: "m' (page_addr_bits a + 8 * word_of_nat (id_prefix d l mod 512)) = m1 (page_addr_bits a + 8 * word_of_nat (id_prefix d l mod 512))"
        using dd_grow_word [OF gr Ta _ v1] by simp
      obtain b2 where b2: "entry_for_id m' \<lparr>ddt_table_addr = a, ddt_level = Suc l\<rparr> d = Ok (NextLevel \<lparr>ddt_table_addr = b2, ddt_level = l\<rparr>)"
        "page_addr_bits b2 = page_addr_bits b1"
        using entry_for_non_leaf [OF inv' dd_grow_table [OF gr Ta]] entry_for_non_leaf [OF inv1 Ta] c v1 e1 by auto
      then have "b2 = b1"
        by (simp add: supervisor_addr_eq_iff addr_nat_def)
      then show ?thesis
        using b2 dd_walk.simps [of m' "\<lparr>ddt_table_addr = a, ddt_level = Suc l\<rparr>" d] by simp
    qed
    obtain r2 s2 m2 where r2: "dd_fill get_pte_page n' (s1, m1) \<lparr>ddt_table_addr = b1, ddt_level = l\<rparr> d = (r2, s2, m2)"
      by (metis prod_cases3)
    show ?thesis
      using ih dd_grow_trans [OF g1] walk unfolding step r2
      by (cases r2) (auto, metis+)
  next
    case (Err e)
    then show ?thesis
      using nx r by (auto simp: n ddt_is_leaf_def intro!: exI [of _ T] dd_grow_refl)
  next
    case Panic
    then show ?thesis
      using nx r by simp
  qed
qed

lemma add_device_correct:
  assumes ok: "dd_fill_ok avail src_ok dir T (s, m)" and d: "device_id_ok d"
  shows "case add_device get_pte_page (s, m) dir d of
      (Ok _, s', m') \<Rightarrow> (\<exists>T'. dd_fill_ok avail src_ok dir T' (s', m'))
        \<and> dd_view m' dir d = Some (case dd_view m dir d of Some c \<Rightarrow> c | None \<Rightarrow> context_initial)
        \<and> (\<forall>d'. device_id_ok d' \<and> d' \<noteq> d \<longrightarrow> dd_view m' dir d' = dd_view m dir d')
    | (Err e, s', m') \<Rightarrow> e = OutOfPages \<and> (\<exists>T'. dd_fill_ok avail src_ok dir T' (s', m'))
        \<and> (\<forall>d'. device_id_ok d' \<longrightarrow> dd_view m' dir d' = dd_view m dir d')
    | (Panic, _) \<Rightarrow> False"
proof -
  have inv: "dd_inv dir T m"
    using ok by (simp add: dd_fill_ok_def)
  have lv: "dd_num_levels dir = 3"
    using inv by (simp add: dd_inv_def)
  obtain r s1 m1 where r: "dd_fill get_pte_page 3 (s, m) \<lparr>ddt_table_addr = page_base (dd_root dir), ddt_level = 2\<rparr> d = (r, s1, m1)"
    by (metis prod_cases3)
  note root = dd_root_table [OF inv d]
  have fill: "dd_fill get_pte_page (dd_num_levels dir) (s, m) (dd_table_from_root dir) d = (r, s1, m1)"
    by (simp only: lv root(2) r)
  note f = dd_fill_correct [OF ok root(1), of 3, unfolded r]
  show ?thesis
  proof (cases r)
    case (Ok t)
    then obtain T1 b where t: "t = \<lparr>ddt_table_addr = b, ddt_level = 0\<rparr>" and ok1: "dd_fill_ok avail src_ok dir T1 (s1, m1)"
      and g: "dd_grow dir T m T1 m1" and tb: "T1 (page_addr_bits b) = Some (0, id_prefix d 0)"
      and walk: "dd_walk m1 (dd_table_from_root dir) d = Ok (leaf_entry m1 (dc_addr (page_addr_bits b) d))"
      using f root(2) by auto
    let ?dc = "dc_addr (page_addr_bits b) d"
    have inv1: "dd_inv dir T1 m1" and src1: "src_ok s1 m1" and fresh1: "\<forall>x \<in> avail s1. dd_fresh T1 x"
      using ok1 by (simp_all add: dd_fill_ok_def)
    have views: "dd_view m1 dir d' = dd_view m dir d'" if "device_id_ok d'" for d'
      using g that by (simp add: dd_grow_def)
    have entry: "entry_for_id m1 t d = Ok (leaf_entry m1 ?dc)"
      using entry_for_leaf [OF inv1 tb] t by simp
    show ?thesis
    proof (cases "dc_present m1 ?dc")
      case True
      then have "dd_view m1 dir d = Some (dc_read m1 ?dc)"
        using walk by (simp add: dd_view_walk walk_context_def leaf_entry_def)
      moreover have "add_device get_pte_page (s, m) dir d = (Ok (), s1, m1)"
        using fill entry Ok True by (simp add: add_device_def leaf_entry_def)
      ultimately show ?thesis
        using ok1 views d by auto
    next
      case False
      let ?m = "dc_init m1 ?dc"
      have "dd_view m1 dir d = None"
        using walk False by (simp add: dd_view_walk walk_context_def leaf_entry_def)
      moreover have "add_device get_pte_page (s, m) dir d = (Ok (), s1, ?m)"
        using fill entry Ok False by (simp add: add_device_def leaf_entry_def)
      moreover have "dd_view ?m dir d = Some context_initial"
        using dc_only_view(3) [OF inv1 tb dc_only_writes(1) d walk] dc_init_read by simp
      moreover have "dd_inv dir T1 ?m" and "\<And>d'. device_id_ok d' \<Longrightarrow> d' \<noteq> d \<Longrightarrow> dd_view ?m dir d' = dd_view m1 dir d'"
        by (rule dc_only_view(1,2) [OF inv1 tb dc_only_writes(1)]; assumption?)+
      moreover have "src_ok s1 ?m"
      proof (rule src_frame [OF src1], rule ccontr)
        fix x c
        assume x: "x \<in> avail s1" and c: "in_bytes (page_addr_bits x) 4096 c" and "?m c \<noteq> m1 c"
        then obtain off where off: "unat off < 64" "c = ?dc + off"
          using dc_only_writes(1) [of m1 ?dc] unfolding dc_only_def by metis
        obtain w where w: "unat w < 4096" "c = page_addr_bits x + w"
          using in_page_word [OF c] by metis
        have "4096 dvd unat (page_addr_bits x)" "unat (page_addr_bits x) + 4096 \<le> 2 ^ 56" "T1 (page_addr_bits x) = None"
          using fresh1 x by (simp_all add: dd_fresh_def addr_nat_def)
        then show False
          using table_word_inj [OF _ _ _ _ w(1) dc_words(3) [OF inv1 tb off(1)], of "page_addr_bits x" "page_addr_bits b"]
            dd_inv_table [OF inv1 tb] dc_words(1) [OF inv1 tb off(1)] off(2) w(2) tb by auto
      qed
      ultimately show ?thesis
        using fresh1 views d by (auto simp: dd_fill_ok_def)
    qed
  next
    case (Err e)
    then show ?thesis
      using f fill by (auto simp: add_device_def dd_grow_def)
  next
    case Panic
    then show ?thesis
      using f by simp
  qed
qed

end

section \<open>Properties\<close>

text \<open>
  C18: the device directory refines a map from devices to contexts, and an operation on one device never touches
  the context of another. On a well-formed directory and a supply of clean pages outside of it, adding a device
  gives it a context that is present but not valid and leaves a device that was added before as it is, or fails
  for want of pages, with every context as it was. Enabling and disabling change exactly the context of the device,
  to one that names the page tables of one owner; they fail with nothing changed. No operation panics.
\<close>

theorem device_directory_refines:
  assumes "dd_fill_ok seq_avail seq_ok dir T (s, m)" and "device_id_ok d"
  defines "others \<equiv> (\<lambda>m'. \<forall>d'. device_id_ok d' \<and> d' \<noteq> d \<longrightarrow> dd_view m' dir d' = dd_view m dir d')"
  shows "(case add_device hyp_pte_next (s, m) dir d of
      (Ok _, s', m') \<Rightarrow> (\<exists>T'. dd_fill_ok seq_avail seq_ok dir T' (s', m')) \<and> others m'
        \<and> dd_view m' dir d = Some (case dd_view m dir d of Some c \<Rightarrow> c | None \<Rightarrow> context_initial)
    | (Err e, s', m') \<Rightarrow> e = OutOfPages \<and> (\<exists>T'. dd_fill_ok seq_avail seq_ok dir T' (s', m'))
        \<and> others m' \<and> dd_view m' dir d = dd_view m dir d
    | (Panic, _) \<Rightarrow> False)
    \<and> (case enable_device hgatp_mode m dir d pt msi_pt gscid of
      (Ok _, m') \<Rightarrow> gst_owner pt = mpt_owner msi_pt \<and> dd_inv dir T m' \<and> others m'
        \<and> (\<exists>c. dd_view m dir d = Some c \<and> \<not> context_valid c
              \<and> dd_view m' dir d = Some (context_enabled hgatp_mode pt msi_pt gscid c))
    | (Err e, m') \<Rightarrow> m' = m \<and> e = (if gst_owner pt \<noteq> mpt_owner msi_pt then IommuOwnerMismatch
        else if dd_view m dir d = None then DeviceNotFound d else DeviceAlreadyEnabled d)
    | (Panic, _) \<Rightarrow> False)
    \<and> (case disable_device m dir d of
      (Ok _, m') \<Rightarrow> dd_inv dir T m' \<and> others m'
        \<and> (\<exists>c. dd_view m dir d = Some c \<and> context_valid c \<and> dd_view m' dir d = Some (context_disabled c))
    | (Err e, m') \<Rightarrow> m' = m \<and> e = (if dd_view m dir d = None then DeviceNotFound d else DeviceNotEnabled d)
    | (Panic, _) \<Rightarrow> False)"
proof (intro conjI)
  have inv: "dd_inv dir T m"
    using assms(1) by (simp add: dd_fill_ok_def)
  show "case add_device hyp_pte_next (s, m) dir d of
      (Ok _, s', m') \<Rightarrow> (\<exists>T'. dd_fill_ok seq_avail seq_ok dir T' (s', m')) \<and> others m'
        \<and> dd_view m' dir d = Some (case dd_view m dir d of Some c \<Rightarrow> c | None \<Rightarrow> context_initial)
    | (Err e, s', m') \<Rightarrow> e = OutOfPages \<and> (\<exists>T'. dd_fill_ok seq_avail seq_ok dir T' (s', m'))
        \<and> others m' \<and> dd_view m' dir d = dd_view m dir d
    | (Panic, _) \<Rightarrow> False"
    using hyp_pte.add_device_correct [OF assms(1,2)] assms(2) unfolding others_def by (auto split: prod.splits result.splits)
  show "case enable_device hgatp_mode m dir d pt msi_pt gscid of
      (Ok _, m') \<Rightarrow> gst_owner pt = mpt_owner msi_pt \<and> dd_inv dir T m' \<and> others m'
        \<and> (\<exists>c. dd_view m dir d = Some c \<and> \<not> context_valid c
              \<and> dd_view m' dir d = Some (context_enabled hgatp_mode pt msi_pt gscid c))
    | (Err e, m') \<Rightarrow> m' = m \<and> e = (if gst_owner pt \<noteq> mpt_owner msi_pt then IommuOwnerMismatch
        else if dd_view m dir d = None then DeviceNotFound d else DeviceAlreadyEnabled d)
    | (Panic, _) \<Rightarrow> False"
    using enable_device_correct [OF inv assms(2), where h = hgatp_mode and pt = pt and msi_pt = msi_pt and g = gscid] unfolding others_def
    by (cases "enable_device hgatp_mode m dir d pt msi_pt gscid"; cases "fst (enable_device hgatp_mode m dir d pt msi_pt gscid)") auto
  show "case disable_device m dir d of
      (Ok _, m') \<Rightarrow> dd_inv dir T m' \<and> others m'
        \<and> (\<exists>c. dd_view m dir d = Some c \<and> context_valid c \<and> dd_view m' dir d = Some (context_disabled c))
    | (Err e, m') \<Rightarrow> m' = m \<and> e = (if dd_view m dir d = None then DeviceNotFound d else DeviceNotEnabled d)
    | (Panic, _) \<Rightarrow> False"
    using disable_device_correct [OF inv assms(2)] unfolding others_def
    by (cases "disable_device m dir d"; cases "fst (disable_device m dir d)") auto
qed

definition dd_example :: device_directory where
  "dd_example = device_directory_new \<lparr>page_base = PageAddr (raw_supervisor 0x80000000), page_len = Size4k, page_typestate = StInternalClean\<rparr>"

definition dd_example_supply :: seq_pages where
  "dd_example_supply = \<lparr>seq_addr = PageAddr (raw_supervisor 0x90000000), seq_page_size = Size4k, seq_count = 2, seq_state = StInternalClean\<rparr>"

lemma dd_example_ok: "dd_fill_ok seq_avail seq_ok dd_example [0x80000000 \<mapsto> (2, 0)] (dd_example_supply, \<lambda>_. 0)"
proof -
  have "dd_inv dd_example [0x80000000 \<mapsto> (2, 0)] (\<lambda>_. 0)"
    by (auto simp: dd_inv_def dd_example_def device_directory_new_def DDT3_LEVELS_def page_addr_bits_def raw_supervisor_def)
  moreover have "seq_ok dd_example_supply (\<lambda>_. 0)"
    by (simp add: seq_ok_def dd_example_supply_def page_addr_wf_iff raw_supervisor_def zero_page_def)
  moreover have "dd_fresh [0x80000000 \<mapsto> (2, 0)] a" if "a \<in> seq_avail dd_example_supply" for a
    using that by (auto simp: seq_avail_def dd_example_supply_def raw_supervisor_def dd_fresh_def page_addr_wf_iff addr_nat_def page_addr_bits_def)
  ultimately show ?thesis
    by (simp add: dd_fill_ok_def)
qed

theorem device_directory_refines_witness:
  "case add_device hyp_pte_next (dd_example_supply, \<lambda>_. 0) dd_example (DeviceId 0x108) of
     (Ok _, s', m') \<Rightarrow> dd_view m' dd_example (DeviceId 0x108) \<noteq> None
   | (Err e, s', m') \<Rightarrow> e = OutOfPages
   | (Panic, _) \<Rightarrow> False"
proof -
  have "device_id_ok (DeviceId 0x108)"
    by (simp add: device_id_ok_def id_nat_def DEVICE_ID_BITS_def)
  note device_directory_refines [OF dd_example_ok this, THEN conjunct1]
  then show ?thesis
    by (auto split: prod.splits result.splits)
qed

end
