(* ===== verification/Volatile_Memory.thy ===== *)
theory Volatile_Memory
  imports Page_Types
begin

text \<open>
  Slices of memory that is shared with devices (\<open>data-model/src/volatile_memory.rs\<close>): pointers with a
  length, the bounds checks that produce smaller slices and references, and the interface of the plain data
  types that are stored in them (\<open>DataInit\<close>), as a dictionary of the operations on the cells of memory.
\<close>

datatype volatile_memory_error = OutOfBounds u64 | Overflow u64 u64

type_synonym 'a vm_mem_result = "(volatile_memory_error, 'a) result"

definition calc_offset :: "u64 \<Rightarrow> u64 \<Rightarrow> u64 vm_mem_result" where
  "calc_offset base off = (case checked_add base off of None \<Rightarrow> Err (Overflow base off) | Some m \<Rightarrow> Ok m)"

record volatile_slice =
  vs_ptr :: u64
  vs_len :: u64

definition slice_offset :: "volatile_slice \<Rightarrow> u64 \<Rightarrow> volatile_slice vm_mem_result" where
  "slice_offset s count =
     result_bind (ok_or (checked_add (vs_ptr s) count) (Overflow (vs_ptr s) count)) (\<lambda>new_addr.
     result_bind (ok_or (checked_sub (vs_len s) count) (OutOfBounds new_addr)) (\<lambda>new_size.
       Ok \<lparr>vs_ptr = new_addr, vs_len = new_size\<rparr>))"

definition sub_slice :: "volatile_slice \<Rightarrow> u64 \<Rightarrow> u64 \<Rightarrow> volatile_slice vm_mem_result" where
  "sub_slice s off count =
     result_bind (calc_offset off count) (\<lambda>mem_end.
       if vs_len s < mem_end then Err (OutOfBounds mem_end)
       else result_bind (ok_or (checked_add (vs_ptr s) off) (Overflow (vs_ptr s) off)) (\<lambda>new_addr.
              Ok \<lparr>vs_ptr = new_addr, vs_len = count\<rparr>))"

text \<open>A type that implements \<open>DataInit\<close>: its size, and the volatile read and write of a value.\<close>

record 'a data_init =
  di_size :: u64
  di_store :: "mem \<Rightarrow> u64 \<Rightarrow> 'a \<Rightarrow> mem"
  di_load :: "mem \<Rightarrow> u64 \<Rightarrow> 'a"

definition get_ref :: "'a data_init \<Rightarrow> volatile_slice \<Rightarrow> u64 \<Rightarrow> u64 vm_mem_result" where
  "get_ref di s off = result_bind (sub_slice s off (di_size di)) (\<lambda>sl. Ok (vs_ptr sl))"

locale data_init_laws =
  fixes di :: "'a data_init"
  assumes load_store: "unat a + unat (di_size di) \<le> 2 ^ 64 \<Longrightarrow> di_load di (di_store di m a x) a = x"
    and store_frame: "unat a + unat (di_size di) \<le> 2 ^ 64 \<Longrightarrow> \<not> in_bytes a (unat (di_size di)) c \<Longrightarrow>
      di_store di m a x c = m c"
    and load_cong: "unat a + unat (di_size di) \<le> 2 ^ 64 \<Longrightarrow> (\<And>c. in_bytes a (unat (di_size di)) c \<Longrightarrow> m' c = m c) \<Longrightarrow>
      di_load di m' a = di_load di m a"

text \<open>
  A part of a slice is granted exactly when it ends within the slice, and then lies within it: no
  sequence of cuts ever reaches memory that the first slice did not cover.
\<close>

lemma sub_slice_iff:
  assumes "unat (vs_ptr s) + unat (vs_len s) \<le> 2 ^ 64" and "0 < unat count"
  shows "sub_slice s off count = Ok s' \<longleftrightarrow>
    unat off + unat count \<le> unat (vs_len s) \<and> s' = \<lparr>vs_ptr = vs_ptr s + off, vs_len = count\<rparr>"
proof (cases "unat off + unat count < 2 ^ 64")
  case True
  have "unat (vs_ptr s) + unat off < 2 ^ 64" if "unat off + unat count \<le> unat (vs_len s)"
    using assms that by linarith
  then show ?thesis
    using True by (auto simp: sub_slice_def calc_offset_def checked_add_def result_bind_Ok word_less_nat_alt unat_add_u64
        split: if_splits)
next
  case False
  then have "\<not> unat off + unat count \<le> unat (vs_len s)"
    using unat_u64_less [of "vs_len s"] by linarith
  then show ?thesis
    using False by (auto simp: sub_slice_def calc_offset_def checked_add_def)
qed

lemma sub_slice_within:
  assumes "unat (vs_ptr s) + unat (vs_len s) \<le> 2 ^ 64" and "0 < unat count" and "sub_slice s off count = Ok s'"
  shows "unat (vs_ptr s) \<le> unat (vs_ptr s') \<and> unat (vs_ptr s') + unat (vs_len s') \<le> unat (vs_ptr s) + unat (vs_len s)"
proof -
  have h: "unat off + unat count \<le> unat (vs_len s)" "s' = \<lparr>vs_ptr = vs_ptr s + off, vs_len = count\<rparr>"
    using assms sub_slice_iff [OF assms(1,2)] by auto
  have "unat (vs_ptr s + off) = unat (vs_ptr s) + unat off"
    using h assms by (intro unat_add_u64) linarith
  then show ?thesis
    using h by simp
qed

lemma get_ref_iff:
  assumes "unat (vs_ptr s) + unat (vs_len s) \<le> 2 ^ 64" and "0 < unat (di_size di)"
  shows "unat off + unat (di_size di) \<le> unat (vs_len s) \<Longrightarrow> get_ref di s off = Ok (vs_ptr s + off)"
    "unat (vs_len s) < unat off + unat (di_size di) \<Longrightarrow> get_ref di s off \<noteq> Ok r"
  using sub_slice_iff [OF assms, of off] by (auto simp: get_ref_def result_bind_Ok)

end
