(* ===== verification/Iommu_Queue.thy ===== *)
theory Iommu_Queue
  imports Volatile_Memory Msi_Page_Table
begin

text \<open>
  The queues between software and the IOMMU (\<open>drivers/src/iommu/queue.rs\<close>): a ring of equally sized
  elements in one page. A producer queue is read by the hardware, a consumer queue is written by it. The
  element type is a dictionary of its size and its volatile accesses; the commands are its instance.
\<close>

section \<open>Queues\<close>

record iommu_queue =
  qu_mem :: volatile_slice
  qu_head :: u64
  qu_tail :: u64
  qu_capacity :: u64

definition is_power_of_two :: "u64 \<Rightarrow> bool" where
  "is_power_of_two x \<longleftrightarrow> x \<noteq> 0 \<and> x AND (x - 1) = 0"

definition queue_new :: "'a data_init \<Rightarrow> page \<Rightarrow> ('e, iommu_queue) result" where
  "queue_new di page =
     (if \<not> is_power_of_two (di_size di) \<or> \<not> di_size di < 4096 then Panic
      else Ok \<lparr>qu_mem = \<lparr>vs_ptr = page_addr_bits (page_base page), vs_len = page_size_bytes (page_len page)\<rparr>,
               qu_head = 0, qu_tail = 0, qu_capacity = page_size_bytes (page_len page) div di_size di\<rparr>)"

definition queue_base_address :: "iommu_queue \<Rightarrow> ('e, supervisor_page_addr) result" where
  "queue_base_address q = unwrap_option (page_addr_new (raw_supervisor (vs_ptr (qu_mem q))))"

definition queue_is_empty :: "iommu_queue \<Rightarrow> bool" where
  "queue_is_empty q \<longleftrightarrow> qu_head q = qu_tail q"

definition queue_is_full :: "iommu_queue \<Rightarrow> bool" where
  "queue_is_full q \<longleftrightarrow> (qu_tail q + 1) AND (qu_capacity q - 1) = qu_head q"

definition update_head :: "iommu_queue \<Rightarrow> u64 \<Rightarrow> unit iommu_result \<times> iommu_queue" where
  "update_head q head =
     (if qu_capacity q \<le> head
         \<or> qu_head q \<le> qu_tail q \<and> (qu_tail q < head \<or> head < qu_head q)
         \<or> qu_tail q < qu_head q \<and> qu_tail q < head \<and> head < qu_head q
      then (Err (InvalidQueuePointer head), q)
      else (Ok (), q\<lparr>qu_head := head\<rparr>))"

definition queue_push :: "'a data_init \<Rightarrow> iommu_queue \<Rightarrow> mem \<Rightarrow> 'a \<Rightarrow> unit iommu_result \<times> iommu_queue \<times> mem" where
  "queue_push di q m x =
     (if queue_is_full q then (Err QueueFull, q, m)
      else (case get_ref di (qu_mem q) (qu_tail q * di_size di) of
              Ok tail_ref \<Rightarrow>
                (Ok (), q\<lparr>qu_tail := (qu_tail q + 1) AND (qu_capacity q - 1)\<rparr>, di_store di m tail_ref x)
            | _ \<Rightarrow> (Panic, q, m)))"

definition update_tail :: "iommu_queue \<Rightarrow> u64 \<Rightarrow> unit iommu_result \<times> iommu_queue" where
  "update_tail q tail =
     (if qu_capacity q \<le> tail
         \<or> qu_head q < qu_tail q \<and> qu_head q \<le> tail \<and> tail < qu_tail q
         \<or> qu_tail q < qu_head q \<and> (qu_head q \<le> tail \<or> tail < qu_tail q)
      then (Err (InvalidQueuePointer tail), q)
      else (Ok (), q\<lparr>qu_tail := tail\<rparr>))"

definition queue_pop :: "'a data_init \<Rightarrow> iommu_queue \<Rightarrow> mem \<Rightarrow> 'a iommu_result \<times> iommu_queue" where
  "queue_pop di q m =
     (if queue_is_empty q then (Err QueueEmpty, q)
      else (case get_ref di (qu_mem q) (qu_head q * di_size di) of
              Ok head_ref \<Rightarrow> (Ok (di_load di m head_ref), q\<lparr>qu_head := qu_head q + 1\<rparr>)
            | _ \<Rightarrow> (Panic, q)))"

section \<open>Commands\<close>

record command =
  cmd_op :: u64
  cmd_addr :: u64

definition FUNC3_SHIFT :: nat where "FUNC3_SHIFT = 7"

definition iotinval_gvma :: "gsc_id option \<Rightarrow> guest_page_addr option \<Rightarrow> command" where
  "iotinval_gvma gscid gpa =
     (let op0 = 0x1 OR push_bit FUNC3_SHIFT 0x1;
          op1 = (case gscid of None \<Rightarrow> op0
                 | Some g \<Rightarrow> op0 OR (push_bit 12 1 OR push_bit 40 (ucast (gsc_id_bits g))))
      in case gpa of
           Some g \<Rightarrow> \<lparr>cmd_op = op1 OR push_bit 11 1, cmd_addr = page_addr_bits g\<rparr>
         | None \<Rightarrow> \<lparr>cmd_op = op1, cmd_addr = 0\<rparr>)"

definition iodir_inval_ddt :: "device_id option \<Rightarrow> command" where
  "iodir_inval_ddt dev =
     (let op0 = 0x3 OR push_bit FUNC3_SHIFT 0x0
      in \<lparr>cmd_op = (case dev of None \<Rightarrow> op0
                    | Some d \<Rightarrow> op0 OR (push_bit 10 1 OR push_bit 40 (ucast (device_id_bits d)))),
          cmd_addr = 0\<rparr>)"

definition iofence :: command where
  "iofence = \<lparr>cmd_op = 0x2 OR push_bit 10 1 OR push_bit 11 1, cmd_addr = 0\<rparr>"

definition command_data :: "command data_init" where
  "command_data = \<lparr>di_size = 16,
     di_store = (\<lambda>m a c. m(a := cmd_op c, a + 8 := cmd_addr c)),
     di_load = (\<lambda>m a. \<lparr>cmd_op = m a, cmd_addr = m (a + 8)\<rparr>)\<rparr>"

interpretation command: data_init_laws command_data
proof
  fix a :: u64 and m :: mem and x c
  assume "unat a + unat (di_size command_data) \<le> 2 ^ 64"
  then have a: "unat (a + 8) = unat a + 8"
    by (subst unat_add_u64) (simp_all add: command_data_def)
  have ne: "a + 8 \<noteq> a"
    by simp
  show "di_load command_data (di_store command_data m a x) a = x"
    using ne by (simp add: command_data_def)
  show "di_store command_data m a x c = m c" if "\<not> in_bytes a (unat (di_size command_data)) c"
    using that a by (auto simp: command_data_def in_bytes_def)
  show "di_load command_data m' a = di_load command_data m a"
    if "\<And>c. in_bytes a (unat (di_size command_data)) c \<Longrightarrow> m' c = m c" for m'
    using that [of a] that [of "a + 8"] a by (simp add: command_data_def in_bytes_def)
qed

section \<open>Rings of indices\<close>

definition ring_len :: "nat \<Rightarrow> nat \<Rightarrow> nat \<Rightarrow> nat" where
  "ring_len c h t = (if h \<le> t then t - h else t + c - h)"

definition ring_at :: "nat \<Rightarrow> nat \<Rightarrow> nat \<Rightarrow> nat" where
  "ring_at c h i = (if h + i < c then h + i else h + i - c)"

lemma ring_next: "x < c \<Longrightarrow> Suc x mod c = ring_at c x 1"
  by (auto simp: ring_at_def mod_if)

lemma ring_facts:
  assumes "h < c" and "t < c"
  shows "ring_len c h t < c" "i < c \<Longrightarrow> ring_at c h i < c"
    "i < c \<Longrightarrow> j < c \<Longrightarrow> ring_at c h i = ring_at c h j \<longleftrightarrow> i = j"
    "ring_at c h (ring_len c h t) = t" "ring_at c t 1 = h \<longleftrightarrow> ring_len c h t = c - 1"
    "ring_len c h t \<noteq> c - 1 \<Longrightarrow> ring_len c h (ring_at c t 1) = Suc (ring_len c h t)"
  using assms by (auto simp: ring_len_def ring_at_def)

text \<open>Moving the head forward by at most the length of the queue.\<close>

lemma ring_advance:
  assumes "h < c" and "t < c" and "n < c"
  shows "(h \<le> t \<and> h \<le> n \<and> n \<le> t) \<or> (t < h \<and> (n \<le> t \<or> h \<le> n)) \<longleftrightarrow> ring_len c h n \<le> ring_len c h t"
    "ring_len c h n \<le> ring_len c h t \<Longrightarrow> ring_len c n t = ring_len c h t - ring_len c h n"
    "ring_len c h n \<le> ring_len c h t \<Longrightarrow> i < ring_len c n t \<Longrightarrow> ring_at c n i = ring_at c h (ring_len c h n + i)"
  using assms by (auto simp: ring_len_def ring_at_def split: if_splits)

section \<open>The contents of a queue\<close>

definition queue_ok :: "'a data_init \<Rightarrow> iommu_queue \<Rightarrow> bool" where
  "queue_ok di q \<longleftrightarrow> (\<exists>k. unat (qu_capacity q) = 2 ^ k) \<and> 1 < unat (qu_capacity q) \<and> 0 < unat (di_size di)
     \<and> unat (qu_capacity q) * unat (di_size di) = unat (vs_len (qu_mem q))
     \<and> unat (vs_ptr (qu_mem q)) + unat (vs_len (qu_mem q)) \<le> 2 ^ 64
     \<and> qu_head q < qu_capacity q \<and> qu_tail q < qu_capacity q"

definition queue_len :: "iommu_queue \<Rightarrow> nat" where
  "queue_len q = ring_len (unat (qu_capacity q)) (unat (qu_head q)) (unat (qu_tail q))"

definition queue_cell :: "'a data_init \<Rightarrow> iommu_queue \<Rightarrow> nat \<Rightarrow> u64" where
  "queue_cell di q i = vs_ptr (qu_mem q) + word_of_nat i * di_size di"

definition queue_list :: "'a data_init \<Rightarrow> mem \<Rightarrow> iommu_queue \<Rightarrow> 'a list" where
  "queue_list di m q =
     map (\<lambda>i. di_load di m (queue_cell di q (ring_at (unat (qu_capacity q)) (unat (qu_head q)) i))) [0..<queue_len q]"

lemma length_queue_list [simp]: "length (queue_list di m q) = queue_len q"
  by (simp add: queue_list_def)

lemma queue_next:
  assumes "queue_ok di q" and "x < qu_capacity q"
  shows "unat ((x + 1) AND (qu_capacity q - 1)) = ring_at (unat (qu_capacity q)) (unat x) 1"
proof -
  obtain k where k: "unat (qu_capacity q) = 2 ^ k"
    using assms by (auto simp: queue_ok_def)
  have "qu_capacity q = word_of_nat (unat (qu_capacity q))"
    by simp
  then have c: "qu_capacity q = 2 ^ k"
    unfolding k by simp
  have x: "unat x < 2 ^ k"
    using assms(2) k by (simp add: word_less_nat_alt)
  then have "unat (x + 1) = Suc (unat x)"
    using unat_add_u64 [of x 1] k unat_u64_less [of "qu_capacity q"] by simp
  then have "unat ((x + 1) AND (qu_capacity q - 1)) = Suc (unat x) mod 2 ^ k"
    by (simp only: c and_exp_minus_1)
  then show ?thesis
    using x k ring_next by simp
qed

lemma queue_cell_nat:
  assumes "queue_ok di q" and "i < unat (qu_capacity q)"
  shows "unat (queue_cell di q i) = unat (vs_ptr (qu_mem q)) + i * unat (di_size di)"
    "unat (queue_cell di q i) + unat (di_size di) \<le> unat (vs_ptr (qu_mem q)) + unat (vs_len (qu_mem q))"
    "unat (word_of_nat i * di_size di) = i * unat (di_size di)" "0 < unat (di_size di)"
proof -
  let ?s = "unat (di_size di)" and ?c = "unat (qu_capacity q)"
  have b: "?c * ?s = unat (vs_len (qu_mem q))" "unat (vs_ptr (qu_mem q)) + unat (vs_len (qu_mem q)) \<le> 2 ^ 64"
    using assms(1) by (auto simp: queue_ok_def)
  have "Suc i * ?s \<le> ?c * ?s"
    using assms(2) by (intro mult_right_mono) simp_all
  then have le: "i * ?s + ?s \<le> unat (vs_len (qu_mem q))"
    using b by simp
  have pos: "0 < ?s"
    using assms(1) by (simp add: queue_ok_def)
  have i: "unat (word_of_nat i :: u64) = i"
    using assms(2) unat_u64_less [of "qu_capacity q"] by (intro unat_of_nat_u64) simp
  have m: "unat (word_of_nat i * di_size di) = i * ?s"
    using unat_mult_u64 [of "word_of_nat i" "di_size di"] i le unat_u64_less [of "vs_len (qu_mem q)"] pos by simp
  have "unat (vs_ptr (qu_mem q)) + unat (word_of_nat i * di_size di) < 2 ^ 64"
    using m le b pos by linarith
  then have "unat (queue_cell di q i) = unat (vs_ptr (qu_mem q)) + i * ?s"
    unfolding queue_cell_def using unat_add_u64 m by metis
  then show "unat (queue_cell di q i) = unat (vs_ptr (qu_mem q)) + i * ?s"
    "unat (queue_cell di q i) + ?s \<le> unat (vs_ptr (qu_mem q)) + unat (vs_len (qu_mem q))"
    "unat (word_of_nat i * di_size di) = i * ?s" "0 < ?s"
    using le m pos by simp_all
qed

lemma queue_index: "queue_ok di q \<Longrightarrow> unat (qu_head q) < unat (qu_capacity q) \<and> unat (qu_tail q) < unat (qu_capacity q)"
  by (simp add: queue_ok_def word_less_nat_alt)

lemma queue_full_iff: "queue_ok di q \<Longrightarrow> queue_is_full q \<longleftrightarrow> queue_len q = unat (qu_capacity q) - 1"
  using queue_next [of di q "qu_tail q"] ring_facts(5) queue_index [of di q]
  by (simp add: queue_is_full_def queue_len_def word_unat_eq_iff word_less_nat_alt)

lemma queue_ref:
  assumes "queue_ok di q" and "x < qu_capacity q"
  shows "get_ref di (qu_mem q) (x * di_size di) = Ok (queue_cell di q (unat x))"
proof -
  have x: "unat x < unat (qu_capacity q)"
    using assms(2) by (simp add: word_less_nat_alt)
  note n = queue_cell_nat [OF assms(1) x]
  have "unat (x * di_size di) + unat (di_size di) \<le> unat (vs_len (qu_mem q))"
    using n by simp
  then show ?thesis
    using get_ref_iff(1) [of "qu_mem q" di "x * di_size di"] assms(1) n(4) by (simp add: queue_ok_def queue_cell_def)
qed

context data_init_laws
begin

lemma queue_store_other:
  assumes ok: "queue_ok di q" and i: "i < unat (qu_capacity q)" "j < unat (qu_capacity q)" "i \<noteq> j"
  shows "di_load di (di_store di m (queue_cell di q j) x) (queue_cell di q i) = di_load di m (queue_cell di q i)"
proof (rule load_cong)
  let ?s = "unat (di_size di)"
  note ni = queue_cell_nat [OF ok i(1)] and nj = queue_cell_nat [OF ok i(2)]
  have top: "unat (vs_ptr (qu_mem q)) + unat (vs_len (qu_mem q)) \<le> 2 ^ 64"
    using ok by (simp add: queue_ok_def)
  show "unat (queue_cell di q i) + ?s \<le> 2 ^ 64"
    using ni(2) top by linarith
  fix c assume c: "in_bytes (queue_cell di q i) ?s c"
  have "Suc i * ?s \<le> j * ?s \<or> Suc j * ?s \<le> i * ?s"
    using i(3) by (metis Suc_leI linorder_neq_iff mult_le_mono1)
  then have "\<not> in_bytes (queue_cell di q j) ?s c"
    using c ni(1) nj(1) by (auto simp: in_bytes_def)
  moreover have "unat (queue_cell di q j) + ?s \<le> 2 ^ 64"
    using nj(2) top by linarith
  ultimately show "di_store di m (queue_cell di q j) x c = m c"
    by (rule store_frame [rotated])
qed

lemma queue_push_correct:
  assumes ok: "queue_ok di q"
  shows "case queue_push di q m x of
      (Ok _, q', m') \<Rightarrow> queue_len q \<noteq> unat (qu_capacity q) - 1 \<and> queue_ok di q'
        \<and> queue_list di m' q' = queue_list di m q @ [x] \<and> qu_head q' = qu_head q \<and> qu_capacity q' = qu_capacity q
        \<and> (\<forall>c. \<not> in_bytes (vs_ptr (qu_mem q)) (unat (vs_len (qu_mem q))) c \<longrightarrow> m' c = m c)
    | (Err e, q', m') \<Rightarrow> e = QueueFull \<and> queue_len q = unat (qu_capacity q) - 1 \<and> q' = q \<and> m' = m
    | (Panic, _) \<Rightarrow> False"
proof (cases "queue_is_full q")
  case False
  let ?c = "unat (qu_capacity q)" and ?h = "unat (qu_head q)" and ?t = "unat (qu_tail q)"
  let ?t' = "(qu_tail q + 1) AND (qu_capacity q - 1)"
  let ?q' = "q\<lparr>qu_tail := ?t'\<rparr>" and ?m' = "di_store di m (queue_cell di q ?t) x"
  have i: "?h < ?c" "?t < ?c"
    using queue_index [OF ok] by auto
  have len: "queue_len q \<noteq> ?c - 1"
    using False queue_full_iff [OF ok] by simp
  have t': "unat ?t' = ring_at ?c ?t 1"
    using queue_next [OF ok, of "qu_tail q"] i by (simp add: word_less_nat_alt)
  have push: "queue_push di q m x = (Ok (), ?q', ?m')"
    using False queue_ref [OF ok, of "qu_tail q"] i by (simp add: queue_push_def word_less_nat_alt)
  have ok': "queue_ok di ?q'"
    using ok t' ring_facts(2) [OF i(2,2), of 1] i by (simp add: queue_ok_def word_less_nat_alt)
  have len': "queue_len ?q' = Suc (queue_len q)"
    using ring_facts(6) [OF i] len t' by (simp add: queue_len_def)
  have cell: "queue_cell di ?q' n = queue_cell di q n" for n
    by (simp add: queue_cell_def)
  have lt: "queue_len q < ?c"
    using ring_facts(1) [OF i] by (simp add: queue_len_def)
  have old: "di_load di ?m' (queue_cell di q (ring_at ?c ?h n)) = di_load di m (queue_cell di q (ring_at ?c ?h n))"
    if "n < queue_len q" for n
  proof (rule queue_store_other [OF ok])
    have "n < ?c"
      using that lt by simp
    then show "ring_at ?c ?h n < ?c"
      by (rule ring_facts(2) [OF i])
    have "ring_at ?c ?h n \<noteq> ring_at ?c ?h (queue_len q)"
      using ring_facts(3) [OF i, of n "queue_len q"] \<open>n < ?c\<close> lt that by simp
    then show "ring_at ?c ?h n \<noteq> ?t"
      using ring_facts(4) [OF i] by (simp add: queue_len_def)
  qed (use i in simp)
  note nt = queue_cell_nat [OF ok i(2)]
  have top: "unat (queue_cell di q ?t) + unat (di_size di) \<le> 2 ^ 64"
    using nt(2) ok unfolding queue_ok_def by linarith
  have new: "di_load di ?m' (queue_cell di q (ring_at ?c ?h (queue_len q))) = x"
    using load_store [OF top] ring_facts(4) [OF i] by (simp add: queue_len_def)
  have "queue_list di ?m' ?q' = queue_list di m q @ [x]"
    unfolding queue_list_def len' cell using old new by simp
  moreover have "?m' c = m c" if "\<not> in_bytes (vs_ptr (qu_mem q)) (unat (vs_len (qu_mem q))) c" for c
    by (rule store_frame [OF top]) (use that nt in \<open>auto simp: in_bytes_def\<close>)
  ultimately show ?thesis
    using push ok' len by simp
qed (use queue_full_iff [OF ok] in \<open>simp add: queue_push_def\<close>)

end

lemma update_head_correct:
  assumes ok: "queue_ok di q"
  defines "d n \<equiv> ring_len (unat (qu_capacity q)) (unat (qu_head q)) (unat n)"
  shows "update_head q n =
      (if n < qu_capacity q \<and> d n \<le> queue_len q then (Ok (), q\<lparr>qu_head := n\<rparr>) else (Err (InvalidQueuePointer n), q))"
    "n < qu_capacity q \<Longrightarrow> d n \<le> queue_len q \<Longrightarrow>
      queue_ok di (q\<lparr>qu_head := n\<rparr>) \<and> queue_list di m (q\<lparr>qu_head := n\<rparr>) = drop (d n) (queue_list di m q)"
proof -
  let ?c = "unat (qu_capacity q)" and ?h = "unat (qu_head q)" and ?t = "unat (qu_tail q)"
  have i: "?h < ?c" "?t < ?c"
    using queue_index [OF ok] by auto
  show "update_head q n =
      (if n < qu_capacity q \<and> d n \<le> queue_len q then (Ok (), q\<lparr>qu_head := n\<rparr>) else (Err (InvalidQueuePointer n), q))"
  proof (cases "unat n < ?c")
    case True
    show ?thesis
      using ring_advance(1) [OF i True] True
      by (auto simp: update_head_def d_def queue_len_def word_less_nat_alt word_le_nat_alt not_le not_less)
  qed (simp add: update_head_def word_less_nat_alt word_le_nat_alt)
  assume n: "n < qu_capacity q" and le: "d n \<le> queue_len q"
  have nn: "unat n < ?c"
    using n by (simp add: word_less_nat_alt)
  have "ring_len ?c ?h (unat n) \<le> ring_len ?c ?h ?t"
    using le by (simp add: d_def queue_len_def)
  note adv = ring_advance(2,3) [OF i nn this]
  let ?q' = "q\<lparr>qu_head := n\<rparr>"
  have len: "queue_len ?q' = queue_len q - d n"
    using adv(1) by (simp add: queue_len_def d_def)
  have "queue_list di m ?q' = drop (d n) (queue_list di m q)"
  proof (rule nth_equalityI)
    fix j assume "j < length (queue_list di m ?q')"
    then have j: "j < queue_len q - d n"
      by (simp add: len)
    then have "ring_at ?c (unat n) j = ring_at ?c ?h (d n + j)"
      using adv(2) [of j] adv(1) by (simp add: queue_len_def d_def)
    moreover have "d n + j < queue_len q"
      using j by linarith
    ultimately show "queue_list di m ?q' ! j = drop (d n) (queue_list di m q) ! j"
      using j by (simp add: queue_list_def len queue_cell_def)
  qed (simp add: len)
  then show "queue_ok di ?q' \<and> queue_list di m ?q' = drop (d n) (queue_list di m q)"
    using ok n by (simp add: queue_ok_def)
qed

text \<open>
  C37: a command queue is a bounded first-in first-out list between software and the IOMMU. Pushing onto a
  well-formed queue never panics; it appends the command to the contents, unless the queue already holds all
  but one of its places, when it is refused and nothing changes; no memory outside the page is written. Moving
  the head accepts exactly the positions from the old head up to the tail around the ring, and then removes as
  many of the oldest commands as the head moved; any other position is refused.
\<close>

theorem command_queue_fifo:
  assumes "queue_ok command_data q"
  shows "(case queue_push command_data q m x of
      (Ok _, q', m') \<Rightarrow> length (queue_list command_data m q) \<noteq> unat (qu_capacity q) - 1 \<and> queue_ok command_data q'
        \<and> queue_list command_data m' q' = queue_list command_data m q @ [x]
        \<and> (\<forall>c. \<not> in_bytes (vs_ptr (qu_mem q)) (unat (vs_len (qu_mem q))) c \<longrightarrow> m' c = m c)
    | (Err e, q', m') \<Rightarrow> e = QueueFull \<and> length (queue_list command_data m q) = unat (qu_capacity q) - 1 \<and> q' = q \<and> m' = m
    | (Panic, _) \<Rightarrow> False)
    \<and> (case update_head q n of
      (Ok _, q') \<Rightarrow> (\<exists>d \<le> length (queue_list command_data m q).
          unat n = (unat (qu_head q) + d) mod unat (qu_capacity q) \<and> queue_ok command_data q'
          \<and> queue_list command_data m q' = drop d (queue_list command_data m q))
    | (Err e, q') \<Rightarrow> e = InvalidQueuePointer n \<and> q' = q
        \<and> (\<forall>d \<le> length (queue_list command_data m q). unat n \<noteq> (unat (qu_head q) + d) mod unat (qu_capacity q))
    | (Panic, _) \<Rightarrow> False)"
proof
  show "case queue_push command_data q m x of
      (Ok _, q', m') \<Rightarrow> length (queue_list command_data m q) \<noteq> unat (qu_capacity q) - 1 \<and> queue_ok command_data q'
        \<and> queue_list command_data m' q' = queue_list command_data m q @ [x]
        \<and> (\<forall>c. \<not> in_bytes (vs_ptr (qu_mem q)) (unat (vs_len (qu_mem q))) c \<longrightarrow> m' c = m c)
    | (Err e, q', m') \<Rightarrow> e = QueueFull \<and> length (queue_list command_data m q) = unat (qu_capacity q) - 1 \<and> q' = q \<and> m' = m
    | (Panic, _) \<Rightarrow> False"
    using command.queue_push_correct [OF assms, of m x] by (auto split: prod.splits result.splits)
  let ?c = "unat (qu_capacity q)" and ?h = "unat (qu_head q)"
  have i: "?h < ?c" "unat (qu_tail q) < ?c"
    using queue_index [OF assms] by auto
  have len: "queue_len q < ?c"
    using ring_facts(1) [OF i] by (simp add: queue_len_def)
  have at: "(?h + d) mod ?c = ring_at ?c ?h d" if "d < ?c" for d
    using that i by (auto simp: ring_at_def mod_if)
  have d: "unat n < ?c \<Longrightarrow> unat n = (?h + ring_len ?c ?h (unat n)) mod ?c"
    using at [of "ring_len ?c ?h (unat n)"] ring_facts(1,4) [OF i(1), of "unat n"] by simp
  have u: "unat n = (?h + e) mod ?c \<Longrightarrow> e < ?c \<Longrightarrow> unat n < ?c \<and> ring_len ?c ?h (unat n) = e" for e
    using at [of e] i by (auto simp: ring_at_def ring_len_def split: if_splits)
  show "case update_head q n of
      (Ok _, q') \<Rightarrow> (\<exists>d \<le> length (queue_list command_data m q).
          unat n = (?h + d) mod ?c \<and> queue_ok command_data q'
          \<and> queue_list command_data m q' = drop d (queue_list command_data m q))
    | (Err e, q') \<Rightarrow> e = InvalidQueuePointer n \<and> q' = q
        \<and> (\<forall>d \<le> length (queue_list command_data m q). unat n \<noteq> (?h + d) mod ?c)
    | (Panic, _) \<Rightarrow> False"
  proof (cases "n < qu_capacity q \<and> ring_len ?c ?h (unat n) \<le> queue_len q")
    case True
    then show ?thesis
      using update_head_correct [OF assms, of n] d
      by (auto simp: word_less_nat_alt intro!: exI [of _ "ring_len ?c ?h (unat n)"])
  next
    case False
    have "unat n \<noteq> (?h + e) mod ?c" if "e \<le> queue_len q" for e
      using u [of e] that len False by (auto simp: word_less_nat_alt)
    then show ?thesis
      using update_head_correct(1) [OF assms, of n] False by auto
  qed
qed

lemma command_queue_new:
  assumes "page_len p = Size4k" and "addr_nat (page_base p) + 4096 \<le> 2 ^ 64"
  shows "\<exists>q. queue_new command_data p = (Ok q :: ('e, _) result) \<and> queue_ok command_data q
    \<and> queue_list command_data m q = [] \<and> unat (qu_capacity q) = 256"
proof -
  have "unat (256 :: u64) = 2 ^ 8"
    by simp
  then have "\<exists>k. unat (256 :: u64) = 2 ^ k" ..
  then show ?thesis
    using assms by (simp add: queue_new_def command_data_def is_power_of_two_def queue_ok_def queue_list_def queue_len_def
        ring_len_def addr_nat_def)
qed

definition queue_example_page :: page where
  "queue_example_page = \<lparr>page_base = PageAddr (raw_supervisor 0x80000000), page_len = Size4k, page_typestate = StInternalClean\<rparr>"

theorem command_queue_fifo_witness:
  "\<exists>q q' m'. queue_new command_data queue_example_page = (Ok q :: (nat, _) result)
     \<and> queue_push command_data q (\<lambda>_. 0) iofence = (Ok (), q', m') \<and> queue_list command_data m' q' = [iofence]"
proof -
  have "addr_nat (page_base queue_example_page) + 4096 \<le> 2 ^ 64"
    by (simp add: queue_example_page_def raw_supervisor_def)
  then obtain q where q: "queue_new command_data queue_example_page = (Ok q :: (nat, _) result)"
    "queue_ok command_data q" "queue_list command_data (\<lambda>_. 0) q = []" "unat (qu_capacity q) = 256"
    using command_queue_new [of queue_example_page "\<lambda>_. 0", where 'e = nat] by (auto simp: queue_example_page_def)
  obtain res q' m' where p: "queue_push command_data q (\<lambda>_. 0) iofence = (res, q', m')"
    by (metis prod_cases3)
  have "res = Ok () \<and> queue_list command_data m' q' = [iofence]"
    using command_queue_fifo [OF q(2), where m = "\<lambda>_. 0" and x = iofence and n = 0, THEN conjunct1] q(3,4)
    unfolding p by (cases res) (simp_all del: length_queue_list)
  then show ?thesis
    using p q(1) by blast
qed

text \<open>
  The consumer side does not wrap the head: after the last place of the ring it points past the page, the
  queue no longer looks empty, and the next \<open>pop\<close> panics.
\<close>

definition consumer_queue :: "u64 \<Rightarrow> iommu_queue" where
  "consumer_queue h = \<lparr>qu_mem = \<lparr>vs_ptr = 0x80000000, vs_len = 4096\<rparr>, qu_head = h, qu_tail = 0, qu_capacity = 256\<rparr>"

lemma queue_pop_past_end:
  "queue_pop command_data (consumer_queue 255) m = (Ok \<lparr>cmd_op = m 0x80000ff0, cmd_addr = m 0x80000ff8\<rparr>, consumer_queue 256)"
  "fst (queue_pop command_data (consumer_queue 256) m) = Panic"
  by (simp_all add: queue_pop_def consumer_queue_def queue_is_empty_def get_ref_def sub_slice_def calc_offset_def
      checked_add_def command_data_def)

end
