(* ===== verification/Tlb_Tracker.thy ===== *)
theory Tlb_Tracker
  imports Msi_Page_Table "HOL-Library.Multiset"
begin

text \<open>
  The errors of guest memory management and the tracker of TLB versions (\<open>src/vm_pages.rs\<close>, lines 29 to
  195): every virtual CPU that runs in a guest's address space holds a reference to the version that was
  current when it entered; a fence starts a new version and is complete when the old one has no reference.
\<close>

text \<open>Exceptions by name (\<open>riscv-regs/src/csrs/traps.rs\<close>).\<close>

datatype exception =
    InstructionMisaligned | InstructionFault | IllegalInstruction | Breakpoint | LoadMisaligned | LoadFault
  | StoreMisaligned | StoreFault | UserEnvCall | SupervisorEnvCall | VirtualSupervisorEnvCall | MachineEnvCall
  | InstructionPageFault | LoadPageFault | StorePageFault | GuestInstructionPageFault | GuestLoadPageFault
  | VirtualInstruction | GuestStorePageFault

datatype page_fault_type = FaultConfidential | FaultShared | FaultMmio | FaultImsic | FaultUnmapped

text \<open>The errors of the operations that are modelled; measurement and user-mode mapping are not among them.\<close>

datatype vm_pages_error =
    Paging pt_error | PageFault page_fault_type exception "guest_phys raw_addr" | NestingTooDeep | UnalignedAddress
  | UnsupportedPageSize page_size | VmAddressOverflow | TlbCountUnderflow | InvalidTlbVersion | TlbFenceInProgress
  | OverlappingVmRegion | InsufficientVmRegionSpace | VmRegionNotFound | InvalidMapRegion | EmptyPageRange
  | NoImsicVirtualization | ImsicGeometryAlreadySet | IommuContextAlreadySet | NoIommu | AllocatingGscId iommu_error
  | CreatingMsiPageTable iommu_error | VmInvalidImsicLocation | MsiTableMapping iommu_error
  | AttachingDevice iommu_error | PageTrackerError page_tracking_error

type_synonym 'a vm_result = "(vm_pages_error, 'a) result"

section \<open>Counted versions\<close>

record ref_counted_tlb_version =
  rc_version :: tlb_version
  rc_count :: u64

definition rc_new :: "tlb_version \<Rightarrow> ref_counted_tlb_version" where
  "rc_new v = \<lparr>rc_version = v, rc_count = 0\<rparr>"

definition rc_get :: "ref_counted_tlb_version \<Rightarrow> ref_counted_tlb_version" where
  "rc_get r = r\<lparr>rc_count := rc_count r + 1\<rparr>"

definition rc_put :: "ref_counted_tlb_version \<Rightarrow> u64 vm_result \<times> ref_counted_tlb_version" where
  "rc_put r =
     (case checked_sub (rc_count r) 1 of
        None \<Rightarrow> (Err TlbCountUnderflow, r)
      | Some c \<Rightarrow> (Ok c, r\<lparr>rc_count := c\<rparr>))"

section \<open>The tracker\<close>

record tlb_tracker =
  tt_current :: ref_counted_tlb_version
  tt_prev :: "ref_counted_tlb_version option"

definition tlb_tracker_new :: tlb_tracker where
  "tlb_tracker_new = \<lparr>tt_current = rc_new tlb_version_new, tt_prev = None\<rparr>"

definition current_version :: "tlb_tracker \<Rightarrow> tlb_version" where
  "current_version t = rc_version (tt_current t)"

definition min_version :: "tlb_tracker \<Rightarrow> tlb_version" where
  "min_version t =
     (case tt_prev t of
        Some p \<Rightarrow> if rc_count p \<noteq> 0 then rc_version p else rc_version (tt_current t)
      | None \<Rightarrow> rc_version (tt_current t))"

definition tlb_tracker_increment :: "tlb_tracker \<Rightarrow> bool vm_result \<times> tlb_tracker" where
  "tlb_tracker_increment t =
     (if (case tt_prev t of None \<Rightarrow> True | Some v \<Rightarrow> rc_count v = 0) then
        let next_v = tlb_increment (rc_version (tt_current t));
            p = (if rc_count (tt_current t) \<noteq> 0 then Some (tt_current t) else None)
        in (Ok (p = None), \<lparr>tt_current = rc_new next_v, tt_prev = p\<rparr>)
      else (Err TlbFenceInProgress, t))"

definition get_version :: "tlb_tracker \<Rightarrow> tlb_version \<times> tlb_tracker" where
  "get_version t =
     (let c = rc_get (tt_current t) in (rc_version c, t\<lparr>tt_current := c\<rparr>))"

definition put_version :: "tlb_tracker \<Rightarrow> tlb_version \<Rightarrow> bool vm_result \<times> tlb_tracker" where
  "put_version t version =
     (if rc_version (tt_current t) = version then
        (case rc_put (tt_current t) of
           (Ok _, c) \<Rightarrow> (Ok False, t\<lparr>tt_current := c\<rparr>)
         | (Err e, c) \<Rightarrow> (Err e, t\<lparr>tt_current := c\<rparr>)
         | (Panic, c) \<Rightarrow> (Panic, t\<lparr>tt_current := c\<rparr>))
      else case tt_prev t of
        Some p \<Rightarrow>
          if rc_version p = version then
            (case rc_put p of
               (Ok n, p') \<Rightarrow>
                 if n = 0 then (Ok True, t\<lparr>tt_prev := None\<rparr>) else (Ok False, t\<lparr>tt_prev := Some p'\<rparr>)
             | (Err e, p') \<Rightarrow> (Err e, t\<lparr>tt_prev := Some p'\<rparr>)
             | (Panic, p') \<Rightarrow> (Panic, t\<lparr>tt_prev := Some p'\<rparr>))
          else (Err InvalidTlbVersion, t)
      | None \<Rightarrow> (Err InvalidTlbVersion, t))"

section \<open>Histories\<close>

text \<open>
  A history of an address space: a virtual CPU enters and holds the version it got, one that holds a
  version leaves, or a fence is requested. The second component counts the versions that are held; a
  version can only be given back by a holder, which is the ownership of \<open>ActiveVmPages\<close>.
\<close>

datatype tlb_event = Enter | Leave tlb_version | Fence

inductive tlb_step :: "tlb_event \<Rightarrow> tlb_tracker \<times> tlb_version multiset \<Rightarrow> tlb_tracker \<times> tlb_version multiset \<Rightarrow> bool" where
  tlb_enter: "get_version t = (v, t') \<Longrightarrow> tlb_step Enter (t, H) (t', add_mset v H)"
| tlb_leave: "v \<in># H \<Longrightarrow> put_version t v = (r, t') \<Longrightarrow> tlb_step (Leave v) (t, H) (t', H - {#v#})"
| tlb_fence: "tlb_tracker_increment t = (r, t') \<Longrightarrow> tlb_step Fence (t, H) (t', H)"

inductive tlb_history :: "tlb_event list \<Rightarrow> tlb_tracker \<times> tlb_version multiset \<Rightarrow> bool" where
  tlb_start: "tlb_history [] (tlb_tracker_new, {#})"
| tlb_snoc: "tlb_history es s \<Longrightarrow> tlb_step e s s' \<Longrightarrow> tlb_history (es @ [e]) s'"

text \<open>The counts are the numbers of holders, and only the current and the previous version are held.\<close>

definition tlb_inv :: "tlb_tracker \<Rightarrow> tlb_version multiset \<Rightarrow> bool" where
  "tlb_inv t H \<longleftrightarrow>
     count H (current_version t) = unat (rc_count (tt_current t))
   \<and> (case tt_prev t of
        None \<Rightarrow> set_mset H \<subseteq> {current_version t}
      | Some p \<Rightarrow> rc_version p < current_version t \<and> rc_count p \<noteq> 0 \<and> count H (rc_version p) = unat (rc_count p)
          \<and> set_mset H \<subseteq> {current_version t, rc_version p})"

lemma tlb_inv_new: "tlb_inv tlb_tracker_new {#}"
  by (simp add: tlb_inv_def tlb_tracker_new_def rc_new_def)

lemma tlb_inv_enter:
  assumes "tlb_inv t H" and "get_version t = (v, t')" and "size H < 2 ^ 64 - 1"
  shows "tlb_inv t' (add_mset v H) \<and> v = current_version t \<and> current_version t' = current_version t"
proof -
  have "count H (current_version t) \<le> size H"
    by (simp add: count_le_size)
  then have "unat (rc_count (tt_current t) + 1) = unat (rc_count (tt_current t)) + 1"
    using assms(1,3) unat_add_u64 [of "rc_count (tt_current t)" 1] by (simp add: tlb_inv_def)
  moreover have "v = current_version t" and t': "t' = t\<lparr>tt_current := rc_get (tt_current t)\<rparr>"
    using assms(2) by (simp_all add: get_version_def current_version_def rc_get_def Let_def)
  ultimately show ?thesis
    using assms(1) by (cases "tt_prev t") (auto simp: tlb_inv_def rc_get_def current_version_def)
qed

lemma tlb_inv_leave:
  assumes inv: "tlb_inv t H" and v: "v \<in># H" and put: "put_version t v = (r, t')"
  shows "tlb_inv t' (H - {#v#}) \<and> current_version t' = current_version t
    \<and> r = Ok (v \<noteq> current_version t \<and> count H v = 1)"
proof (cases "v = current_version t")
  case True
  then have c: "rc_count (tt_current t) \<noteq> 0" "count H (current_version t) = unat (rc_count (tt_current t))"
    using inv v by (auto simp: tlb_inv_def count_greater_zero_iff [symmetric] simp del: count_greater_zero_iff)
  then have "1 \<le> rc_count (tt_current t)"
    by (simp add: word_le_nat_alt Suc_le_eq unat_gt_0)
  then have "checked_sub (rc_count (tt_current t)) 1 = Some (rc_count (tt_current t) - 1)"
    and u: "unat (rc_count (tt_current t) - 1) = unat (rc_count (tt_current t)) - 1"
    by (simp_all add: checked_sub_def unat_sub_u64)
  then have r: "r = Ok False" and t': "t' = t\<lparr>tt_current := (tt_current t)\<lparr>rc_count := rc_count (tt_current t) - 1\<rparr>\<rparr>"
    using put True by (auto simp: put_version_def rc_put_def current_version_def)
  have "set_mset (H - {#v#}) \<subseteq> set_mset H"
    by (auto dest: in_diffD)
  then show ?thesis
    using inv c u True r by (cases "tt_prev t") (auto simp: tlb_inv_def t' current_version_def)
next
  case False
  then obtain p where p: "tt_prev t = Some p" "v = rc_version p" "rc_count p \<noteq> 0" "count H v = unat (rc_count p)"
    "rc_version p < current_version t" "set_mset H \<subseteq> {current_version t, rc_version p}"
    using inv v by (cases "tt_prev t") (auto simp: tlb_inv_def)
  then have "1 \<le> rc_count p"
    by (simp add: word_le_nat_alt Suc_le_eq unat_gt_0)
  then have cs: "checked_sub (rc_count p) 1 = Some (rc_count p - 1)" and u: "unat (rc_count p - 1) = unat (rc_count p) - 1"
    by (simp_all add: checked_sub_def unat_sub_u64)
  have z: "rc_count p - 1 = 0 \<longleftrightarrow> count H v = 1"
    using u p(3,4) by (metis One_nat_def Suc_pred' eq_iff_diff_eq_0 unat_1 unat_gt_0 word_unat_eq_iff)
  have r: "r = Ok (count H v = 1)"
    and t': "t' = t\<lparr>tt_prev := if count H v = 1 then None else Some (p\<lparr>rc_count := rc_count p - 1\<rparr>)\<rparr>"
    using put False p(1,2) cs z by (auto simp: put_version_def rc_put_def current_version_def split: if_splits)
  have sub: "set_mset (H - {#v#}) \<subseteq> (if count H v = 1 then {current_version t} else {current_version t, v})"
    using p(2,6) by (auto simp: in_diff_count split: if_splits)
  show ?thesis
    using inv p u z r sub False
    by (auto simp: tlb_inv_def t' current_version_def split: if_splits)
qed

lemma tlb_inv_fence:
  assumes inv: "tlb_inv t H" and inc: "tlb_tracker_increment t = (r, t')" and v: "unat (tlb_raw (current_version t)) + 1 < 2 ^ 64"
  shows "if \<forall>v \<in># H. v = current_version t
         then r = Ok (H = {#}) \<and> current_version t < current_version t' \<and> tlb_inv t' H
           \<and> unat (tlb_raw (current_version t')) = unat (tlb_raw (current_version t)) + 1
         else r = Err TlbFenceInProgress \<and> t' = t"
proof -
  have u: "unat (tlb_raw (current_version t) + 1) = unat (tlb_raw (current_version t)) + 1"
    using v unat_add_u64 [of "tlb_raw (current_version t)" 1] by simp
  then have lt: "current_version t < tlb_increment (current_version t)"
    by (simp add: less_tlb_version_def tlb_increment_def word_less_nat_alt)
  show ?thesis
  proof (cases "tt_prev t")
    case None
    have sub: "set_mset H \<subseteq> {current_version t}" and c: "count H (current_version t) = unat (rc_count (tt_current t))"
      using inv None by (simp_all add: tlb_inv_def)
    have z: "rc_count (tt_current t) = 0 \<longleftrightarrow> H = {#}"
      using c sub by (metis count_empty count_eq_zero_iff empty_iff insert_iff multiset_nonemptyE subset_iff unat_eq_zero)
    have n: "tlb_increment (current_version t) \<notin># H"
      using sub lt by auto
    show ?thesis
      using None inc sub c z lt u n
      by (auto simp: tlb_tracker_increment_def Let_def tlb_inv_def current_version_def rc_new_def tlb_increment_def
          not_in_iff [symmetric] split: if_splits)
  next
    case (Some p)
    then have p: "rc_version p < current_version t" "rc_count p \<noteq> 0" "count H (rc_version p) = unat (rc_count p)"
      using inv by (simp_all add: tlb_inv_def)
    then have "rc_version p \<in># H"
      by (simp add: count_greater_zero_iff [symmetric] unat_gt_0 del: count_greater_zero_iff)
    moreover have "rc_version p \<noteq> current_version t"
      using p(1) by simp
    ultimately have "\<not> (\<forall>v \<in># H. v = current_version t)"
      by blast
    then show ?thesis
      using Some p(2) inc by (simp add: tlb_tracker_increment_def)
  qed
qed

lemma min_version_eq:
  assumes "tlb_inv t H"
  shows "min_version t = Min (insert (current_version t) (set_mset H))"
proof (cases "tt_prev t")
  case None
  then have "insert (current_version t) (set_mset H) = {current_version t}"
    using assms by (auto simp: tlb_inv_def)
  moreover have "min_version t = current_version t"
    using None by (simp add: min_version_def current_version_def)
  ultimately show ?thesis
    by (simp only: Min_singleton)
next
  case (Some p)
  then have p: "rc_version p < current_version t" "rc_count p \<noteq> 0" "count H (rc_version p) = unat (rc_count p)"
    "set_mset H \<subseteq> {current_version t, rc_version p}"
    using assms by (simp_all add: tlb_inv_def)
  then have "rc_version p \<in># H"
    by (simp add: count_greater_zero_iff [symmetric] unat_gt_0 del: count_greater_zero_iff)
  then have "insert (current_version t) (set_mset H) = {current_version t, rc_version p}"
    using p(4) by auto
  moreover have "min_version t = rc_version p"
    using Some p(2) by (simp add: min_version_def)
  moreover have "Min {current_version t, rc_version p} = rc_version p"
    using p(1) by (auto simp: min_def)
  ultimately show ?thesis
    by (simp only:)
qed

lemma tlb_history_inv:
  "tlb_history es s \<Longrightarrow> length es < 2 ^ 64 - 1 \<Longrightarrow>
   tlb_inv (fst s) (snd s) \<and> unat (tlb_raw (current_version (fst s))) + size (snd s) \<le> length es"
proof (induction rule: tlb_history.induct)
  case tlb_start
  then show ?case
    by (simp add: tlb_inv_new) (simp add: tlb_tracker_new_def current_version_def rc_new_def tlb_version_new_def)
next
  case (tlb_snoc es s e s')
  obtain t H where s: "s = (t, H)"
    by (cases s)
  have inv: "tlb_inv t H" and n: "unat (tlb_raw (current_version t)) + size H \<le> length es" and l: "length es < 2 ^ 64 - 2"
    using tlb_snoc by (simp_all add: s)
  from tlb_snoc.hyps(2) [unfolded s] show ?case
  proof (cases rule: tlb_step.cases)
    case (tlb_enter v t')
    then show ?thesis
      using tlb_inv_enter [OF inv, of v t'] n l by auto
  next
    case (tlb_leave v r t')
    have "size (H - {#v#}) \<le> size H"
      by (simp add: size_mset_mono)
    then show ?thesis
      using tlb_inv_leave [OF inv, of v r t'] n tlb_leave by simp
  next
    case (tlb_fence r t')
    have "unat (tlb_raw (current_version t)) + 1 < 2 ^ 64"
      using n l by simp
    then show ?thesis
      using tlb_inv_fence [OF inv, of r t'] n tlb_fence inv by (simp split: if_splits)
  qed
qed

text \<open>Every version that is current or held after an event is at least one that was before.\<close>

lemma tlb_step_inv:
  assumes inv: "tlb_inv t H" and small: "unat (tlb_raw (current_version t)) + 1 < 2 ^ 64" "size H < 2 ^ 64 - 1"
    and step: "tlb_step e (t, H) (t1, H1)"
  shows "tlb_inv t1 H1 \<and> (\<forall>v \<in> insert (current_version t1) (set_mset H1).
    \<exists>w \<in> insert (current_version t) (set_mset H). w \<le> v)"
  using step
proof (cases rule: tlb_step.cases)
  case (tlb_enter v)
  then show ?thesis
    using tlb_inv_enter [OF inv _ small(2), of v t1] by auto
next
  case (tlb_leave v r)
  then show ?thesis
    using tlb_inv_leave [OF inv, of v r t1] by (auto dest: in_diffD)
next
  case (tlb_fence r)
  then show ?thesis
    using tlb_inv_fence [OF inv _ small(1), of r t1] inv by (auto split: if_splits intro: less_imp_le)
qed

text \<open>
  C38: TLB shootdowns are sound. In every history of fewer than \<open>2 ^ 64 - 1\<close> events, the reported minimum version
  is the oldest version that any virtual CPU still holds (the current one if none is held). Giving back a held
  version never fails, so the unwrap in \<open>drop\<close> cannot panic, and it reports a completed flush exactly when it
  gives back the last reference to an old version. A fence is refused, with nothing changed, exactly while an old
  version is held; otherwise it starts a larger version and reports completion exactly when no virtual CPU runs.
  No event ever lowers the minimum version.
\<close>

theorem tlb_shootdown_sound:
  assumes "tlb_history es (t, H)" and "length es < 2 ^ 64 - 1"
  shows "min_version t = Min (insert (current_version t) (set_mset H))
    \<and> (\<forall>v \<in># H. fst (put_version t v) = Ok (v \<noteq> current_version t \<and> count H v = 1))
    \<and> (case tlb_tracker_increment t of
         (Ok done, t') \<Rightarrow> (\<forall>v \<in># H. v = current_version t) \<and> done = (H = {#}) \<and> current_version t < current_version t'
       | (Err e, t') \<Rightarrow> e = TlbFenceInProgress \<and> t' = t \<and> (\<exists>v \<in># H. v < current_version t)
       | (Panic, t') \<Rightarrow> False)
    \<and> (\<forall>e t' H'. tlb_step e (t, H) (t', H') \<longrightarrow> min_version t \<le> min_version t')"
proof (intro conjI)
  have inv: "tlb_inv t H" and n: "unat (tlb_raw (current_version t)) + size H \<le> length es"
    using tlb_history_inv [OF assms] by simp_all
  then have small: "unat (tlb_raw (current_version t)) + 1 < 2 ^ 64" "size H < 2 ^ 64 - 1"
    using assms(2) by linarith+
  show min: "min_version t = Min (insert (current_version t) (set_mset H))"
    by (rule min_version_eq [OF inv])
  show "\<forall>v \<in># H. fst (put_version t v) = Ok (v \<noteq> current_version t \<and> count H v = 1)"
    using tlb_inv_leave [OF inv] by (metis prod.collapse)
  have le: "v \<le> current_version t" if "v \<in># H" for v
    using inv that by (cases "tt_prev t") (auto simp: tlb_inv_def)
  obtain r t' where f: "tlb_tracker_increment t = (r, t')"
    by (cases "tlb_tracker_increment t")
  note fence = tlb_inv_fence [OF inv f small(1)]
  show "case tlb_tracker_increment t of
         (Ok done, t') \<Rightarrow> (\<forall>v \<in># H. v = current_version t) \<and> done = (H = {#}) \<and> current_version t < current_version t'
       | (Err e, t') \<Rightarrow> e = TlbFenceInProgress \<and> t' = t \<and> (\<exists>v \<in># H. v < current_version t)
       | (Panic, t') \<Rightarrow> False"
  proof (cases "\<forall>v \<in># H. v = current_version t")
    case True
    then show ?thesis
      using fence unfolding f by simp
  next
    case False
    then obtain v where "v \<in># H" "v < current_version t"
      using le by (metis order_le_less)
    with False show ?thesis
      using fence unfolding f by auto
  qed
  show "\<forall>e t' H'. tlb_step e (t, H) (t', H') \<longrightarrow> min_version t \<le> min_version t'"
  proof (intro allI impI)
    fix e t1 H1
    assume "tlb_step e (t, H) (t1, H1)"
    then have inv1: "tlb_inv t1 H1"
      and sub: "\<forall>v \<in> insert (current_version t1) (set_mset H1). \<exists>w \<in> insert (current_version t) (set_mset H). w \<le> v"
      using tlb_step_inv [OF inv small] by auto
    have "Min (insert (current_version t) (set_mset H)) \<le> v" if "v \<in> insert (current_version t1) (set_mset H1)" for v
      using sub that by (meson Min_le finite.insertI finite_set_mset order_trans)
    then show "min_version t \<le> min_version t1"
      unfolding min min_version_eq [OF inv1] by (meson Min_in finite.insertI finite_set_mset insert_not_empty)
  qed
qed

theorem tlb_shootdown_sound_witness:
  "\<exists>t. tlb_history [Enter, Fence, Enter] (t, {#TlbVersion 1, TlbVersion 0#}) \<and> min_version t = TlbVersion 0
     \<and> fst (tlb_tracker_increment t) = Err TlbFenceInProgress"
proof -
  let ?t = "\<lparr>tt_current = \<lparr>rc_version = TlbVersion 1, rc_count = 1\<rparr>, tt_prev = Some \<lparr>rc_version = TlbVersion 0, rc_count = 1\<rparr>\<rparr>"
  have "tlb_history ([] @ [Enter]) (\<lparr>tt_current = \<lparr>rc_version = TlbVersion 0, rc_count = 1\<rparr>, tt_prev = None\<rparr>, {#TlbVersion 0#})"
    by (rule tlb_snoc [OF tlb_start tlb_enter])
       (simp add: get_version_def tlb_tracker_new_def rc_new_def rc_get_def tlb_version_new_def)
  then have "tlb_history (([] @ [Enter]) @ [Fence]) (\<lparr>tt_current = \<lparr>rc_version = TlbVersion 1, rc_count = 0\<rparr>,
      tt_prev = Some \<lparr>rc_version = TlbVersion 0, rc_count = 1\<rparr>\<rparr>, {#TlbVersion 0#})"
    by (rule tlb_snoc [OF _ tlb_fence]) (simp add: tlb_tracker_increment_def rc_new_def tlb_increment_def)
  then have "tlb_history ((([] @ [Enter]) @ [Fence]) @ [Enter]) (?t, {#TlbVersion 1, TlbVersion 0#})"
    by (rule tlb_snoc [OF _ tlb_enter]) (simp add: get_version_def rc_get_def)
  then have h: "tlb_history [Enter, Fence, Enter] (?t, {#TlbVersion 1, TlbVersion 0#})"
    by simp
  have "current_version ?t = TlbVersion 1"
    by (simp add: current_version_def)
  then show ?thesis
    using h tlb_shootdown_sound [OF h]
    by (intro exI [of _ ?t]) (auto simp: min_version_def tlb_tracker_increment_def split: prod.splits result.splits)
qed

end
