(* ===== verification/Vm_Regions.thy ===== *)
theory Vm_Regions
  imports Tlb_Tracker Array_Vec
begin

text \<open>
  The regions of a guest's physical address space (\<open>src/vm_pages.rs\<close>, lines 293 to 592): a sorted vector of
  disjoint regions, each with the purpose its addresses serve. Pages enter an address space only inside a
  region of the right type. Operations that can fail after a change return the list beside the result.
\<close>

section \<open>Regions and their list\<close>

datatype vm_region_type =
    ConfidentialRegion | SharedRegion | MmioRegion | ImsicRegion | PciRegion
  | Sharing tlb_version | Unsharing tlb_version | Updating

record vm_region =
  vr_start :: guest_page_addr
  vr_end :: guest_page_addr
  vr_type :: vm_region_type

definition MAX_MEM_REGIONS :: nat where "MAX_MEM_REGIONS = 128"

type_synonym vm_region_list = "vm_region list"

definition region_list_new :: vm_region_list where
  "region_list_new = []"

text \<open>\<open>Iterator::position\<close>.\<close>

fun position :: "('a \<Rightarrow> bool) \<Rightarrow> 'a list \<Rightarrow> nat option" where
  "position p [] = None"
| "position p (x # xs) = (if p x then Some 0 else map_option Suc (position p xs))"

text \<open>The loop of \<open>add\<close>: the index at which a region goes, or the overlap that forbids it.\<close>

fun region_insert_index :: "guest_page_addr \<Rightarrow> guest_page_addr \<Rightarrow> vm_region_list \<Rightarrow> nat \<Rightarrow> nat vm_result" where
  "region_insert_index start fin [] index = Ok index"
| "region_insert_index start fin (other # rest) index =
     (if page_addr_lt start (vr_start other) then
        if page_addr_lt (vr_start other) fin then Err OverlappingVmRegion else Ok index
      else if page_addr_lt start (vr_end other) then Err OverlappingVmRegion
      else region_insert_index start fin rest (index + 1))"

definition try_coalesce_at :: "vm_region array_vec \<Rightarrow> vm_region_list \<Rightarrow> nat \<Rightarrow> nat option \<times> vm_region_list" where
  "try_coalesce_at av rs index =
     (if index < length rs then
        let start = vr_start (rs ! index);
            fin = vr_end (rs ! index);
            ty = vr_type (rs ! index);
            (index, start, rs) =
              (let prev = rs ! (index - 1) in
               if 0 < index \<and> vr_end prev = start \<and> vr_type prev = ty
               then (index - 1, vr_start prev, av_remove av (rs[index - 1 := prev\<lparr>vr_end := fin\<rparr>]) index)
               else (index, start, rs));
            rs =
              (let next_r = rs ! (index + 1) in
               if index + 1 < length rs \<and> vr_start next_r = fin \<and> vr_type next_r = ty
               then av_remove av (rs[index + 1 := next_r\<lparr>vr_start := start\<rparr>]) index
               else rs)
        in (Some index, rs)
      else (None, rs))"

definition region_add ::
    "vm_region array_vec \<Rightarrow> guest_page_addr \<Rightarrow> guest_page_addr \<Rightarrow> vm_region_type \<Rightarrow> vm_region_list
      \<Rightarrow> unit vm_result \<times> vm_region_list" where
  "region_add av start fin ty rs =
     (case region_insert_index start fin rs 0 of
        Err e \<Rightarrow> (Err e, rs)
      | Panic \<Rightarrow> (Panic, rs)
      | Ok index \<Rightarrow>
          (case av_try_insert av rs index \<lparr>vr_start = start, vr_end = fin, vr_type = ty\<rparr> of
             None \<Rightarrow> (Err InsufficientVmRegionSpace, rs)
           | Some rs \<Rightarrow> (Ok (), snd (try_coalesce_at av rs index))))"

text \<open>The closure of \<open>remove\<close>, \<open>update\<close> and \<open>contains\<close>.\<close>

definition region_holds :: "guest_page_addr \<Rightarrow> guest_page_addr \<Rightarrow> vm_region_type \<Rightarrow> vm_region \<Rightarrow> bool" where
  "region_holds start fin ty r =
     (page_addr_le (vr_start r) start \<and> page_addr_le fin (vr_end r) \<and> vr_type r = ty)"

definition region_remove ::
    "vm_region array_vec \<Rightarrow> guest_page_addr \<Rightarrow> guest_page_addr \<Rightarrow> vm_region_type \<Rightarrow> vm_region_list
      \<Rightarrow> unit vm_result \<times> vm_region_list" where
  "region_remove av start fin ty rs =
     (case position (region_holds start fin ty) rs of
        None \<Rightarrow> (Err InvalidMapRegion, rs)
      | Some index \<Rightarrow>
          let r_start = vr_start (rs ! index);
              r_end = vr_end (rs ! index)
          in if page_addr_lt r_start start \<and> page_addr_lt fin r_end \<and> av_is_full av rs
             then (Err InsufficientVmRegionSpace, rs)
             else
               let rs = av_remove av rs index;
                   (res, index) =
                     (if page_addr_lt r_start start
                      then (av_insert av rs index \<lparr>vr_start = r_start, vr_end = start, vr_type = ty\<rparr>, index + 1)
                      else (Ok rs, index))
               in case res of
                    Err e \<Rightarrow> (Err e, rs)
                  | Panic \<Rightarrow> (Panic, rs)
                  | Ok rs \<Rightarrow>
                      if page_addr_lt fin r_end
                      then (case av_insert av rs index \<lparr>vr_start = fin, vr_end = r_end, vr_type = ty\<rparr> of
                              Err e \<Rightarrow> (Err e, rs)
                            | Panic \<Rightarrow> (Panic, rs)
                            | Ok rs \<Rightarrow> (Ok (), rs))
                      else (Ok (), rs))"

text \<open>The handle on a region that is being updated; it borrows the list, so the list is passed beside it.\<close>

record vm_region_updater =
  ru_index :: nat
  ru_type :: vm_region_type

definition region_update ::
    "vm_region array_vec \<Rightarrow> guest_page_addr \<Rightarrow> guest_page_addr \<Rightarrow> vm_region_type \<Rightarrow> vm_region_list
      \<Rightarrow> vm_region_updater vm_result \<times> vm_region_list" where
  "region_update av start fin ty rs =
     (case position (region_holds start fin ty) rs of
        None \<Rightarrow> (Err VmRegionNotFound, rs)
      | Some index \<Rightarrow>
          let to_split = rs ! index;
              to_reserve = (if vr_start to_split \<noteq> start then 1 else 0) + (if vr_end to_split \<noteq> fin then 1 else 0)
          in if av_remaining_capacity av rs < to_reserve then (Err InsufficientVmRegionSpace, rs)
             else
               let (res, index) =
                     (if vr_start to_split \<noteq> start
                      then (av_insert av rs index \<lparr>vr_start = vr_start to_split, vr_end = start, vr_type = ty\<rparr>, index + 1)
                      else (Ok rs, index))
               in case res of
                    Err e \<Rightarrow> (Err e, rs)
                  | Panic \<Rightarrow> (Panic, rs)
                  | Ok rs \<Rightarrow>
                      let rs = rs[index := \<lparr>vr_start = start, vr_end = fin, vr_type = Updating\<rparr>];
                          u = \<lparr>ru_index = index, ru_type = ty\<rparr>
                      in if vr_end to_split \<noteq> fin
                         then (case av_insert av rs (index + 1)
                                   \<lparr>vr_start = fin, vr_end = vr_end to_split, vr_type = ty\<rparr> of
                                 Err e \<Rightarrow> (Err e, rs)
                               | Panic \<Rightarrow> (Panic, rs)
                               | Ok rs \<Rightarrow> (Ok u, rs))
                         else (Ok u, rs))"

definition updater_drop :: "vm_region array_vec \<Rightarrow> vm_region_updater \<Rightarrow> vm_region_list \<Rightarrow> unit vm_result \<times> vm_region_list" where
  "updater_drop av u rs =
     (if ru_index u < length rs then
        (Ok (), snd (try_coalesce_at av (rs[ru_index u := (rs ! ru_index u)\<lparr>vr_type := ru_type u\<rparr>]) (ru_index u)))
      else (Panic, rs))"

definition updater_finish ::
    "vm_region array_vec \<Rightarrow> vm_region_type \<Rightarrow> vm_region_updater \<Rightarrow> vm_region_list \<Rightarrow> unit vm_result \<times> vm_region_list" where
  "updater_finish av new_type u rs = updater_drop av (u\<lparr>ru_type := new_type\<rparr>) rs"

text \<open>
  The loop of \<open>update_all\<close>. The closure may change state outside of the list, and may panic, so it takes
  that state and returns it. Every turn moves the index closer to the end of the list, so as many turns as
  the list has regions are enough; that is proved below.
\<close>

fun update_all_loop ::
    "vm_region array_vec \<Rightarrow> (vm_region \<Rightarrow> 's \<Rightarrow> vm_region_type option vm_result \<times> 's) \<Rightarrow> nat \<Rightarrow> nat
      \<Rightarrow> vm_region_list \<Rightarrow> 's \<Rightarrow> unit vm_result \<times> vm_region_list \<times> 's" where
  "update_all_loop av update_fn 0 i rs s = (if i < length rs then Panic else Ok (), rs, s)"
| "update_all_loop av update_fn (Suc n) i rs s =
     (if i < length rs then
        (case update_fn (rs ! i) s of
           (Ok (Some new_type), s') \<Rightarrow>
             (case try_coalesce_at av (rs[i := (rs ! i)\<lparr>vr_type := new_type\<rparr>]) i of
                (Some j, rs') \<Rightarrow> update_all_loop av update_fn n (j + 1) rs' s'
              | (None, rs') \<Rightarrow> (Panic, rs', s'))
         | (Ok None, s') \<Rightarrow> update_all_loop av update_fn n (i + 1) rs s'
         | (Err e, s') \<Rightarrow> (Err e, rs, s')
         | (Panic, s') \<Rightarrow> (Panic, rs, s'))
      else (Ok (), rs, s))"

definition region_update_all ::
    "vm_region array_vec \<Rightarrow> (vm_region \<Rightarrow> 's \<Rightarrow> vm_region_type option vm_result \<times> 's)
      \<Rightarrow> vm_region_list \<Rightarrow> 's \<Rightarrow> unit vm_result \<times> vm_region_list \<times> 's" where
  "region_update_all av update_fn rs s = update_all_loop av update_fn (length rs) 0 rs s"

definition region_contains :: "guest_page_addr \<Rightarrow> guest_page_addr \<Rightarrow> vm_region_type \<Rightarrow> vm_region_list \<Rightarrow> bool" where
  "region_contains start fin ty rs = list_ex (region_holds start fin ty) rs"

definition region_find :: "guest_phys raw_addr \<Rightarrow> vm_region_list \<Rightarrow> vm_region_type option" where
  "region_find addr rs =
     map_option vr_type
       (find (\<lambda>r. page_addr_bits (vr_start r) \<le> raw_bits addr \<and> raw_bits addr < page_addr_bits (vr_end r)) rs)"

section \<open>What a list means\<close>

definition vr_lo :: "vm_region \<Rightarrow> nat" where "vr_lo r = addr_nat (vr_start r)"

definition vr_hi :: "vm_region \<Rightarrow> nat" where "vr_hi r = addr_nat (vr_end r)"

definition in_region :: "nat \<Rightarrow> vm_region \<Rightarrow> bool" where
  "in_region a r \<longleftrightarrow> vr_lo r \<le> a \<and> a < vr_hi r"

text \<open>Regions do not end before they start, and follow each other; a region may be empty.\<close>

definition regions_wf :: "vm_region_list \<Rightarrow> bool" where
  "regions_wf rs \<longleftrightarrow> (\<forall>r \<in> set rs. vr_lo r \<le> vr_hi r) \<and> sorted_wrt (\<lambda>r r'. vr_hi r \<le> vr_lo r') rs"

text \<open>The purpose of each address: a partial map, which is all that the users of a list rely on.\<close>

definition region_view :: "vm_region_list \<Rightarrow> nat \<Rightarrow> vm_region_type option" where
  "region_view rs a = map_option vr_type (find (in_region a) rs)"

definition view_set :: "nat \<Rightarrow> nat \<Rightarrow> vm_region_type option \<Rightarrow> (nat \<Rightarrow> vm_region_type option) \<Rightarrow> nat \<Rightarrow> vm_region_type option" where
  "view_set lo hi t v a = (if lo \<le> a \<and> a < hi then t else v a)"

lemma vr_sel [simp]:
  "vr_lo \<lparr>vr_start = s, vr_end = e, vr_type = t\<rparr> = addr_nat s"
  "vr_hi \<lparr>vr_start = s, vr_end = e, vr_type = t\<rparr> = addr_nat e"
  "vr_lo (r\<lparr>vr_type := t\<rparr>) = vr_lo r" "vr_hi (r\<lparr>vr_type := t\<rparr>) = vr_hi r"
  by (simp_all add: vr_lo_def vr_hi_def)

lemma region_find_view: "region_find addr rs = region_view rs (unat (raw_bits addr))"
proof -
  have "(\<lambda>r. page_addr_bits (vr_start r) \<le> raw_bits addr \<and> raw_bits addr < page_addr_bits (vr_end r))
      = in_region (unat (raw_bits addr))"
    by (simp add: fun_eq_iff in_region_def vr_lo_def vr_hi_def addr_nat_def word_le_nat_alt word_less_nat_alt)
  then show ?thesis
    by (simp only: region_find_def region_view_def)
qed

lemma region_holds_iff [simp]:
  "region_holds start fin ty r \<longleftrightarrow> vr_lo r \<le> addr_nat start \<and> addr_nat fin \<le> vr_hi r \<and> vr_type r = ty"
  by (simp add: region_holds_def page_addr_le_iff vr_lo_def vr_hi_def)

lemma position_Some:
  "position p xs = Some i \<Longrightarrow> \<exists>pre x post. xs = pre @ x # post \<and> length pre = i \<and> p x"
proof (induction xs arbitrary: i)
  case (Cons y ys)
  show ?case
  proof (cases "p y")
    case True
    then show ?thesis
      using Cons.prems by (intro exI [of _ "[]"]) auto
  next
    case False
    then obtain j where j: "position p ys = Some j" "i = Suc j"
      using Cons.prems by auto
    then obtain pre x post where "ys = pre @ x # post" "length pre = j" "p x"
      using Cons.IH by blast
    then show ?thesis
      using j by (intro exI [of _ "y # pre"]) auto
  qed
qed simp

lemma position_None: "position p xs = None \<longleftrightarrow> \<not> list_ex p xs"
  by (induction xs) auto

lemma regions_wf_append:
  "regions_wf (xs @ ys) \<longleftrightarrow> regions_wf xs \<and> regions_wf ys \<and> (\<forall>x \<in> set xs. \<forall>y \<in> set ys. vr_hi x \<le> vr_lo y)"
  by (auto simp: regions_wf_def sorted_wrt_append)

lemma regions_wf_Cons:
  "regions_wf (r # rs) \<longleftrightarrow> vr_lo r \<le> vr_hi r \<and> regions_wf rs \<and> (\<forall>y \<in> set rs. vr_hi r \<le> vr_lo y)"
  by (auto simp: regions_wf_def)

lemma regions_wf_Nil [simp]: "regions_wf []"
  by (simp add: regions_wf_def)

lemmas regions_wf_simps = regions_wf_append regions_wf_Cons

lemma region_view_iff:
  assumes "regions_wf rs"
  shows "region_view rs a = Some t \<longleftrightarrow> (\<exists>r \<in> set rs. in_region a r \<and> vr_type r = t)"
  using assms
proof (induction rs)
  case (Cons r rs)
  then have wf: "regions_wf rs" and after: "\<And>y. y \<in> set rs \<Longrightarrow> vr_hi r \<le> vr_lo y"
    by (simp_all add: regions_wf_Cons)
  have step: "region_view (r # rs) a = (if in_region a r then Some (vr_type r) else region_view rs a)"
    by (simp add: region_view_def)
  have none: "in_region a r \<Longrightarrow> r' \<in> set rs \<Longrightarrow> \<not> in_region a r'" for r'
    using after [of r'] by (simp add: in_region_def)
  show ?case
  proof (cases "in_region a r")
    case True
    then show ?thesis
      using none step by auto
  next
    case False
    then show ?thesis
      using Cons.IH [OF wf] step by simp
  qed
qed (simp add: region_view_def)

lemma region_view_eqI:
  assumes "regions_wf rs" and "\<And>a t. (\<exists>r \<in> set rs. in_region a r \<and> vr_type r = t) \<longleftrightarrow> v a = Some t"
  shows "region_view rs = v"
proof
  fix a
  show "region_view rs a = v a"
    using region_view_iff [OF assms(1), of a] assms(2) [of a] by (metis not_Some_eq)
qed

section \<open>Coalescing\<close>

definition touches :: "vm_region \<Rightarrow> vm_region \<Rightarrow> bool" where
  "touches r r' \<longleftrightarrow> vr_end r = vr_start r' \<and> vr_type r = vr_type r'"

text \<open>The list with the region in its middle coalesced with its neighbours: what is before it, it, what is after it.\<close>

definition co_before :: "vm_region_list \<Rightarrow> vm_region \<Rightarrow> vm_region_list" where
  "co_before pre r = (if pre \<noteq> [] \<and> touches (last pre) r then butlast pre else pre)"

definition co_region :: "vm_region_list \<Rightarrow> vm_region \<Rightarrow> vm_region_list \<Rightarrow> vm_region" where
  "co_region pre r post =
     \<lparr>vr_start = (if pre \<noteq> [] \<and> touches (last pre) r then vr_start (last pre) else vr_start r),
      vr_end = (if post \<noteq> [] \<and> touches r (hd post) then vr_end (hd post) else vr_end r),
      vr_type = vr_type r\<rparr>"

definition co_after :: "vm_region \<Rightarrow> vm_region_list \<Rightarrow> vm_region_list" where
  "co_after r post = (if post \<noteq> [] \<and> touches r (hd post) then tl post else post)"

lemmas co_defs = co_before_def co_region_def co_after_def

lemma try_coalesce_eq:
  assumes "array_vec_ok cap av"
  shows "try_coalesce_at av (pre @ r # post) (length pre)
    = (Some (length (co_before pre r)), co_before pre r @ co_region pre r post # co_after r post)"
proof (cases pre rule: rev_cases)
  case Nil
  show ?thesis
  proof (cases post)
    case Nil
    then show ?thesis
      using \<open>pre = []\<close> by (simp add: try_coalesce_at_def co_defs)
  next
    case (Cons q post')
    then show ?thesis
      using \<open>pre = []\<close> remove_eq [OF assms, of "[]" r "q\<lparr>vr_start := vr_start r\<rparr> # post'"]
      by (cases q) (auto simp: try_coalesce_at_def co_defs touches_def Let_def)
  qed
next
  case (snoc pre' p)
  show ?thesis
  proof (cases "touches p r")
    case True
    then have mp: "vr_end p = vr_start r" "vr_type p = vr_type r"
      by (simp_all add: touches_def)
    have rm: "av_remove av (pre' @ p\<lparr>vr_end := vr_end r\<rparr> # r # post) (Suc (length pre'))
        = pre' @ p\<lparr>vr_end := vr_end r\<rparr> # post"
      using remove_eq [OF assms, of "pre' @ [p\<lparr>vr_end := vr_end r\<rparr>]" r post] by simp
    show ?thesis
    proof (cases post)
      case Nil
      then show ?thesis
        using snoc True mp rm
        by (cases p) (simp add: try_coalesce_at_def co_defs nth_append list_update_append Let_def)
    next
      case (Cons q post')
      have "av_remove av (pre' @ p\<lparr>vr_end := vr_end r\<rparr> # q\<lparr>vr_start := vr_start p\<rparr> # post') (length pre')
          = pre' @ q\<lparr>vr_start := vr_start p\<rparr> # post'"
        using remove_eq [OF assms, of pre'] by blast
      then show ?thesis
        using snoc Cons True mp rm
        by (cases p; cases q) (auto simp: try_coalesce_at_def co_defs nth_append list_update_append Let_def touches_def)
    qed
  next
    case False
    show ?thesis
    proof (cases post)
      case Nil
      then show ?thesis
        using snoc False
        by (cases r) (auto simp: try_coalesce_at_def co_defs nth_append Let_def touches_def)
    next
      case (Cons q post')
      have "av_remove av (pre' @ p # r # q\<lparr>vr_start := vr_start r\<rparr> # post') (Suc (length pre'))
          = pre' @ p # q\<lparr>vr_start := vr_start r\<rparr> # post'"
        using remove_eq [OF assms, of "pre' @ [p]" r] by simp
      then show ?thesis
        using snoc Cons False
        by (cases q; cases r) (auto simp: try_coalesce_at_def co_defs nth_append list_update_append Let_def touches_def)
    qed
  qed
qed

text \<open>Coalescing keeps the list well-formed and does not change the purpose of any address.\<close>

lemma merge_correct:
  assumes wf: "regions_wf (xs @ p # q # ys)" and t: "touches p q"
  shows "regions_wf (xs @ \<lparr>vr_start = vr_start p, vr_end = vr_end q, vr_type = vr_type p\<rparr> # ys)
    \<and> region_view (xs @ \<lparr>vr_start = vr_start p, vr_end = vr_end q, vr_type = vr_type p\<rparr> # ys)
      = region_view (xs @ p # q # ys)"
proof -
  let ?m = "\<lparr>vr_start = vr_start p, vr_end = vr_end q, vr_type = vr_type p\<rparr>"
  have e: "vr_hi p = vr_lo q" "vr_type q = vr_type p"
    using t by (simp_all add: touches_def vr_lo_def vr_hi_def)
  have m: "vr_lo ?m = vr_lo p" "vr_hi ?m = vr_hi q"
    by (simp_all add: vr_lo_def vr_hi_def)
  have wf': "regions_wf (xs @ ?m # ys)"
    using wf e unfolding regions_wf_append regions_wf_Cons by (auto simp: vr_lo_def vr_hi_def)
  have "in_region a ?m \<longleftrightarrow> in_region a p \<or> in_region a q" for a
    using wf e m unfolding regions_wf_append regions_wf_Cons by (auto simp: in_region_def)
  then have "region_view (xs @ ?m # ys) = region_view (xs @ p # q # ys)"
    by (intro region_view_eqI [OF wf']) (auto simp: region_view_iff [OF wf] e)
  with wf' show ?thesis
    by simp
qed

lemma coalesce_correct:
  assumes "regions_wf (pre @ r # post)"
  shows "regions_wf (co_before pre r @ co_region pre r post # co_after r post)
    \<and> region_view (co_before pre r @ co_region pre r post # co_after r post) = region_view (pre @ r # post)"
proof -
  define r1 where "r1 = co_region pre r []"
  have r1: "regions_wf (co_before pre r @ r1 # post) \<and> region_view (co_before pre r @ r1 # post) = region_view (pre @ r # post)"
  proof (cases "pre \<noteq> [] \<and> touches (last pre) r")
    case True
    then have e: "butlast pre @ last pre # r # post = pre @ r # post"
      by (metis append_butlast_last_id append.assoc append_Cons append_Nil)
    have "r1 = \<lparr>vr_start = vr_start (last pre), vr_end = vr_end r, vr_type = vr_type (last pre)\<rparr>"
      using True by (simp add: r1_def co_region_def touches_def)
    then show ?thesis
      using merge_correct [of "butlast pre" "last pre" r post, unfolded e] assms True by (simp add: co_before_def)
  next
    case False
    then show ?thesis
      using assms by (cases r) (auto simp: r1_def co_defs)
  qed
  show ?thesis
  proof (cases "post \<noteq> [] \<and> touches r (hd post)")
    case True
    then obtain q post' where post: "post = q # post'" "touches r q"
      by (cases post) auto
    then have "touches r1 q"
      by (simp add: r1_def touches_def co_region_def)
    moreover have "co_region pre r post = \<lparr>vr_start = vr_start r1, vr_end = vr_end q, vr_type = vr_type r1\<rparr>"
      using post by (simp add: r1_def co_region_def)
    ultimately show ?thesis
      using merge_correct [of "co_before pre r" r1 q post'] r1 post by (simp add: co_after_def)
  next
    case False
    then have "co_region pre r post = r1"
      by (auto simp: r1_def co_region_def)
    then show ?thesis
      using r1 False by (auto simp: co_after_def)
  qed
qed

text \<open>
  Lists in normal form: no region is empty, and no two neighbours of the same type touch. The addresses
  of a list belong to the address space of one guest.
\<close>

definition region_proper :: "guest_phys \<Rightarrow> vm_region \<Rightarrow> bool" where
  "region_proper g r \<longleftrightarrow> vr_lo r < vr_hi r \<and> addr_space (vr_start r) = g \<and> addr_space (vr_end r) = g"

definition regions_normal :: "guest_phys \<Rightarrow> vm_region_list \<Rightarrow> bool" where
  "regions_normal g rs \<longleftrightarrow> list_all (region_proper g) rs \<and> successively (\<lambda>r r'. \<not> touches r r') rs"

lemma regions_normal_Nil [simp]: "regions_normal g []"
  by (simp add: regions_normal_def)

lemma regions_normal_append:
  "regions_normal g (xs @ ys) \<longleftrightarrow>
     regions_normal g xs \<and> regions_normal g ys \<and> (xs = [] \<or> ys = [] \<or> \<not> touches (last xs) (hd ys))"
  by (auto simp: regions_normal_def successively_append_iff)

lemma regions_normal_Cons:
  "regions_normal g (r # rs) \<longleftrightarrow> region_proper g r \<and> regions_normal g rs \<and> (rs = [] \<or> \<not> touches r (hd rs))"
  by (cases rs) (auto simp: regions_normal_def)

lemmas regions_normal_simps = regions_normal_append regions_normal_Cons

lemma coalesce_normal:
  assumes wf: "regions_wf (pre @ r # post)" and n: "regions_normal g pre" "regions_normal g post" "region_proper g r"
  shows "regions_normal g (co_before pre r @ co_region pre r post # co_after r post)"
proof -
  let ?r = "co_region pre r post"
  have lo: "vr_lo ?r \<le> vr_lo r \<and> addr_space (vr_start ?r) = g"
  proof (cases "pre \<noteq> [] \<and> touches (last pre) r")
    case True
    then have "last pre \<in> set pre" by simp
    then have "region_proper g (last pre)" "vr_hi (last pre) \<le> vr_lo r"
      using n(1) wf by (auto simp: regions_normal_def list_all_iff regions_wf_simps)
    then show ?thesis
      using True by (auto simp: co_region_def region_proper_def vr_lo_def)
  qed (use n(3) in \<open>auto simp: co_region_def region_proper_def vr_lo_def\<close>)
  have hi: "vr_hi r \<le> vr_hi ?r \<and> addr_space (vr_end ?r) = g"
  proof (cases "post \<noteq> [] \<and> touches r (hd post)")
    case True
    then have "hd post \<in> set post" by simp
    then have "region_proper g (hd post)" "vr_hi r \<le> vr_lo (hd post)"
      using n(2) wf by (auto simp: regions_normal_def list_all_iff regions_wf_simps)
    then show ?thesis
      using True by (auto simp: co_region_def region_proper_def vr_hi_def)
  qed (use n(3) in \<open>auto simp: co_region_def region_proper_def vr_hi_def\<close>)
  have proper: "region_proper g ?r"
    using lo hi n(3) by (simp add: region_proper_def)
  have before: "regions_normal g (co_before pre r) \<and> (co_before pre r = [] \<or> \<not> touches (last (co_before pre r)) ?r)"
  proof (cases pre rule: rev_cases)
    case (snoc pre' p)
    then show ?thesis
      using n(1) by (auto simp: co_before_def co_region_def regions_normal_simps touches_def)
  qed (simp add: co_before_def)
  have after: "regions_normal g (co_after r post) \<and> (co_after r post = [] \<or> \<not> touches ?r (hd (co_after r post)))"
  proof (cases post)
    case (Cons q post')
    then show ?thesis
      using n(2) by (auto simp: co_after_def co_region_def regions_normal_simps touches_def)
  qed (simp add: co_after_def)
  show ?thesis
    using proper before after by (simp add: regions_normal_simps)
qed

text \<open>In normal form a range lies in one region of a type as soon as all its addresses have that type.\<close>

lemma normal_contains:
  assumes wf: "regions_wf rs" and n: "regions_normal g rs" and lt: "addr_nat start < addr_nat fin"
  shows "region_contains start fin ty rs \<longleftrightarrow> (\<forall>a. addr_nat start \<le> a \<and> a < addr_nat fin \<longrightarrow> region_view rs a = Some ty)"
proof
  assume "region_contains start fin ty rs"
  then obtain r where "r \<in> set rs" "vr_lo r \<le> addr_nat start" "addr_nat fin \<le> vr_hi r" "vr_type r = ty"
    by (auto simp: region_contains_def list_ex_iff)
  then show "\<forall>a. addr_nat start \<le> a \<and> a < addr_nat fin \<longrightarrow> region_view rs a = Some ty"
    by (auto simp: region_view_iff [OF wf] in_region_def intro!: bexI [of _ r])
next
  assume all: "\<forall>a. addr_nat start \<le> a \<and> a < addr_nat fin \<longrightarrow> region_view rs a = Some ty"
  then obtain r where r: "r \<in> set rs" "in_region (addr_nat start) r" "vr_type r = ty"
    using lt by (metis order_refl region_view_iff [OF wf])
  have "addr_nat fin \<le> vr_hi r"
  proof (rule ccontr)
    assume "\<not> addr_nat fin \<le> vr_hi r"
    then have "region_view rs (vr_hi r) = Some ty"
      using all r(2) by (simp add: in_region_def)
    then obtain r' where r': "r' \<in> set rs" "in_region (vr_hi r) r'" "vr_type r' = ty"
      by (auto simp: region_view_iff [OF wf])
    obtain xs ys where rs: "rs = xs @ r # ys"
      using r(1) by (meson split_list)
    have "r' \<in> set ys"
      using r' r(2) wf unfolding rs by (fastforce simp: in_region_def regions_wf_simps)
    then obtain y zs where ys: "ys = y # zs"
      by (cases ys) auto
    have proper: "region_proper g r" "region_proper g y" and nt: "\<not> touches r y"
      using n unfolding rs ys by (auto simp: regions_normal_simps)
    have "r' = y"
      using \<open>r' \<in> set ys\<close> r'(2) wf proper(2) unfolding rs ys
      by (fastforce simp: in_region_def regions_wf_simps region_proper_def)
    then have "vr_hi r = vr_lo y"
      using r'(2) wf unfolding rs ys by (fastforce simp: in_region_def regions_wf_simps)
    then have "touches r y"
      using proper r(3) r'(3) \<open>r' = y\<close>
      by (simp add: touches_def page_addr_eq_iff region_proper_def vr_lo_def vr_hi_def)
    with nt show False ..
  qed
  then show "region_contains start fin ty rs"
    using r by (auto simp: region_contains_def list_ex_iff in_region_def)
qed

section \<open>The operations\<close>

text \<open>What forbids an insertion; for ranges and regions that are not empty it is that they share an address.\<close>

definition region_clash :: "guest_page_addr \<Rightarrow> guest_page_addr \<Rightarrow> vm_region \<Rightarrow> bool" where
  "region_clash start fin r \<longleftrightarrow>
     vr_lo r \<le> addr_nat start \<and> addr_nat start < vr_hi r \<or> addr_nat start < vr_lo r \<and> vr_lo r < addr_nat fin"

lemma insert_index_correct:
  assumes "regions_wf rs" and "addr_nat start \<le> addr_nat fin"
  shows "if list_ex (region_clash start fin) rs then region_insert_index start fin rs k = Err OverlappingVmRegion
    else \<exists>pre post. rs = pre @ post \<and> region_insert_index start fin rs k = Ok (k + length pre)
      \<and> (\<forall>r \<in> set pre. vr_hi r \<le> addr_nat start) \<and> (\<forall>r \<in> set post. addr_nat fin \<le> vr_lo r)"
  using assms(1)
proof (induction rs arbitrary: k)
  case (Cons r rs)
  then have r: "vr_lo r \<le> vr_hi r" "regions_wf rs" "\<And>y. y \<in> set rs \<Longrightarrow> vr_hi r \<le> vr_lo y"
    by (simp_all add: regions_wf_Cons)
  consider (past) "addr_nat start < vr_lo r" | (clash) "vr_lo r \<le> addr_nat start" "addr_nat start < vr_hi r"
    | (later) "vr_lo r \<le> addr_nat start" "vr_hi r \<le> addr_nat start"
    by linarith
  then show ?case
  proof cases
    case past
    show ?thesis
    proof (cases "vr_lo r < addr_nat fin")
      case True
      then show ?thesis
        using past by (simp add: region_clash_def page_addr_lt_iff vr_lo_def)
    next
      case False
      have y: "addr_nat fin \<le> vr_lo y" "\<not> vr_lo y \<le> addr_nat start" if "y \<in> set rs" for y
        using r(1) r(3) [OF that] False past by linarith+
      then have "\<not> list_ex (region_clash start fin) (r # rs)"
        using False past y by (auto simp: list_ex_iff region_clash_def not_less)
      then show ?thesis
        using past False y
        by (auto simp: page_addr_lt_iff vr_lo_def intro!: exI [of _ "[]"] exI [of _ "r # rs"])
    qed
  next
    case clash
    then show ?thesis
      by (simp add: region_clash_def page_addr_lt_iff vr_lo_def vr_hi_def)
  next
    case later
    then have step: "region_insert_index start fin (r # rs) k = region_insert_index start fin rs (k + 1)"
      by (simp add: page_addr_lt_iff vr_lo_def vr_hi_def)
    have nc: "\<not> region_clash start fin r"
      using later by (simp add: region_clash_def)
    show ?thesis
    proof (cases "list_ex (region_clash start fin) rs")
      case True
      then show ?thesis
        using Cons.IH [OF r(2), of "k + 1"] step by simp
    next
      case False
      then obtain pre post where p: "rs = pre @ post" "region_insert_index start fin rs (k + 1) = Ok (k + 1 + length pre)"
        "\<forall>r \<in> set pre. vr_hi r \<le> addr_nat start" "\<forall>r \<in> set post. addr_nat fin \<le> vr_lo r"
        using Cons.IH [OF r(2), of "k + 1"] by auto
      have nl: "\<not> list_ex (region_clash start fin) (r # rs)"
        using False nc by simp
      have "r # rs = (r # pre) @ post \<and> region_insert_index start fin (r # rs) k = Ok (k + length (r # pre))
          \<and> (\<forall>r \<in> set (r # pre). vr_hi r \<le> addr_nat start) \<and> (\<forall>r \<in> set post. addr_nat fin \<le> vr_lo r)"
        using p later by (simp add: step page_addr_lt_iff vr_lo_def vr_hi_def)
      then show ?thesis
        unfolding if_not_P [OF nl] by blast
    qed
  qed
qed (simp add: exI [of _ "[]"])

lemma insert_correct:
  assumes wf: "regions_wf (pre @ post)" and le: "addr_nat start \<le> addr_nat fin"
    and b: "\<forall>r \<in> set pre. vr_hi r \<le> addr_nat start" "\<forall>r \<in> set post. addr_nat fin \<le> vr_lo r"
    and r_def: "r = \<lparr>vr_start = start, vr_end = fin, vr_type = ty\<rparr>"
  shows "regions_wf (pre @ r # post)
    \<and> region_view (pre @ r # post) = view_set (addr_nat start) (addr_nat fin) (Some ty) (region_view (pre @ post))"
proof -
  have wf': "regions_wf (pre @ r # post)"
    using wf le b by (auto simp: regions_wf_simps r_def dest: order_trans)
  have none: "\<not> in_region a r'" if "r' \<in> set (pre @ post)" "addr_nat start \<le> a" "a < addr_nat fin" for a r'
    using that b by (fastforce simp: in_region_def)
  have "region_view (pre @ r # post) = view_set (addr_nat start) (addr_nat fin) (Some ty) (region_view (pre @ post))"
  proof (rule region_view_eqI [OF wf'])
    fix a t
    show "(\<exists>r' \<in> set (pre @ r # post). in_region a r' \<and> vr_type r' = t)
        \<longleftrightarrow> view_set (addr_nat start) (addr_nat fin) (Some ty) (region_view (pre @ post)) a = Some t"
    proof (cases "addr_nat start \<le> a \<and> a < addr_nat fin")
      case True
      then have "in_region a r" "vr_type r = ty"
        by (simp_all add: in_region_def r_def)
      then show ?thesis
        using True none [of _ a] by (auto simp: view_set_def)
    next
      case False
      then have "\<not> in_region a r"
        by (simp add: in_region_def r_def)
      then show ?thesis
        using False region_view_iff [OF wf, of a t] by (auto simp: view_set_def)
    qed
  qed
  with wf' show ?thesis ..
qed

lemma region_add_correct:
  assumes av: "array_vec_ok cap av" and wf: "regions_wf rs" and le: "addr_nat start \<le> addr_nat fin"
  shows "if list_ex (region_clash start fin) rs then region_add av start fin ty rs = (Err OverlappingVmRegion, rs)
    else if cap \<le> length rs then region_add av start fin ty rs = (Err InsufficientVmRegionSpace, rs)
    else \<exists>rs'. region_add av start fin ty rs = (Ok (), rs') \<and> regions_wf rs' \<and> length rs' \<le> Suc (length rs)
      \<and> region_view rs' = view_set (addr_nat start) (addr_nat fin) (Some ty) (region_view rs)
      \<and> (regions_normal g rs \<and> addr_nat start < addr_nat fin \<and> addr_space start = g \<and> addr_space fin = g
          \<longrightarrow> regions_normal g rs')"
proof (cases "list_ex (region_clash start fin) rs")
  case True
  then show ?thesis
    using insert_index_correct [OF wf le, of 0] by (simp add: region_add_def)
next
  case False
  define r where "r = \<lparr>vr_start = start, vr_end = fin, vr_type = ty\<rparr>"
  obtain pre post where p: "rs = pre @ post" "region_insert_index start fin rs 0 = Ok (length pre)"
    "\<forall>r \<in> set pre. vr_hi r \<le> addr_nat start" "\<forall>r \<in> set post. addr_nat fin \<le> vr_lo r"
    using insert_index_correct [OF wf le, of 0] False by auto
  note ins = insert_correct [OF wf [unfolded p(1)] le p(3,4) r_def]
  show ?thesis
  proof (cases "cap \<le> length rs")
    case True
    then show ?thesis
      using False p(2) try_insert_eq [OF av, of pre post] by (simp add: region_add_def p(1))
  next
    case room: False
    define rs' where "rs' = co_before pre r @ co_region pre r post # co_after r post"
    have "region_add av start fin ty rs = (Ok (), rs')"
      using False room p(2) try_insert_eq [OF av, of pre post] try_coalesce_eq [OF av, of pre r post]
      by (simp add: region_add_def p(1) rs'_def r_def [symmetric])
    moreover have "regions_wf rs'" "region_view rs' = view_set (addr_nat start) (addr_nat fin) (Some ty) (region_view rs)"
      using coalesce_correct [of pre r post] ins p(1) by (simp_all add: rs'_def)
    moreover have "length rs' \<le> Suc (length rs)"
      by (auto simp: rs'_def p(1) co_before_def co_after_def)
    moreover have "regions_normal g rs'" if "regions_normal g rs" "region_proper g r"
      unfolding rs'_def using that ins p(1) by (intro coalesce_normal) (auto simp: regions_normal_append)
    ultimately show ?thesis
      using False room by (auto simp: region_proper_def r_def)
  qed
qed

text \<open>A region is split around a range, which takes another type or none.\<close>

definition split_left :: "vm_region \<Rightarrow> guest_page_addr \<Rightarrow> vm_region_list" where
  "split_left r start = [\<lparr>vr_start = vr_start r, vr_end = start, vr_type = vr_type r\<rparr>]"

definition split_right :: "vm_region \<Rightarrow> guest_page_addr \<Rightarrow> vm_region_list" where
  "split_right r fin = [\<lparr>vr_start = fin, vr_end = vr_end r, vr_type = vr_type r\<rparr>]"

definition split_mid :: "guest_page_addr \<Rightarrow> guest_page_addr \<Rightarrow> vm_region_type option \<Rightarrow> vm_region_list" where
  "split_mid start fin t = (case t of None \<Rightarrow> [] | Some ty \<Rightarrow> [\<lparr>vr_start = start, vr_end = fin, vr_type = ty\<rparr>])"

lemma split_correct:
  assumes wf: "regions_wf (pre @ r # post)"
    and le: "vr_lo r \<le> addr_nat start" "addr_nat start \<le> addr_nat fin" "addr_nat fin \<le> vr_hi r"
    and left: "left = [] \<and> vr_lo r = addr_nat start \<or> left = split_left r start"
    and right: "right = [] \<and> vr_hi r = addr_nat fin \<or> right = split_right r fin"
  shows "regions_wf (pre @ left @ split_mid start fin t @ right @ post)
    \<and> region_view (pre @ left @ split_mid start fin t @ right @ post)
      = view_set (addr_nat start) (addr_nat fin) t (region_view (pre @ r # post))"
proof -
  let ?rs = "pre @ left @ split_mid start fin t @ right @ post"
  have in_lr: "(\<exists>x \<in> set left. in_region a x \<and> vr_type x = ty) \<longleftrightarrow> vr_lo r \<le> a \<and> a < addr_nat start \<and> vr_type r = ty"
    "(\<exists>x \<in> set right. in_region a x \<and> vr_type x = ty) \<longleftrightarrow> addr_nat fin \<le> a \<and> a < vr_hi r \<and> vr_type r = ty"
    "(\<exists>x \<in> set (split_mid start fin t). in_region a x \<and> vr_type x = ty) \<longleftrightarrow> addr_nat start \<le> a \<and> a < addr_nat fin \<and> t = Some ty"
    for a ty
    using left right by (auto simp: split_left_def split_right_def split_mid_def in_region_def vr_lo_def vr_hi_def split: option.splits)
  have outer: "\<And>x. x \<in> set pre \<Longrightarrow> vr_hi x \<le> vr_lo r" "\<And>x. x \<in> set post \<Longrightarrow> vr_hi r \<le> vr_lo x"
    using wf by (auto simp: regions_wf_simps)
  have b: "vr_lo r \<le> vr_lo x \<and> vr_lo x \<le> vr_hi x \<and> vr_hi x \<le> vr_hi r" if "x \<in> set (left @ split_mid start fin t @ right)" for x
    using that left right le
    by (auto simp: split_left_def split_right_def split_mid_def vr_lo_def vr_hi_def split: option.splits)
  have inner: "regions_wf (left @ split_mid start fin t @ right)"
    using left right le
    by (auto simp: split_left_def split_right_def split_mid_def vr_lo_def vr_hi_def regions_wf_def split: option.splits)
  have "vr_hi x \<le> vr_lo y" if "x \<in> set pre" "y \<in> set (left @ split_mid start fin t @ right)" for x y
    using b [OF that(2)] outer(1) [OF that(1)] by linarith
  moreover have "vr_hi x \<le> vr_lo y" if "x \<in> set (left @ split_mid start fin t @ right)" "y \<in> set post" for x y
    using b [OF that(1)] outer(2) [OF that(2)] by linarith
  moreover have "regions_wf pre" "regions_wf post" "\<And>x y. x \<in> set pre \<Longrightarrow> y \<in> set post \<Longrightarrow> vr_hi x \<le> vr_lo y"
    using wf by (auto simp: regions_wf_simps)
  ultimately have "regions_wf (pre @ (left @ split_mid start fin t @ right) @ post)"
    using inner unfolding regions_wf_append [of pre] regions_wf_append [of _ post] by auto
  then have wf': "regions_wf ?rs"
    by simp
  have "region_view ?rs = view_set (addr_nat start) (addr_nat fin) t (region_view (pre @ r # post))"
  proof (rule region_view_eqI [OF wf'])
    fix a ty
    have v: "region_view (pre @ r # post) a = Some ty
        \<longleftrightarrow> (\<exists>x \<in> set pre \<union> set post. in_region a x \<and> vr_type x = ty) \<or> (vr_lo r \<le> a \<and> a < vr_hi r \<and> vr_type r = ty)"
      using region_view_iff [OF wf, of a ty] by (auto simp: in_region_def)
    have o: "\<not> in_region a x" if "x \<in> set pre \<union> set post" "addr_nat start \<le> a" "a < addr_nat fin" for x
      using that outer [of x] le by (auto simp: in_region_def)
    have "(\<exists>x \<in> set ?rs. in_region a x \<and> vr_type x = ty)
        \<longleftrightarrow> (\<exists>x \<in> set pre \<union> set post. in_region a x \<and> vr_type x = ty)
          \<or> (vr_lo r \<le> a \<and> a < addr_nat start \<and> vr_type r = ty)
          \<or> (addr_nat start \<le> a \<and> a < addr_nat fin \<and> t = Some ty)
          \<or> (addr_nat fin \<le> a \<and> a < vr_hi r \<and> vr_type r = ty)"
      unfolding in_lr [symmetric] by auto
    also have "\<dots> \<longleftrightarrow> view_set (addr_nat start) (addr_nat fin) t (region_view (pre @ r # post)) a = Some ty"
    proof (cases "addr_nat start \<le> a \<and> a < addr_nat fin")
      case True
      then show ?thesis
        using o by (auto simp: view_set_def)
    next
      case False
      then show ?thesis
        using le by (auto simp: view_set_def v)
    qed
    finally show "(\<exists>x \<in> set ?rs. in_region a x \<and> vr_type x = ty)
        \<longleftrightarrow> view_set (addr_nat start) (addr_nat fin) t (region_view (pre @ r # post)) a = Some ty" .
  qed
  with wf' show ?thesis ..
qed

lemma split_normal:
  assumes n: "regions_normal g (pre @ r # post)" and sp: "addr_space start = g" "addr_space fin = g"
    and left: "left = [] \<or> left = split_left r start \<and> vr_lo r < addr_nat start"
    and right: "right = [] \<or> right = split_right r fin \<and> addr_nat fin < vr_hi r"
  shows "regions_normal g (pre @ left)" "regions_normal g (right @ post)"
proof -
  have r: "region_proper g r"
    using n by (simp add: regions_normal_simps)
  show "regions_normal g (pre @ left)"
    using n r sp left by (auto simp: regions_normal_simps split_left_def region_proper_def touches_def vr_lo_def)
  show "regions_normal g (right @ post)"
    using n r sp right by (auto simp: regions_normal_simps split_right_def region_proper_def touches_def vr_hi_def)
qed

lemma region_remove_eq:
  assumes av: "array_vec_ok cap av" and cap: "length rs \<le> cap" and c: "region_contains start fin ty rs"
  obtains pre r post where "rs = pre @ r # post" "region_holds start fin ty r"
    "region_remove av start fin ty rs =
       (if vr_lo r < addr_nat start \<and> addr_nat fin < vr_hi r \<and> length rs = cap then (Err InsufficientVmRegionSpace, rs)
        else (Ok (), pre @ (if vr_lo r < addr_nat start then split_left r start else [])
                @ (if addr_nat fin < vr_hi r then split_right r fin else []) @ post))"
proof -
  obtain i where i: "position (region_holds start fin ty) rs = Some i"
    using c position_None [of "region_holds start fin ty" rs] unfolding region_contains_def by auto
  then obtain pre r post where p: "rs = pre @ r # post" "length pre = i" "region_holds start fin ty r"
    using position_Some by metis
  let ?left = "\<lparr>vr_start = vr_start r, vr_end = start, vr_type = ty\<rparr>"
  let ?right = "\<lparr>vr_start = fin, vr_end = vr_end r, vr_type = ty\<rparr>"
  have ty: "vr_type r = ty"
    using p(3) by simp
  have lt: "page_addr_lt (vr_start r) start = (vr_lo r < addr_nat start)" "page_addr_lt fin (vr_end r) = (addr_nat fin < vr_hi r)"
    by (simp_all add: page_addr_lt_iff vr_lo_def vr_hi_def)
  have rm: "av_remove av rs i = pre @ post" and nth: "rs ! i = r"
    using p remove_eq [OF av, of pre r post] by auto
  have ins: "(av_insert av (pre @ post) i x :: vm_region_list vm_result) = Ok (pre @ x # post)" for x
    using p cap insert_eq [OF av, of pre post x] by auto
  have ins2: "(av_insert av (pre @ y # post) (i + 1) x :: vm_region_list vm_result) = Ok (pre @ y # x # post)"
    if "length rs \<noteq> cap" for x y
    using that p cap insert_eq [OF av, of "pre @ [y]" post x] by auto
  have full: "av_is_full av rs = (length rs = cap)"
    using cap by (auto simp: is_full_eq [OF av])
  show thesis
  proof (rule that [OF p(1,3)])
    show "region_remove av start fin ty rs =
       (if vr_lo r < addr_nat start \<and> addr_nat fin < vr_hi r \<and> length rs = cap then (Err InsufficientVmRegionSpace, rs)
        else (Ok (), pre @ (if vr_lo r < addr_nat start then split_left r start else [])
                @ (if addr_nat fin < vr_hi r then split_right r fin else []) @ post))"
      using ins [of ?left] ins [of ?right] ins2 [of ?left ?right]
      by (simp add: region_remove_def i nth rm lt full Let_def split_left_def split_right_def ty)
  qed
qed

lemma region_update_eq:
  assumes av: "array_vec_ok cap av" and cap: "length rs \<le> cap" and c: "region_contains start fin ty rs"
  obtains pre r post left right where "rs = pre @ r # post" "region_holds start fin ty r"
    "left = [] \<and> vr_start r = start \<or> left = split_left r start \<and> vr_start r \<noteq> start"
    "right = [] \<and> vr_end r = fin \<or> right = split_right r fin \<and> vr_end r \<noteq> fin"
    "region_update av start fin ty rs =
       (if cap - length rs < length left + length right then (Err InsufficientVmRegionSpace, rs)
        else (Ok \<lparr>ru_index = length (pre @ left), ru_type = ty\<rparr>,
              (pre @ left) @ \<lparr>vr_start = start, vr_end = fin, vr_type = Updating\<rparr> # (right @ post)))"
proof -
  obtain i where i: "position (region_holds start fin ty) rs = Some i"
    using c position_None [of "region_holds start fin ty" rs] unfolding region_contains_def by auto
  then obtain pre r post where p: "rs = pre @ r # post" "length pre = i" "region_holds start fin ty r"
    using position_Some by metis
  define left where "left = (if vr_start r \<noteq> start then split_left r start else [])"
  define right where "right = (if vr_end r \<noteq> fin then split_right r fin else [])"
  let ?mid = "\<lparr>vr_start = start, vr_end = fin, vr_type = Updating\<rparr>"
  have ty: "vr_type r = ty"
    using p(3) by simp
  have nth: "rs ! i = r"
    using p by auto
  have ins: "(av_insert av rs i x :: vm_region_list vm_result) = Ok (pre @ x # r # post)" if "length rs < cap" for x
    using that p insert_eq [OF av, of pre "r # post" x] by auto
  have ins1: "(av_insert av (pre @ ?mid # post) (i + 1) x :: vm_region_list vm_result) = Ok (pre @ ?mid # x # post)"
    if "length rs < cap" for x
    using that p insert_eq [OF av, of "pre @ [?mid]" post x] by auto
  have ins2: "(av_insert av (pre @ y # ?mid # post) (i + 2) x :: vm_region_list vm_result) = Ok (pre @ y # ?mid # x # post)"
    if "length rs + 1 < cap" for x y
    using that p insert_eq [OF av, of "pre @ [y, ?mid]" post x] by auto
  have upd: "rs[i := x] = pre @ x # post" "(pre @ y # r # post)[Suc i := x] = pre @ y # x # post" for x y
    using p by (auto simp: list_update_append)
  have rc: "av_remaining_capacity av rs = cap - length rs"
    by (rule remaining_capacity_eq [OF av])
  have "region_update av start fin ty rs =
       (if cap - length rs < length left + length right then (Err InsufficientVmRegionSpace, rs)
        else (Ok \<lparr>ru_index = length (pre @ left), ru_type = ty\<rparr>, (pre @ left) @ ?mid # (right @ post)))"
  proof (cases "cap - length rs < length left + length right")
    case True
    then show ?thesis
      by (simp add: region_update_def i nth rc left_def right_def split_left_def split_right_def Let_def split: if_splits)
  next
    case False
    consider "vr_start r = start" "vr_end r = fin" | "vr_start r \<noteq> start" "vr_end r = fin"
      | "vr_start r = start" "vr_end r \<noteq> fin" | "vr_start r \<noteq> start" "vr_end r \<noteq> fin"
      by blast
    then show ?thesis
      by cases (use False p(2) ins ins1 ins2 in
        \<open>simp_all add: region_update_def i nth rc left_def right_def split_left_def split_right_def Let_def upd ty\<close>)
  qed
  moreover have "left = [] \<and> vr_start r = start \<or> left = split_left r start \<and> vr_start r \<noteq> start"
    "right = [] \<and> vr_end r = fin \<or> right = split_right r fin \<and> vr_end r \<noteq> fin"
    by (simp_all add: left_def right_def)
  ultimately show thesis
    using that p by blast
qed

lemma updater_drop_eq:
  assumes "array_vec_ok cap av"
  shows "updater_drop av \<lparr>ru_index = length pre, ru_type = t\<rparr> (pre @ x # post)
    = (Ok (), co_before pre (x\<lparr>vr_type := t\<rparr>) @ co_region pre (x\<lparr>vr_type := t\<rparr>) post # co_after (x\<lparr>vr_type := t\<rparr>) post)"
  by (simp add: updater_drop_def list_update_append try_coalesce_eq [OF assms])

lemma contains_view:
  assumes "regions_wf rs" and "region_contains start fin ty rs"
  shows "view_set (addr_nat start) (addr_nat fin) (Some ty) (region_view rs) = region_view rs"
proof
  fix a
  obtain r where "r \<in> set rs" "region_holds start fin ty r"
    using assms(2) by (auto simp: region_contains_def list_ex_iff)
  then have "addr_nat start \<le> a \<Longrightarrow> a < addr_nat fin \<Longrightarrow> region_view rs a = Some ty"
    by (auto simp: region_view_iff [OF assms(1)] in_region_def intro!: bexI [of _ r])
  then show "view_set (addr_nat start) (addr_nat fin) (Some ty) (region_view rs) a = region_view rs a"
    by (simp add: view_set_def)
qed

lemma region_remove_correct:
  assumes av: "array_vec_ok cap av" and wf: "regions_wf rs" and cap: "length rs \<le> cap"
    and le: "addr_nat start \<le> addr_nat fin"
  shows "if \<not> region_contains start fin ty rs then region_remove av start fin ty rs = (Err InvalidMapRegion, rs)
    else region_remove av start fin ty rs = (Err InsufficientVmRegionSpace, rs) \<and> length rs = cap
      \<or> (\<exists>rs'. region_remove av start fin ty rs = (Ok (), rs') \<and> regions_wf rs' \<and> length rs' \<le> cap
          \<and> region_view rs' = view_set (addr_nat start) (addr_nat fin) None (region_view rs)
          \<and> (regions_normal g rs \<and> addr_nat start < addr_nat fin \<and> addr_space start = g \<and> addr_space fin = g
              \<longrightarrow> regions_normal g rs'))"
proof (cases "region_contains start fin ty rs")
  case False
  then show ?thesis
    by (simp add: region_remove_def region_contains_def position_None [symmetric])
next
  case True
  obtain pre r post where p: "rs = pre @ r # post" "region_holds start fin ty r" and
    rem: "region_remove av start fin ty rs =
       (if vr_lo r < addr_nat start \<and> addr_nat fin < vr_hi r \<and> length rs = cap then (Err InsufficientVmRegionSpace, rs)
        else (Ok (), pre @ (if vr_lo r < addr_nat start then split_left r start else [])
                @ (if addr_nat fin < vr_hi r then split_right r fin else []) @ post))"
    using region_remove_eq [OF av cap True] by blast
  define left where "left = (if vr_lo r < addr_nat start then split_left r start else [])"
  define right where "right = (if addr_nat fin < vr_hi r then split_right r fin else [])"
  have b: "vr_lo r \<le> addr_nat start" "addr_nat fin \<le> vr_hi r"
    using p(2) by simp_all
  then have "left = [] \<and> vr_lo r = addr_nat start \<or> left = split_left r start"
    "right = [] \<and> vr_hi r = addr_nat fin \<or> right = split_right r fin"
    by (simp_all add: left_def right_def)
  note v = split_correct [OF wf [unfolded p(1)] b(1) le b(2) this, of None, folded p(1), simplified split_mid_def, simplified]
  have n: "regions_normal g (pre @ left @ right @ post)"
    if "regions_normal g rs" "addr_nat start < addr_nat fin" "addr_space start = g" "addr_space fin = g"
  proof -
    have "left = [] \<or> left = split_left r start \<and> vr_lo r < addr_nat start"
      "right = [] \<or> right = split_right r fin \<and> addr_nat fin < vr_hi r"
      by (simp_all add: left_def right_def)
    note split_normal [OF that(1) [unfolded p(1)] that(3,4) this]
    moreover have "\<not> touches (last (pre @ left)) (hd (right @ post))" if "pre @ left \<noteq> []" "right @ post \<noteq> []"
    proof -
      have "vr_hi (last (pre @ left)) \<le> addr_nat start"
        using last_in_set [OF that(1)] wf p unfolding left_def
        by (auto simp: regions_wf_simps split_left_def vr_lo_def vr_hi_def split: if_splits)
      moreover have "addr_nat fin \<le> vr_lo (hd (right @ post))"
        using hd_in_set [OF that(2)] wf p unfolding right_def
        by (auto simp: regions_wf_simps split_right_def vr_lo_def vr_hi_def split: if_splits)
      ultimately show ?thesis
        using \<open>addr_nat start < addr_nat fin\<close> by (auto simp: touches_def vr_lo_def vr_hi_def)
    qed
    ultimately show ?thesis
      using regions_normal_append [of g "pre @ left" "right @ post"] by auto
  qed
  show ?thesis
  proof (cases "vr_lo r < addr_nat start \<and> addr_nat fin < vr_hi r \<and> length rs = cap")
    case False
    then have "length (pre @ left @ right @ post) \<le> cap"
      using cap by (auto simp: p(1) left_def right_def split_left_def split_right_def)
    then show ?thesis
      using True False rem v n unfolding left_def [symmetric] right_def [symmetric] by simp
  qed (use True rem in auto)
qed

text \<open>Whether an update is finished or dropped, the range gets the type that is asked for.\<close>

lemma region_update_correct:
  assumes av: "array_vec_ok cap av" and wf: "regions_wf rs" and cap: "length rs \<le> cap"
    and le: "addr_nat start \<le> addr_nat fin"
  shows "if \<not> region_contains start fin ty rs then region_update av start fin ty rs = (Err VmRegionNotFound, rs)
    else region_update av start fin ty rs = (Err InsufficientVmRegionSpace, rs) \<and> cap < length rs + 2
      \<or> (\<exists>u rs1. region_update av start fin ty rs = (Ok u, rs1) \<and> ru_type u = ty
          \<and> regions_wf rs1 \<and> region_view rs1 = view_set (addr_nat start) (addr_nat fin) (Some Updating) (region_view rs)
          \<and> (\<forall>t. \<exists>rs2. updater_drop av (u\<lparr>ru_type := t\<rparr>) rs1 = (Ok (), rs2) \<and> regions_wf rs2 \<and> length rs2 \<le> cap
              \<and> region_view rs2 = view_set (addr_nat start) (addr_nat fin) (Some t) (region_view rs)
              \<and> (regions_normal g rs \<and> addr_nat start < addr_nat fin \<and> addr_space start = g \<and> addr_space fin = g
                  \<longrightarrow> regions_normal g rs2)))"
proof (cases "region_contains start fin ty rs")
  case False
  then show ?thesis
    by (simp add: region_update_def region_contains_def position_None [symmetric])
next
  case True
  let ?mid = "\<lambda>t. \<lparr>vr_start = start, vr_end = fin, vr_type = t\<rparr>"
  obtain pre r post left right where p: "rs = pre @ r # post" "region_holds start fin ty r"
    "left = [] \<and> vr_start r = start \<or> left = split_left r start \<and> vr_start r \<noteq> start"
    "right = [] \<and> vr_end r = fin \<or> right = split_right r fin \<and> vr_end r \<noteq> fin" and
    upd: "region_update av start fin ty rs =
       (if cap - length rs < length left + length right then (Err InsufficientVmRegionSpace, rs)
        else (Ok \<lparr>ru_index = length (pre @ left), ru_type = ty\<rparr>, (pre @ left) @ ?mid Updating # (right @ post)))"
    using region_update_eq [OF av cap True] by blast
  show ?thesis
  proof (cases "cap - length rs < length left + length right")
    case True
    moreover have "length left \<le> 1" "length right \<le> 1"
      using p by (auto simp: split_left_def split_right_def)
    ultimately show ?thesis
      using \<open>region_contains start fin ty rs\<close> upd by auto
  next
    case False
    have b: "vr_lo r \<le> addr_nat start" "addr_nat fin \<le> vr_hi r"
      using p(2) by simp_all
    have "left = [] \<and> vr_lo r = addr_nat start \<or> left = split_left r start"
      "right = [] \<and> vr_hi r = addr_nat fin \<or> right = split_right r fin"
      using p(3,4) by (auto simp: vr_lo_def vr_hi_def)
    then have v: "regions_wf ((pre @ left) @ ?mid t # (right @ post))
      \<and> region_view ((pre @ left) @ ?mid t # (right @ post)) = view_set (addr_nat start) (addr_nat fin) (Some t) (region_view rs)" for t
      using split_correct [OF wf [unfolded p(1)] b(1) le b(2), of left right "Some t", folded p(1)]
      by (simp add: split_mid_def)
    define rs2 where "rs2 t = co_before (pre @ left) (?mid t) @ co_region (pre @ left) (?mid t) (right @ post)
      # co_after (?mid t) (right @ post)" for t
    have d: "updater_drop av \<lparr>ru_index = length (pre @ left), ru_type = t\<rparr> ((pre @ left) @ ?mid Updating # (right @ post)) = (Ok (), rs2 t)" for t
      using updater_drop_eq [OF av, of "pre @ left" t "?mid Updating"] unfolding rs2_def by simp
    have w: "regions_wf (rs2 t) \<and> region_view (rs2 t) = view_set (addr_nat start) (addr_nat fin) (Some t) (region_view rs)" for t
      using coalesce_correct [of "pre @ left" "?mid t" "right @ post"] v [of t] unfolding rs2_def by simp
    have l: "length (rs2 t) \<le> cap" for t
      using False cap unfolding rs2_def p(1) co_before_def co_after_def by auto
    have n: "regions_normal g (rs2 t)"
      if "regions_normal g rs" "addr_nat start < addr_nat fin" "addr_space start = g" "addr_space fin = g" for t
    proof -
      have r: "region_proper g r"
        using that(1) p(1) by (simp add: regions_normal_simps)
      have "left = [] \<or> left = split_left r start \<and> vr_lo r < addr_nat start"
        "right = [] \<or> right = split_right r fin \<and> addr_nat fin < vr_hi r"
        using p that r by (auto simp: region_proper_def page_addr_eq_iff vr_lo_def vr_hi_def)
      note split_normal [OF that(1) [unfolded p(1)] that(3,4) this]
      then show ?thesis
        unfolding rs2_def using v [of t] that by (intro coalesce_normal) (auto simp: region_proper_def)
    qed
    show ?thesis
      using True False upd v [of Updating] d w l n by auto
  qed
qed

section \<open>Updating every region\<close>

text \<open>The reference for \<open>update_all\<close>: the closure sees every region once, in order, and nothing is coalesced.\<close>

fun update_each ::
    "(vm_region \<Rightarrow> 's \<Rightarrow> vm_region_type option vm_result \<times> 's) \<Rightarrow> vm_region_list \<Rightarrow> 's
      \<Rightarrow> unit vm_result \<times> vm_region_list \<times> 's" where
  "update_each f [] s = (Ok (), [], s)"
| "update_each f (r # rs) s =
     (case f r s of
        (Ok t, s') \<Rightarrow>
          (let (res, rs', s'') = update_each f rs s'
           in (res, (case t of None \<Rightarrow> r | Some ty \<Rightarrow> r\<lparr>vr_type := ty\<rparr>) # rs', s''))
      | (Err e, s') \<Rightarrow> (Err e, r # rs, s')
      | (Panic, s') \<Rightarrow> (Panic, r # rs, s'))"

text \<open>A closure settles a region when it leaves alone the regions of the types it gives.\<close>

definition settles :: "(vm_region \<Rightarrow> 's \<Rightarrow> vm_region_type option vm_result \<times> 's) \<Rightarrow> bool" where
  "settles f \<longleftrightarrow> (\<forall>r s t s'. f r s = (Ok (Some t), s') \<longrightarrow> (\<forall>r' s. vr_type r' = t \<longrightarrow> f r' s = (Ok None, s)))"

lemma region_view_append:
  "region_view (xs @ ys) a = (case region_view xs a of None \<Rightarrow> region_view ys a | Some t \<Rightarrow> Some t)"
  by (induction xs) (simp_all add: region_view_def)

text \<open>The loop has passed a coalesced region: what it passed means the same as what was there.\<close>

lemma coalesced_prefix_view:
  assumes wf: "regions_wf (pre @ r # post)"
  shows "region_view (co_before pre r @ [co_region pre r post])
    = region_view (pre @ r # take (length post - length (co_after r post)) post)"
proof (cases "post \<noteq> [] \<and> touches r (hd post)")
  case True
  then obtain q post' where "post = q # post'" "touches r q"
    by (cases post) auto
  then show ?thesis
    using coalesce_correct [of pre r "[q]"] wf by (auto simp: co_after_def co_region_def regions_wf_simps)
next
  case False
  then show ?thesis
    using coalesce_correct [of pre r "[]"] wf by (auto simp: co_after_def co_region_def regions_wf_simps)
qed

lemma update_each_skip:
  assumes st: "settles f" and "f r s = (Ok (Some t), s')" and "vr_type r' = t"
  shows "update_each f post s1 = (case update_each f (co_after r' post) s1 of
    (res, rs, s2) \<Rightarrow> (res, take (length post - length (co_after r' post)) post @ rs, s2))"
proof (cases "post \<noteq> [] \<and> touches r' (hd post)")
  case True
  then obtain q post' where q: "post = q # post'" "touches r' q"
    by (cases post) auto
  then have "vr_type q = t"
    using assms(3) by (simp add: touches_def)
  then have "f q s1 = (Ok None, s1)"
    using st assms(2) unfolding settles_def by blast
  then show ?thesis
    using q by (simp add: co_after_def split: prod.splits)
qed (auto simp: co_after_def)

lemma update_all_loop_correct:
  assumes av: "array_vec_ok cap av" and st: "settles f"
  shows "regions_wf (pre @ post) \<Longrightarrow> length post \<le> n
    \<Longrightarrow> update_all_loop av f n (length pre) (pre @ post) s = (res, rs1, s1)
    \<Longrightarrow> update_each f post s = (res', rs2, s2)
    \<Longrightarrow> res = res' \<and> s1 = s2 \<and> regions_wf rs1 \<and> region_view rs1 = region_view (pre @ rs2)
      \<and> length rs1 \<le> length (pre @ post) \<and> (regions_normal g (pre @ post) \<longrightarrow> regions_normal g rs1)"
proof (induction n arbitrary: pre post s rs2)
  case 0
  then show ?case by simp
next
  case (Suc n)
  show ?case
  proof (cases post)
    case Nil
    then show ?thesis
      using Suc.prems by auto
  next
    case (Cons r post')
    obtain q s' where f: "f r s = (q, s')"
      by (cases "f r s")
    have at: "(pre @ post) ! length pre = r" "length pre < length (pre @ post)"
      by (simp_all add: Cons)
    consider t where "q = Ok (Some t)" | "q = Ok None" | e where "q = Err e" | "q = Panic"
      by (cases q; cases "case q of Ok x \<Rightarrow> x | _ \<Rightarrow> None") auto
    then show ?thesis
    proof cases
      case (1 t)
      let ?r = "r\<lparr>vr_type := t\<rparr>"
      let ?pre = "co_before pre ?r @ [co_region pre ?r post']"
      let ?post = "co_after ?r post'"
      have wf: "regions_wf (pre @ ?r # post')"
        using Suc.prems(1) by (simp add: Cons regions_wf_simps)
      have upd: "(pre @ post)[length pre := ?r] = pre @ ?r # post'"
        by (simp add: Cons)
      have go: "update_all_loop av f n (length ?pre) (?pre @ ?post) s' = (res, rs1, s1)"
        using Suc.prems(3) at f 1 upd try_coalesce_eq [OF av, of pre ?r post'] by simp
      obtain rs3 where each: "update_each f ?post s' = (res', rs3, s2)"
        "rs2 = ?r # take (length post' - length ?post) post' @ rs3"
        using Suc.prems(4) f 1 update_each_skip [OF st, of r s t s' ?r post' s'] Cons by (auto split: prod.splits)
      have wf': "regions_wf (?pre @ ?post)"
        using coalesce_correct [OF wf] by simp
      have "length ?post \<le> n" "length (?pre @ ?post) \<le> length (pre @ post)"
        using Suc.prems(2) Cons by (auto simp: co_after_def co_before_def)
      moreover have "regions_normal g (?pre @ ?post)" if "regions_normal g (pre @ post)"
        using coalesce_normal [OF wf, of g] that by (simp add: Cons regions_normal_simps region_proper_def)
      moreover have "region_view (?pre @ rs3) = region_view (pre @ rs2)"
      proof
        fix a
        have "pre @ rs2 = (pre @ ?r # take (length post' - length ?post) post') @ rs3"
          by (simp add: each(2))
        then show "region_view (?pre @ rs3) a = region_view (pre @ rs2) a"
          by (simp only: region_view_append [of ?pre] coalesced_prefix_view [OF wf]
              region_view_append [of "pre @ ?r # take (length post' - length ?post) post'"])
      qed
      ultimately show ?thesis
        using Suc.IH [OF wf' _ go each(1)] by auto
    next
      case 2
      obtain rs3 where each: "update_each f post' s' = (res', rs3, s2)" "rs2 = r # rs3"
        using Suc.prems(4) f 2 Cons by (auto split: prod.splits)
      have go: "update_all_loop av f n (length (pre @ [r])) ((pre @ [r]) @ post') s' = (res, rs1, s1)"
        using Suc.prems(3) at f 2 by (simp add: Cons)
      show ?thesis
        using Suc.IH [OF _ _ go each(1)] Suc.prems(1,2) each(2) Cons by simp
    next
      case 3
      then show ?thesis
        using Suc.prems at f Cons by auto
    next
      case 4
      then show ?thesis
        using Suc.prems at f Cons by auto
    qed
  qed
qed

lemmas update_all_correct = update_all_loop_correct [where pre = "[]", simplified, folded region_update_all_def]

section \<open>Properties\<close>

text \<open>
  C16: the list of regions refines a partial map from addresses to purposes, and no operation panics. Adding a
  range sets its addresses, and is refused exactly when it clashes with a region or the list is full. Removing
  a range clears its addresses, and is refused when no region of the type contains it, or when the list is
  full. Updating a range marks it; finishing the update sets its addresses to the new purpose, and dropping it
  puts the old map back. A refused operation changes nothing, and all keep the list sorted and within capacity.
\<close>

theorem region_list_refines:
  assumes "array_vec_ok MAX_MEM_REGIONS av" and "regions_wf rs" and "length rs \<le> MAX_MEM_REGIONS"
    and "addr_nat start \<le> addr_nat fin"
  defines "set_range \<equiv> (\<lambda>t. view_set (addr_nat start) (addr_nat fin) t (region_view rs))"
    and "ok \<equiv> (\<lambda>rs'. regions_wf rs' \<and> length rs' \<le> MAX_MEM_REGIONS)"
  shows "(case region_add av start fin ty rs of
        (Ok _, rs') \<Rightarrow> \<not> list_ex (region_clash start fin) rs \<and> ok rs' \<and> region_view rs' = set_range (Some ty)
      | (Err e, rs') \<Rightarrow> rs' = rs \<and> (if list_ex (region_clash start fin) rs then e = OverlappingVmRegion
          else e = InsufficientVmRegionSpace \<and> length rs = MAX_MEM_REGIONS)
      | (Panic, rs') \<Rightarrow> False)
    \<and> (case region_remove av start fin ty rs of
        (Ok _, rs') \<Rightarrow> region_contains start fin ty rs \<and> ok rs' \<and> region_view rs' = set_range None
      | (Err e, rs') \<Rightarrow> rs' = rs \<and> (if region_contains start fin ty rs
          then e = InsufficientVmRegionSpace \<and> length rs = MAX_MEM_REGIONS else e = InvalidMapRegion)
      | (Panic, rs') \<Rightarrow> False)
    \<and> (case region_update av start fin ty rs of
        (Ok u, rs1) \<Rightarrow> region_contains start fin ty rs \<and> region_view rs1 = set_range (Some Updating)
          \<and> (\<exists>rs2. updater_finish av new_type u rs1 = (Ok (), rs2) \<and> ok rs2 \<and> region_view rs2 = set_range (Some new_type))
          \<and> (\<exists>rs2. updater_drop av u rs1 = (Ok (), rs2) \<and> ok rs2 \<and> region_view rs2 = region_view rs)
      | (Err e, rs') \<Rightarrow> rs' = rs \<and> (if region_contains start fin ty rs
          then e = InsufficientVmRegionSpace \<and> MAX_MEM_REGIONS < length rs + 2 else e = VmRegionNotFound)
      | (Panic, rs') \<Rightarrow> False)"
proof (intro conjI)
  note add = region_add_correct [OF assms(1,2,4), of ty "addr_space start"]
  note remove = region_remove_correct [OF assms(1,2,3,4), of ty "addr_space start"]
  note update = region_update_correct [OF assms(1,2,3,4), of ty "addr_space start"]
  show "case region_add av start fin ty rs of
        (Ok _, rs') \<Rightarrow> \<not> list_ex (region_clash start fin) rs \<and> ok rs' \<and> region_view rs' = set_range (Some ty)
      | (Err e, rs') \<Rightarrow> rs' = rs \<and> (if list_ex (region_clash start fin) rs then e = OverlappingVmRegion
          else e = InsufficientVmRegionSpace \<and> length rs = MAX_MEM_REGIONS)
      | (Panic, rs') \<Rightarrow> False"
    using add assms(3) by (auto simp: set_range_def ok_def split: if_splits)
  show "case region_remove av start fin ty rs of
        (Ok _, rs') \<Rightarrow> region_contains start fin ty rs \<and> ok rs' \<and> region_view rs' = set_range None
      | (Err e, rs') \<Rightarrow> rs' = rs \<and> (if region_contains start fin ty rs
          then e = InsufficientVmRegionSpace \<and> length rs = MAX_MEM_REGIONS else e = InvalidMapRegion)
      | (Panic, rs') \<Rightarrow> False"
    using remove by (auto simp: set_range_def ok_def split: if_splits)
  show "case region_update av start fin ty rs of
        (Ok u, rs1) \<Rightarrow> region_contains start fin ty rs \<and> region_view rs1 = set_range (Some Updating)
          \<and> (\<exists>rs2. updater_finish av new_type u rs1 = (Ok (), rs2) \<and> ok rs2 \<and> region_view rs2 = set_range (Some new_type))
          \<and> (\<exists>rs2. updater_drop av u rs1 = (Ok (), rs2) \<and> ok rs2 \<and> region_view rs2 = region_view rs)
      | (Err e, rs') \<Rightarrow> rs' = rs \<and> (if region_contains start fin ty rs
          then e = InsufficientVmRegionSpace \<and> MAX_MEM_REGIONS < length rs + 2 else e = VmRegionNotFound)
      | (Panic, rs') \<Rightarrow> False"
  proof (cases "region_contains start fin ty rs \<and> (\<exists>u rs1. region_update av start fin ty rs = (Ok u, rs1))")
    case True
    then obtain u rs1 where u: "region_update av start fin ty rs = (Ok u, rs1)" "ru_type u = ty"
      "region_view rs1 = set_range (Some Updating)"
      and all: "\<forall>t. \<exists>rs2. updater_drop av (u\<lparr>ru_type := t\<rparr>) rs1 = (Ok (), rs2) \<and> regions_wf rs2 \<and> length rs2 \<le> MAX_MEM_REGIONS
              \<and> region_view rs2 = view_set (addr_nat start) (addr_nat fin) (Some t) (region_view rs)
              \<and> (regions_normal (addr_space start) rs \<and> addr_nat start < addr_nat fin \<and> addr_space start = addr_space start
                  \<and> addr_space fin = addr_space start \<longrightarrow> regions_normal (addr_space start) rs2)"
      using update unfolding set_range_def by auto
    have d: "\<exists>rs2. updater_drop av (u\<lparr>ru_type := t\<rparr>) rs1 = (Ok (), rs2) \<and> ok rs2 \<and> region_view rs2 = set_range (Some t)" for t
      using spec [OF all, of t] unfolding set_range_def ok_def by blast
    have same: "u\<lparr>ru_type := ty\<rparr> = u"
      using u(2) by (cases u) simp
    have "set_range (Some ty) = region_view rs"
      using contains_view [OF assms(2)] True by (simp add: set_range_def)
    then show ?thesis
      using u d [of new_type] d [of ty, unfolded same] True by (simp add: updater_finish_def)
  next
    case False
    then show ?thesis
      using update by (auto split: if_splits)
  qed
qed

text \<open>
  The lists of a guest's address space: ranges are not empty and belong to the guest, updates are finished
  or dropped, and \<open>update_all\<close> is used with the closures of a set.
\<close>

definition proper_range :: "guest_phys \<Rightarrow> guest_page_addr \<Rightarrow> guest_page_addr \<Rightarrow> bool" where
  "proper_range g start fin \<longleftrightarrow> addr_nat start < addr_nat fin \<and> addr_space start = g \<and> addr_space fin = g"

inductive region_reach ::
    "vm_region array_vec \<Rightarrow> (vm_region \<Rightarrow> 's \<Rightarrow> vm_region_type option vm_result \<times> 's) set \<Rightarrow> guest_phys
      \<Rightarrow> vm_region_list \<Rightarrow> bool"
  for av :: "vm_region array_vec" and F :: "(vm_region \<Rightarrow> 's \<Rightarrow> vm_region_type option vm_result \<times> 's) set"
    and g :: guest_phys where
  reach_new: "region_reach av F g region_list_new"
| reach_add: "region_reach av F g rs \<Longrightarrow> proper_range g start fin \<Longrightarrow> region_add av start fin ty rs = (res, rs')
    \<Longrightarrow> region_reach av F g rs'"
| reach_remove: "region_reach av F g rs \<Longrightarrow> proper_range g start fin \<Longrightarrow> region_remove av start fin ty rs = (res, rs')
    \<Longrightarrow> region_reach av F g rs'"
| reach_finish: "region_reach av F g rs \<Longrightarrow> proper_range g start fin \<Longrightarrow> region_update av start fin ty rs = (Ok u, rs1)
    \<Longrightarrow> updater_finish av new_type u rs1 = (res, rs') \<Longrightarrow> region_reach av F g rs'"
| reach_drop: "region_reach av F g rs \<Longrightarrow> proper_range g start fin \<Longrightarrow> region_update av start fin ty rs = (Ok u, rs1)
    \<Longrightarrow> updater_drop av u rs1 = (res, rs') \<Longrightarrow> region_reach av F g rs'"
| reach_all: "region_reach av F g rs \<Longrightarrow> f \<in> F
    \<Longrightarrow> region_update_all av f rs s = (res, rs', s') \<Longrightarrow> region_reach av F g rs'"

lemma region_reach_inv:
  assumes av: "array_vec_ok MAX_MEM_REGIONS av" and "region_reach av F g rs" and st: "\<forall>f \<in> F. settles f"
  shows "regions_wf rs \<and> regions_normal g rs \<and> length rs \<le> MAX_MEM_REGIONS"
  using assms(2)
proof induction
  case reach_new
  then show ?case
    by (simp add: region_list_new_def)
next
  case (reach_add rs start fin ty res rs')
  then show ?case
    using region_add_correct [OF av, of rs start fin ty g] by (auto simp: proper_range_def split: if_splits)
next
  case (reach_remove rs start fin ty res rs')
  then show ?case
    using region_remove_correct [OF av, of rs start fin ty g] by (auto simp: proper_range_def split: if_splits)
next
  case (reach_finish rs start fin ty u rs1 t res rs')
  then show ?case
    using region_update_correct [OF av, of rs start fin ty g]
    by (auto simp: proper_range_def updater_finish_def split: if_splits dest!: spec [of _ t])
next
  case (reach_drop rs start fin ty u rs1 res rs')
  then have "u\<lparr>ru_type := ty\<rparr> = u"
    using region_update_correct [OF av, of rs start fin ty g] by (auto simp: proper_range_def split: if_splits)
  then show ?case
    using region_update_correct [OF av, of rs start fin ty g] reach_drop
    by (auto simp: proper_range_def split: if_splits dest!: spec [of _ ty])
next
  case (reach_all rs f s res rs' s')
  obtain res2 rs2 s2 where "update_each f rs s = (res2, rs2, s2)"
    by (cases "update_each f rs s")
  then show ?case
    using update_all_correct [OF av bspec [OF st reach_all(2)], of rs "length rs" s res rs' s' res2 rs2 s2 g] reach_all
    by (auto simp: region_update_all_def)
qed

text \<open>
  C39: a range lies in one region of a type exactly when every address of it has that type. \<open>contains\<close>, which
  looks for a single region, is therefore complete: coalescing leaves no two adjacent regions of the same type
  in any list that a guest's operations reach, as long as their ranges are not empty and the closures given to
  \<open>update_all\<close> leave alone the regions of the types they give.
\<close>

theorem region_contains_exact:
  assumes "array_vec_ok MAX_MEM_REGIONS av" and "region_reach av F g rs" and "\<forall>f \<in> F. settles f"
    and "addr_nat start < addr_nat fin"
  shows "region_contains start fin ty rs
    \<longleftrightarrow> (\<forall>a. page_addr_bits start \<le> a \<and> a < page_addr_bits fin \<longrightarrow> region_find (RawAddr a g) rs = Some ty)"
proof -
  have wf: "regions_wf rs" "regions_normal g rs"
    using region_reach_inv [OF assms(1-3)] by simp_all
  have "(\<forall>a. addr_nat start \<le> a \<and> a < addr_nat fin \<longrightarrow> region_view rs a = Some ty)
    \<longleftrightarrow> (\<forall>w. page_addr_bits start \<le> w \<and> w < page_addr_bits fin \<longrightarrow> region_view rs (unat w) = Some ty)"
    (is "?l \<longleftrightarrow> ?r")
  proof
    show "?l \<Longrightarrow> ?r"
      by (simp add: word_le_nat_alt word_less_nat_alt addr_nat_def)
    assume r: ?r
    show ?l
    proof (intro allI impI)
      fix a
      assume a: "addr_nat start \<le> a \<and> a < addr_nat fin"
      then have "unat (word_of_nat a :: u64) = a"
        using addr_nat_less [of fin] by (simp add: unat_of_nat)
      then show "region_view rs a = Some ty"
        using a spec [OF r, of "word_of_nat a"] by (simp add: word_le_nat_alt word_less_nat_alt addr_nat_def)
    qed
  qed
  then show ?thesis
    using normal_contains [OF wf assms(4)] by (simp add: region_find_view)
qed

definition example_gpa :: "u64 \<Rightarrow> guest_page_addr" where
  "example_gpa x = PageAddr (RawAddr x (GuestPhys owner_host))"

definition example_conf :: "u64 \<Rightarrow> u64 \<Rightarrow> vm_region" where
  "example_conf lo hi = \<lparr>vr_start = example_gpa lo, vr_end = example_gpa hi, vr_type = ConfidentialRegion\<rparr>"

abbreviation example_av :: "vm_region array_vec" where
  "example_av \<equiv> list_array_vec MAX_MEM_REGIONS"

lemma example_gpa_simps [simp]:
  "addr_nat (example_gpa x) = unat x" "page_addr_bits (example_gpa x) = x" "addr_space (example_gpa x) = GuestPhys owner_host"
  "vr_lo (example_conf lo hi) = unat lo" "vr_hi (example_conf lo hi) = unat hi"
  "vr_type (example_conf lo hi) = ConfidentialRegion" "(example_gpa x = example_gpa y) = (x = y)"
  by (simp_all add: example_gpa_def example_conf_def page_addr_bits_def)

theorem region_list_refines_witness:
  "\<exists>u rs1 rs2. region_update example_av (example_gpa 0x2000) (example_gpa 0x3000) ConfidentialRegion [example_conf 0x1000 0x5000] = (Ok u, rs1)
     \<and> updater_finish example_av SharedRegion u rs1 = (Ok (), rs2)
     \<and> region_view rs2 0x2000 = Some SharedRegion \<and> region_view rs2 0x3000 = Some ConfidentialRegion"
proof -
  have wf: "regions_wf [example_conf 0x1000 0x5000]"
    by (simp add: regions_wf_def)
  have c: "region_contains (example_gpa 0x2000) (example_gpa 0x3000) ConfidentialRegion [example_conf 0x1000 0x5000]"
    by (simp add: region_contains_def)
  obtain u rs1 where u: "region_update example_av (example_gpa 0x2000) (example_gpa 0x3000) ConfidentialRegion [example_conf 0x1000 0x5000] = (Ok u, rs1)"
    by (simp add: region_update_def MAX_MEM_REGIONS_def list_array_vec_def av_insert_def example_conf_def Let_def)
  have v: "region_view [example_conf 0x1000 0x5000] 0x3000 = Some ConfidentialRegion"
    by (simp add: region_view_def in_region_def)
  show ?thesis
    using region_list_refines [OF list_array_vec_ok wf, of "example_gpa 0x2000" "example_gpa 0x3000" ConfidentialRegion SharedRegion] u v
    by (auto simp: MAX_MEM_REGIONS_def view_set_def)
qed

lemma example_reach:
  "region_reach example_av {} (GuestPhys owner_host) [example_conf 0x1000 0x5000]"
proof -
  have 1: "region_reach example_av {} (GuestPhys owner_host) [example_conf 0x1000 0x3000]"
    by (rule reach_add [OF reach_new, where start = "example_gpa 0x1000" and fin = "example_gpa 0x3000" and ty = ConfidentialRegion])
       (simp_all add: proper_range_def region_add_def region_list_new_def list_array_vec_def MAX_MEM_REGIONS_def
         try_coalesce_at_def Let_def example_conf_def)
  show ?thesis
    by (rule reach_add [OF 1, where start = "example_gpa 0x3000" and fin = "example_gpa 0x5000" and ty = ConfidentialRegion])
       (simp_all add: proper_range_def region_add_def list_array_vec_def MAX_MEM_REGIONS_def page_addr_lt_def
         try_coalesce_at_def Let_def example_conf_def)
qed

theorem region_contains_exact_witness:
  "region_contains (example_gpa 0x2000) (example_gpa 0x4000) ConfidentialRegion [example_conf 0x1000 0x5000]
   \<and> region_find (RawAddr 0x3000 (GuestPhys owner_host)) [example_conf 0x1000 0x5000] = Some ConfidentialRegion"
proof -
  have "region_contains (example_gpa 0x2000) (example_gpa 0x4000) ConfidentialRegion [example_conf 0x1000 0x5000]"
    by (simp add: region_contains_def)
  then show ?thesis
    using region_contains_exact [OF list_array_vec_ok example_reach, of "example_gpa 0x2000" "example_gpa 0x4000" ConfidentialRegion]
    by (simp add: word_less_nat_alt word_le_nat_alt)
qed

text \<open>
  An empty range is accepted and splits a region for good: after an update of an empty range inside a
  confidential region, the list is the original map, but no longer contains the region's range. A guest can
  do this to itself with a share request of length 0.
\<close>

lemma empty_update_splits:
  assumes "region_update example_av (example_gpa 0x3000) (example_gpa 0x3000) ConfidentialRegion [example_conf 0x1000 0x5000] = (Ok u, rs1)"
    and "updater_finish example_av SharedRegion u rs1 = (res, rs2)"
  shows "region_view rs2 = region_view [example_conf 0x1000 0x5000]
    \<and> region_contains (example_gpa 0x1000) (example_gpa 0x5000) ConfidentialRegion [example_conf 0x1000 0x5000]
    \<and> \<not> region_contains (example_gpa 0x1000) (example_gpa 0x5000) ConfidentialRegion rs2"
proof -
  have u: "u = \<lparr>ru_index = 1, ru_type = ConfidentialRegion\<rparr>"
    and rs1: "rs1 = [example_conf 0x1000 0x3000, (example_conf 0x3000 0x3000)\<lparr>vr_type := Updating\<rparr>, example_conf 0x3000 0x5000]"
    using assms(1)
    by (auto simp: region_update_def MAX_MEM_REGIONS_def list_array_vec_def av_insert_def example_conf_def Let_def)
  have rs2: "rs2 = [example_conf 0x1000 0x3000, (example_conf 0x3000 0x3000)\<lparr>vr_type := SharedRegion\<rparr>, example_conf 0x3000 0x5000]"
    using assms(2)
    by (simp add: u rs1 updater_finish_def updater_drop_def try_coalesce_at_def example_conf_def Let_def)
  show ?thesis
    by (auto simp: rs2 region_view_def region_contains_def in_region_def fun_eq_iff)
qed

end
