(* ===== verification/Iommu_Core.thy ===== *)
theory Iommu_Core
  imports Device_Directory Iommu_Queue Vm_Regions
begin

text \<open>
  The IOMMU driver (\<open>drivers/src/iommu/core.rs\<close>): the soft-context IDs that name address spaces to the device,
  attaching and detaching PCI devices, and fences. What the driver uses of a PCI device is part of the model
  (\<open>drivers/src/pci/device.rs\<close>). Probing, which reads the device's registers and the PCI bus, is not.
\<close>

section \<open>PCI devices, as the IOMMU uses them\<close>

record pci_device =
  pd_address :: pci_address
  pd_owner :: "page_owner_id option"
  pd_iommu_attached :: bool
  pd_command :: u16

text \<open>Bit 2 of the command register lets the device access memory on its own.\<close>

definition BUS_MASTER_ENABLE :: nat where "BUS_MASTER_ENABLE = 2"

definition set_iommu_attached :: "pci_device \<Rightarrow> pci_device" where
  "set_iommu_attached dev = dev\<lparr>pd_iommu_attached := True\<rparr>"

definition clear_iommu_attached :: "pci_device \<Rightarrow> pci_device" where
  "clear_iommu_attached dev =
     dev\<lparr>pd_command := set_bit BUS_MASTER_ENABLE (pd_command dev), pd_iommu_attached := False\<rparr>"

section \<open>Soft-context IDs\<close>

record gsc_id_state =
  gs_owner :: page_owner_id
  gs_ref_count :: u64

definition MAX_GSCIDS :: nat where "MAX_GSCIDS = 64"

record iommu =
  io_cqt :: u32
  io_command_queue :: iommu_queue
  io_ddt :: device_directory
  io_gscids :: "gsc_id_state option list"

definition alloc_gscid :: "iommu \<Rightarrow> page_owner_id \<Rightarrow> gsc_id iommu_result \<times> iommu" where
  "alloc_gscid io owner =
     (case position (\<lambda>g. g = None) (io_gscids io) of
        None \<Rightarrow> (Err OutOfGscIds, io)
      | Some n \<Rightarrow>
          (Ok (GscId (word_of_nat n)),
           io\<lparr>io_gscids := (io_gscids io)[n := Some \<lparr>gs_owner = owner, gs_ref_count = 0\<rparr>]\<rparr>))"

definition gscid_slot :: "iommu \<Rightarrow> gsc_id \<Rightarrow> gsc_id_state option option" where
  "gscid_slot io gscid =
     (if unat (gsc_id_bits gscid) < length (io_gscids io) then Some (io_gscids io ! unat (gsc_id_bits gscid)) else None)"

definition gscid_write :: "iommu \<Rightarrow> gsc_id \<Rightarrow> gsc_id_state option \<Rightarrow> iommu" where
  "gscid_write io gscid x = io\<lparr>io_gscids := (io_gscids io)[unat (gsc_id_bits gscid) := x]\<rparr>"

definition free_gscid :: "iommu \<Rightarrow> gsc_id \<Rightarrow> unit iommu_result \<times> iommu" where
  "free_gscid io gscid =
     (case gscid_slot io gscid of
        None \<Rightarrow> (Err (InvalidGscId gscid), io)
      | Some (Some st) \<Rightarrow>
          if 0 < gs_ref_count st then (Err (GscIdInUse gscid), io) else (Ok (), gscid_write io gscid None)
      | Some None \<Rightarrow> (Err (GscIdAlreadyFree gscid), io))"

section \<open>Commands\<close>

text \<open>
  The device reads its command queue on its own. What it reports as its head is a sequence of values, one for
  each time the driver reads the register; the driver waits for the tail it wrote, and a device that never gets
  there leaves it waiting: the function has no value.
\<close>

partial_function (option) wait_head :: "(nat \<Rightarrow> u32) \<Rightarrow> u32 \<Rightarrow> nat \<Rightarrow> unit option" where
  "wait_head cqh tail n = (if cqh n \<noteq> tail then wait_head cqh tail (n + 1) else Some ())"

fun push_commands :: "iommu_queue \<Rightarrow> mem \<Rightarrow> command list \<Rightarrow> unit iommu_result \<times> iommu_queue \<times> mem" where
  "push_commands q m [] = (Ok (), q, m)"
| "push_commands q m (cmd # cmds) =
     (case queue_push command_data q m cmd of
        (Ok _, q', m') \<Rightarrow> push_commands q' m' cmds
      | res \<Rightarrow> res)"

definition submit_commands_sync ::
    "(nat \<Rightarrow> u32) \<Rightarrow> iommu \<Rightarrow> mem \<Rightarrow> command list \<Rightarrow> (unit iommu_result \<times> iommu \<times> mem) option" where
  "submit_commands_sync cqh io m commands =
     (case push_commands (io_command_queue io) m commands of
        (Ok _, q, m') \<Rightarrow>
          let tail = ucast (qu_tail q) :: u32;
              io' = io\<lparr>io_command_queue := q, io_cqt := tail\<rparr>
          in Option.bind (wait_head cqh tail 0)
               (\<lambda>_. case update_head q (ucast tail) of
                      (res, q') \<Rightarrow> Some (unwrap res, io'\<lparr>io_command_queue := q'\<rparr>, m'))
      | (Err e, q, m') \<Rightarrow> Some (Err e, io\<lparr>io_command_queue := q\<rparr>, m')
      | (Panic, q, m') \<Rightarrow> Some (Panic, io\<lparr>io_command_queue := q\<rparr>, m'))"

definition iommu_fence ::
    "(nat \<Rightarrow> u32) \<Rightarrow> iommu \<Rightarrow> mem \<Rightarrow> gsc_id \<Rightarrow> guest_page_addr option \<Rightarrow> (unit iommu_result \<times> iommu \<times> mem) option" where
  "iommu_fence cqh io m gscid addr =
     map_option (\<lambda>(res, s). (unwrap res, s))
       (submit_commands_sync cqh io m [iotinval_gvma (Some gscid) addr, iofence])"

section \<open>Attaching and detaching\<close>

definition attach_pci_device ::
    "u64 \<Rightarrow> iommu \<Rightarrow> mem \<Rightarrow> pci_device \<Rightarrow> guest_stage_table \<Rightarrow> msi_page_table \<Rightarrow> gsc_id
      \<Rightarrow> unit iommu_result \<times> iommu \<times> mem \<times> pci_device" where
  "attach_pci_device hgatp_mode io m dev pt msi_pt gscid =
     (case device_id_try_from (pd_address dev) of
        Err e \<Rightarrow> (Err e, io, m, dev)
      | Panic \<Rightarrow> (Panic, io, m, dev)
      | Ok dev_id \<Rightarrow>
          (case gscid_slot io gscid of
             Some (Some st) \<Rightarrow>
               if gst_owner pt \<noteq> gs_owner st \<or> mpt_owner msi_pt \<noteq> gs_owner st \<or> pd_owner dev \<noteq> Some (gs_owner st)
               then (Err IommuOwnerMismatch, io, m, dev)
               else (case enable_device hgatp_mode m (io_ddt io) dev_id pt msi_pt gscid of
                       (Ok _, m') \<Rightarrow>
                         (Ok (), gscid_write io gscid (Some (st\<lparr>gs_ref_count := gs_ref_count st + 1\<rparr>)), m',
                          set_iommu_attached dev)
                     | (Err e, m') \<Rightarrow> (Err e, io, m', dev)
                     | (Panic, m') \<Rightarrow> (Panic, io, m', dev))
           | _ \<Rightarrow> (Err (InvalidGscId gscid), io, m, dev)))"

definition detach_pci_device ::
    "(nat \<Rightarrow> u32) \<Rightarrow> iommu \<Rightarrow> mem \<Rightarrow> pci_device \<Rightarrow> gsc_id \<Rightarrow> (unit iommu_result \<times> iommu \<times> mem \<times> pci_device) option" where
  "detach_pci_device cqh io m dev gscid =
     (case device_id_try_from (pd_address dev) of
        Err e \<Rightarrow> Some (Err e, io, m, dev)
      | Panic \<Rightarrow> Some (Panic, io, m, dev)
      | Ok dev_id \<Rightarrow>
          (case gscid_slot io gscid of
             Some (Some st) \<Rightarrow>
               if pd_owner dev \<noteq> Some (gs_owner st) then Some (Err IommuOwnerMismatch, io, m, dev)
               else let dev' = clear_iommu_attached dev in
                 (case disable_device m (io_ddt io) dev_id of
                    (Err e, m') \<Rightarrow> Some (Err e, io, m', dev')
                  | (Panic, m') \<Rightarrow> Some (Panic, io, m', dev')
                  | (Ok _, m') \<Rightarrow>
                      map_option (\<lambda>(res, io', m''). (unwrap res, io', m'', dev'))
                        (submit_commands_sync cqh (gscid_write io gscid (Some (st\<lparr>gs_ref_count := gs_ref_count st - 1\<rparr>))) m'
                           [iodir_inval_ddt (Some dev_id), iofence]))
           | _ \<Rightarrow> Some (Err (InvalidGscId gscid), io, m, dev)))"

section \<open>Submitting commands\<close>

lemma wait_head_returns: "cqh (n + k) = tail \<Longrightarrow> wait_head cqh tail n = Some ()"
proof (induction k arbitrary: n)
  case 0
  then show ?case
    by (simp add: wait_head.simps)
next
  case (Suc k)
  then have "wait_head cqh tail (n + 1) = Some ()"
    by simp
  then show ?case
    by (cases "cqh n = tail") (simp_all add: wait_head.simps [of cqh tail n])
qed

lemma wait_head_reached:
  assumes "wait_head cqh tail n = Some r"
  shows "\<exists>k. cqh k = tail"
proof (rule wait_head.raw_induct [OF _ assms])
  fix f :: "(nat \<Rightarrow> u32) \<Rightarrow> u32 \<Rightarrow> nat \<Rightarrow> unit option" and cqh tail n r
  assume "\<And>cqh tail n r. f cqh tail n = Some r \<Longrightarrow> \<exists>k. cqh k = tail"
    and "(if cqh n \<noteq> tail then f cqh tail (n + 1) else Some ()) = Some r"
  then show "\<exists>k. cqh k = tail"
    by (cases "cqh n = tail") auto
qed

lemma queue_push_mem: "queue_push di q m x = (r, q', m') \<Longrightarrow> qu_mem q' = qu_mem q"
  by (auto simp: queue_push_def Let_def split: if_splits result.splits)

lemma push_commands_correct:
  assumes "queue_ok command_data q" and "queue_len q + length cmds < unat (qu_capacity q)"
  shows "\<exists>q' m'. push_commands q m cmds = (Ok (), q', m') \<and> queue_ok command_data q'
    \<and> queue_list command_data m' q' = queue_list command_data m q @ cmds
    \<and> qu_capacity q' = qu_capacity q \<and> qu_mem q' = qu_mem q \<and> qu_head q' = qu_head q
    \<and> (\<forall>c. \<not> in_bytes (vs_ptr (qu_mem q)) (unat (vs_len (qu_mem q))) c \<longrightarrow> m' c = m c)"
  using assms
proof (induction cmds arbitrary: q m)
  case (Cons x cmds)
  obtain r q1 m1 where p: "queue_push command_data q m x = (r, q1, m1)"
    by (metis prod_cases3)
  have push: "r = Ok () \<and> queue_ok command_data q1 \<and> queue_list command_data m1 q1 = queue_list command_data m q @ [x]
      \<and> qu_head q1 = qu_head q \<and> qu_capacity q1 = qu_capacity q
      \<and> (\<forall>c. \<not> in_bytes (vs_ptr (qu_mem q)) (unat (vs_len (qu_mem q))) c \<longrightarrow> m1 c = m c)"
    using command.queue_push_correct [OF Cons.prems(1), of m x] p Cons.prems(2) by (cases r) auto
  then have "length (queue_list command_data m1 q1) = length (queue_list command_data m q) + 1"
    by simp
  then have "queue_len q1 = queue_len q + 1"
    by simp
  then show ?case
    using Cons.IH [of q1 m1] push p queue_push_mem [OF p] Cons.prems(2) by auto
qed simp

text \<open>The driver's queue between submissions: empty, with a capacity that 32 bits hold.\<close>

definition cq_idle :: "iommu \<Rightarrow> bool" where
  "cq_idle io \<longleftrightarrow> queue_ok command_data (io_command_queue io) \<and> queue_len (io_command_queue io) = 0
     \<and> 4 \<le> unat (qu_capacity (io_command_queue io)) \<and> unat (qu_capacity (io_command_queue io)) \<le> 2 ^ 32"

text \<open>The tail after a submission, which the device's head has to reach.\<close>

definition submitted_tail :: "iommu \<Rightarrow> nat \<Rightarrow> nat" where
  "submitted_tail io n = ring_at (unat (qu_capacity (io_command_queue io))) (unat (qu_head (io_command_queue io))) n"

lemma submit_correct:
  assumes idle: "cq_idle io" and cmds: "length cmds = 2"
  shows "\<exists>q m'. push_commands (io_command_queue io) m cmds = (Ok (), q, m') \<and> queue_list command_data m' q = cmds
    \<and> (\<forall>c. \<not> in_bytes (vs_ptr (qu_mem (io_command_queue io))) (unat (vs_len (qu_mem (io_command_queue io)))) c \<longrightarrow> m' c = m c)
    \<and> unat (ucast (qu_tail q) :: u32) = submitted_tail io 2
    \<and> (if \<exists>k. cqh k = ucast (qu_tail q)
       then \<exists>io'. submit_commands_sync cqh io m cmds = Some (Ok (), io', m') \<and> cq_idle io'
         \<and> io' = io\<lparr>io_cqt := ucast (qu_tail q), io_command_queue := q\<lparr>qu_head := qu_tail q\<rparr>\<rparr>
       else submit_commands_sync cqh io m cmds = None)"
proof -
  let ?q = "io_command_queue io"
  have ok: "queue_ok command_data ?q" "queue_len ?q = 0" "4 \<le> unat (qu_capacity ?q)" "unat (qu_capacity ?q) \<le> 2 ^ 32"
    using idle by (simp_all add: cq_idle_def)
  obtain q m' where p: "push_commands ?q m cmds = (Ok (), q, m')" "queue_ok command_data q"
    "queue_list command_data m' q = queue_list command_data m ?q @ cmds" "qu_capacity q = qu_capacity ?q" "qu_mem q = qu_mem ?q"
    "qu_head q = qu_head ?q"
    "\<forall>c. \<not> in_bytes (vs_ptr (qu_mem ?q)) (unat (vs_len (qu_mem ?q))) c \<longrightarrow> m' c = m c"
    using push_commands_correct [OF ok(1), of cmds m] ok cmds by auto
  have empty: "queue_list command_data m ?q = []"
    using ok(2) by (metis length_0_conv length_queue_list)
  have len: "queue_len q = 2"
    using p(3) empty cmds by (metis append_Nil length_queue_list)
  have ix: "unat (qu_head q) < unat (qu_capacity q)" "unat (qu_tail q) < unat (qu_capacity q)"
    using queue_index [OF p(2)] by simp_all
  then have small: "unat (qu_tail q) < 2 ^ 32"
    using ok(4) p(4) by simp
  have cast: "ucast (ucast (qu_tail q) :: u32) = qu_tail q"
    using ucast_u64_u32 [OF small] .
  have "unat (ucast (qu_tail q) :: u32) = unat (qu_tail q)"
    using unat_ucast_u32 [of "ucast (qu_tail q) :: u32"] cast by simp
  moreover have "unat (qu_tail q) = submitted_tail io 2"
    using ring_facts(4) [OF ix] len p(4,6) by (simp add: submitted_tail_def queue_len_def)
  ultimately have tail: "unat (ucast (qu_tail q) :: u32) = submitted_tail io 2"
    by simp
  have lt: "qu_tail q < qu_capacity q"
    using ix by (simp add: word_less_nat_alt)
  have full: "ring_len (unat (qu_capacity q)) (unat (qu_head q)) (unat (qu_tail q)) \<le> queue_len q"
    by (simp add: queue_len_def)
  have uh: "update_head q (qu_tail q) = (Ok (), q\<lparr>qu_head := qu_tail q\<rparr>)"
    using update_head_correct(1) [OF p(2), of "qu_tail q"] lt full by simp
  have ok': "queue_ok command_data (q\<lparr>qu_head := qu_tail q\<rparr>)"
    using update_head_correct(2) [OF p(2) lt full] by simp
  have idle': "cq_idle (io\<lparr>io_cqt := t, io_command_queue := q\<lparr>qu_head := qu_tail q\<rparr>\<rparr>)" for t
    using ok' ok p(4) by (simp add: cq_idle_def queue_len_def ring_len_def)
  have sub: "submit_commands_sync cqh io m cmds =
      Option.bind (wait_head cqh (ucast (qu_tail q)) 0)
        (\<lambda>_. Some (Ok (), io\<lparr>io_cqt := ucast (qu_tail q), io_command_queue := q\<lparr>qu_head := qu_tail q\<rparr>\<rparr>, m'))"
    by (simp add: submit_commands_sync_def p(1) Let_def cast uh)
  have "if \<exists>k. cqh k = ucast (qu_tail q)
       then \<exists>io'. submit_commands_sync cqh io m cmds = Some (Ok (), io', m') \<and> cq_idle io'
         \<and> io' = io\<lparr>io_cqt := ucast (qu_tail q), io_command_queue := q\<lparr>qu_head := qu_tail q\<rparr>\<rparr>
       else submit_commands_sync cqh io m cmds = None"
  proof (cases "\<exists>k. cqh k = ucast (qu_tail q)")
    case True
    then have "wait_head cqh (ucast (qu_tail q)) 0 = Some ()"
      using wait_head_returns [of cqh 0] by (metis add_0)
    then show ?thesis
      using True idle' unfolding sub by simp
  next
    case False
    then have "wait_head cqh (ucast (qu_tail q)) 0 = None"
      using wait_head_reached [of cqh "ucast (qu_tail q)" 0] by (cases "wait_head cqh (ucast (qu_tail q)) 0") auto
    then show ?thesis
      using False sub by simp
  qed
  then show ?thesis
    using p(1,3,7) empty tail by auto
qed


definition idle_example :: iommu where
  "idle_example = \<lparr>io_cqt = 0,
     io_command_queue = \<lparr>qu_mem = \<lparr>vs_ptr = 0x80001000, vs_len = 4096\<rparr>, qu_head = 255, qu_tail = 255, qu_capacity = 256\<rparr>,
     io_ddt = dd_example, io_gscids = replicate MAX_GSCIDS None\<rparr>"

lemma idle_example: "cq_idle idle_example"
proof -
  have "unat (256 :: u64) = 2 ^ 8"
    by simp
  then have "\<exists>k. unat (256 :: u64) = 2 ^ k" ..
  then show ?thesis
    by (simp add: cq_idle_def idle_example_def queue_ok_def command_data_def queue_len_def ring_len_def)
qed


section \<open>Attaching and detaching\<close>

lemma device_id_try_from_ok: "device_id_try_from a = Ok d \<Longrightarrow> device_id_ok d"
proof -
  assume "device_id_try_from a = Ok d"
  then have d: "d = DeviceId (pci_bits a)" and z: "pci_bits a AND NOT (mask 24) = 0"
    by (auto simp: device_id_try_from_def device_id_new_def DEVICE_ID_BITS_def mask_eq_exp_minus_1 push_bit_eq_mult split: if_splits)
  have "pci_bits a = take_bit 24 (pci_bits a)"
  proof (rule bit_eqI)
    fix n
    assume "possible_bit TYPE(u32) n"
    then have "bit (pci_bits a) n \<Longrightarrow> n < 24"
      using arg_cong [OF z, of "\<lambda>x. bit x n"] by (auto simp: bit_simps)
    then show "bit (pci_bits a) n = bit (take_bit 24 (pci_bits a)) n"
      by (auto simp: bit_simps)
  qed
  then have "unat (pci_bits a) = unat (take_bit 24 (pci_bits a))"
    by simp
  also have "\<dots> = unat (pci_bits a) mod 2 ^ 24"
    unfolding unsigned_take_bit_eq by (rule take_bit_eq_mod)
  finally show ?thesis
    unfolding device_id_ok_def id_nat_def d DEVICE_ID_BITS_def device_id.sel by (metis mod_less_divisor zero_less_numeral zero_less_power)
qed

text \<open>Memory outside of the tables does not matter to the directory.\<close>

lemma dd_agree:
  assumes inv: "dd_inv dir T m" and ag: "\<And>t x w. T t = Some x \<Longrightarrow> unat w < 4096 \<Longrightarrow> m' (t + w) = m (t + w)"
  shows "dd_inv dir T m'" and "device_id_ok d \<Longrightarrow> dd_view m' dir d = dd_view m dir d"
proof -
  have inner: "inner_agree T m m'"
    unfolding inner_agree_def using ag word_8 by blast
  show "dd_inv dir T m'"
    by (rule dd_inv_agree [OF inv inner])
  assume ok: "device_id_ok d"
  note root = dd_root_table [OF inv ok]
  have frame: "dd_walk m' (dd_table_from_root dir) d = result_bind (dd_walk m (dd_table_from_root dir) d) (\<lambda>e. Ok (reread_leaf m' e))"
    using dd_walk_frame [OF inv inner root(1)] root(2) by simp
  consider t where "T t = Some (0, id_prefix d 0)" "dd_walk m (dd_table_from_root dir) d = Ok (leaf_entry m (dc_addr t d))"
    | nle k where "dd_walk m (dd_table_from_root dir) d = Ok (InvalidEntry nle k)"
    using dd_walk_correct [OF inv root(1)] root(2) by metis
  then show "dd_view m' dir d = dd_view m dir d"
  proof cases
    case (1 t)
    have e: "m' (dc_addr t d + off) = m (dc_addr t d + off)" if "unat off < 64" for off
      unfolding dc_words(1) [OF inv 1(1) that] by (rule ag [OF 1(1) dc_words(3) [OF inv 1(1) that]])
    have "m' (dc_addr t d) = m (dc_addr t d)"
      using e [of 0] by simp
    with e have "dc_read m' (dc_addr t d) = dc_read m (dc_addr t d)" "dc_present m' (dc_addr t d) = dc_present m (dc_addr t d)"
      by (simp_all add: dc_read_def dc_present_def dc_offsets)
    then show ?thesis
      using 1 frame by (simp add: dd_view_def get_context_for_id_def leaf_entry_def reread_leaf_def split: if_splits)
  next
    case 2
    then show ?thesis
      using frame by (simp add: dd_view_def get_context_for_id_def)
  qed
qed

lemma gscid_slot_write:
  "gscid_slot io g \<noteq> None \<Longrightarrow> gscid_slot (gscid_write io g x) g' = (if g' = g then Some x else gscid_slot io g')"
  by (cases g; cases g') (auto simp: gscid_slot_def gscid_write_def nth_list_update word_unat_eq_iff split: if_splits)

lemma gscid_write_fields [simp]:
  "io_ddt (gscid_write io g x) = io_ddt io" "io_command_queue (gscid_write io g x) = io_command_queue io"
  "cq_idle (gscid_write io g x) = cq_idle io" "submitted_tail (gscid_write io g x) = submitted_tail io"
  by (simp_all add: gscid_write_def cq_idle_def submitted_tail_def fun_eq_iff)

text \<open>A driver between calls: its queue is idle, its directory well formed, and the two do not share memory.\<close>

definition iommu_ok :: "iommu \<Rightarrow> dd_tables \<Rightarrow> mem \<Rightarrow> bool" where
  "iommu_ok io T m \<longleftrightarrow> cq_idle io \<and> dd_inv (io_ddt io) T m
     \<and> (\<forall>t x w. T t = Some x \<longrightarrow> unat w < 4096 \<longrightarrow>
          \<not> in_bytes (vs_ptr (qu_mem (io_command_queue io))) (unat (vs_len (qu_mem (io_command_queue io)))) (t + w))"

text \<open>Detaching a device whose context is valid, with an ID of its owner, when the device answers.\<close>

lemma detach_correct:
  assumes ok: "iommu_ok io T m" and id: "device_id_try_from (pd_address dev) = Ok d"
    and slot: "gscid_slot io gscid = Some (Some st)" and owner: "pd_owner dev = Some (gs_owner st)"
    and c: "dd_view m (io_ddt io) d = Some c" "context_valid c"
    and hw: "\<exists>k. unat (cqh k) = submitted_tail io 2"
  shows "\<exists>io' m'. detach_pci_device cqh io m dev gscid = Some (Ok (), io', m', clear_iommu_attached dev) \<and> cq_idle io'
    \<and> dd_inv (io_ddt io) T m' \<and> io_ddt io' = io_ddt io
    \<and> gscid_slot io' gscid = Some (Some (st\<lparr>gs_ref_count := gs_ref_count st - 1\<rparr>))
    \<and> dd_view m' (io_ddt io) d = Some (context_disabled c)
    \<and> (\<forall>d'. device_id_ok d' \<and> d' \<noteq> d \<longrightarrow> dd_view m' (io_ddt io) d' = dd_view m (io_ddt io) d')"
proof -
  let ?io = "gscid_write io gscid (Some (st\<lparr>gs_ref_count := gs_ref_count st - 1\<rparr>))"
  have idle: "cq_idle io" and inv: "dd_inv (io_ddt io) T m"
    and apart: "\<And>t x w. T t = Some x \<Longrightarrow> unat w < 4096 \<Longrightarrow>
      \<not> in_bytes (vs_ptr (qu_mem (io_command_queue io))) (unat (vs_len (qu_mem (io_command_queue io)))) (t + w)"
    using ok unfolding iommu_ok_def by blast+
  note did = device_id_try_from_ok [OF id]
  obtain r m1 where dis: "disable_device m (io_ddt io) d = (r, m1)"
    by (cases "disable_device m (io_ddt io) d")
  have r: "r = Ok ()" and m1: "dd_inv (io_ddt io) T m1" "dd_view m1 (io_ddt io) d = Some (context_disabled c)"
    "\<forall>d'. device_id_ok d' \<and> d' \<noteq> d \<longrightarrow> dd_view m1 (io_ddt io) d' = dd_view m (io_ddt io) d'"
    using disable_device_correct [OF inv did] c dis
    by (cases r; auto simp: disable_device_def dd_view_def dc_valid_read split: result.splits option.splits if_splits)+
  have "cq_idle ?io"
    using idle by simp
  from submit_correct [OF this, of "[iodir_inval_ddt (Some d), iofence]" m1 cqh]
  obtain q m2 where fr: "\<forall>c. \<not> in_bytes (vs_ptr (qu_mem (io_command_queue io))) (unat (vs_len (qu_mem (io_command_queue io)))) c \<longrightarrow> m2 c = m1 c"
    and tail: "unat (ucast (qu_tail q) :: u32) = submitted_tail io 2"
    and s: "if \<exists>k. cqh k = ucast (qu_tail q)
       then \<exists>io'. submit_commands_sync cqh ?io m1 [iodir_inval_ddt (Some d), iofence] = Some (Ok (), io', m2) \<and> cq_idle io'
         \<and> io' = ?io\<lparr>io_cqt := ucast (qu_tail q), io_command_queue := q\<lparr>qu_head := qu_tail q\<rparr>\<rparr>
       else submit_commands_sync cqh ?io m1 [iodir_inval_ddt (Some d), iofence] = None"
    by auto
  have "\<exists>k. cqh k = ucast (qu_tail q)"
    using hw unfolding tail [symmetric] by (simp add: word_unat_eq_iff)
  then obtain io' where io': "submit_commands_sync cqh ?io m1 [iodir_inval_ddt (Some d), iofence] = Some (Ok (), io', m2)" "cq_idle io'"
    "io' = ?io\<lparr>io_cqt := ucast (qu_tail q), io_command_queue := q\<lparr>qu_head := qu_tail q\<rparr>\<rparr>"
    using s by auto
  have ag: "m2 (t + w) = m1 (t + w)" if "T t = Some x" "unat w < 4096" for t x w
    using fr apart [OF that] by blast
  have "gscid_slot io' gscid = gscid_slot ?io gscid"
    using io'(3) by (simp add: gscid_slot_def)
  then have "gscid_slot io' gscid = Some (Some (st\<lparr>gs_ref_count := gs_ref_count st - 1\<rparr>))"
    using slot by (simp add: gscid_slot_write)
  moreover have "detach_pci_device cqh io m dev gscid = Some (Ok (), io', m2, clear_iommu_attached dev)"
    using id slot owner dis r io'(1) by (simp add: detach_pci_device_def Let_def)
  moreover have "io_ddt io' = io_ddt io"
    using io'(3) by simp
  ultimately show ?thesis
    using io'(2) dd_agree [OF m1(1) ag] m1(2,3) did by auto
qed


text \<open>
  A device that has been detached may still, and again, access memory on its own: where the comment says that
  bus mastering is disabled, the bit is set.
\<close>

lemma clear_iommu_attached_enables_dma: "bit (pd_command (clear_iommu_attached dev)) BUS_MASTER_ENABLE"
  by (simp add: clear_iommu_attached_def BUS_MASTER_ENABLE_def bit_simps)


text \<open>A directory with one device added, behind tables at \<open>0x80002000\<close> and \<open>0x80003000\<close>.\<close>

definition attach_example_mem :: mem where
  "attach_example_mem = (\<lambda>_. 0)(0x80000000 := 0x20000801, 0x80002000 := 0x20000C01, 0x80003000 := DC_SW_INVALIDATED)"

definition attach_example_tables :: dd_tables where
  "attach_example_tables = [0x80000000 \<mapsto> (2, 0), 0x80002000 \<mapsto> (1, 0), 0x80003000 \<mapsto> (0, 0)]"

definition attach_example :: iommu where
  "attach_example = gscid_write idle_example (GscId 3) (Some \<lparr>gs_owner = PageOwnerId 5, gs_ref_count = 0\<rparr>)"

definition attach_example_dev :: pci_device where
  "attach_example_dev = \<lparr>pd_address = Address 0, pd_owner = Some (PageOwnerId 5), pd_iommu_attached = False, pd_command = 0\<rparr>"

lemma attach_example_slots:
  assumes "i < 512"
  shows "attach_example_mem (0x80000000 + 8 * word_of_nat i) = (if i = 0 then 0x20000801 else 0)"
    and "attach_example_mem (0x80002000 + 8 * word_of_nat i) = (if i = 0 then 0x20000C01 else 0)"
proof -
  have u: "unat (8 * word_of_nat i :: u64) = 8 * i"
    using assms by (simp add: unat_word_ariths unat_of_nat take_bit_nat_eq_self)
  have "unat (0x80000000 + 8 * word_of_nat i :: u64) = 0x80000000 + 8 * i" "unat (0x80002000 + 8 * word_of_nat i :: u64) = 0x80002000 + 8 * i"
    using assms by (simp_all add: unat_word_ariths(1) u)
  then show "attach_example_mem (0x80000000 + 8 * word_of_nat i) = (if i = 0 then 0x20000801 else 0)"
    and "attach_example_mem (0x80002000 + 8 * word_of_nat i) = (if i = 0 then 0x20000C01 else 0)"
    using assms by (auto simp: attach_example_mem_def word_unat_eq_iff simp del: fun_upd_apply) (auto simp: word_unat_eq_iff fun_upd_apply)
qed

lemma attach_example_ok: "iommu_ok attach_example attach_example_tables attach_example_mem"
proof -
  have "dd_inv dd_example attach_example_tables attach_example_mem"
    by (auto simp: dd_inv_def attach_example_tables_def attach_example_slots dd_example_def device_directory_new_def DDT3_LEVELS_def
        page_addr_bits_def raw_supervisor_def nle_valid_def NL_VALID_def nle_pfn_def NL_PFN_SHIFT_def NL_PFN_MASK_def NL_PFN_BITS_def
        pfn_supervisor_def PFN_SHIFT_def split: if_splits)
  moreover have "\<not> in_bytes 0x80001000 4096 (t + w)" if "t \<in> {0x80000000, 0x80002000, 0x80003000}" "unat w < 4096" for t w :: u64
    using that by (auto simp: in_bytes_def unat_word_ariths)
  ultimately show ?thesis
    using idle_example by (auto simp: iommu_ok_def attach_example_def attach_example_tables_def idle_example_def split: if_splits)
qed

lemma attach_example_context: "get_context_for_id attach_example_mem dd_example (DeviceId 0) = Ok (Some 0x80003000)"
proof -
  let ?t = "\<lambda>a l. \<lparr>ddt_table_addr = PageAddr (raw_supervisor a), ddt_level = l\<rparr>"
  note ev = entry_for_id_def ddt_is_leaf_def level_index_bits_def page_addr_bits_def raw_supervisor_def attach_example_mem_def
    nle_valid_def NL_VALID_def from_non_leaf_entry_def nle_pfn_def NL_PFN_SHIFT_def NL_PFN_MASK_def NL_PFN_BITS_def pfn_supervisor_def
    page_addr_from_pfn_def PFN_SHIFT_def page_addr_with_alignment_def page_addr_is_aligned_def page_size_is_aligned_def bits_is_aligned_def dc_present_def dc_offsets DC_VALID_def
    DC_SW_INVALIDATED_def
  have e: "entry_for_id attach_example_mem (?t 0x80000000 2) (DeviceId 0) = Ok (NextLevel (?t 0x80002000 1))"
    "entry_for_id attach_example_mem (?t 0x80002000 1) (DeviceId 0) = Ok (NextLevel (?t 0x80003000 0))"
    "entry_for_id attach_example_mem (?t 0x80003000 0) (DeviceId 0) = Ok (PresentLeaf 0x80003000)"
    by (simp_all add: ev)
  have "dd_walk attach_example_mem (?t 0x80000000 2) (DeviceId 0) = Ok (PresentLeaf 0x80003000)"
    by (simp add: dd_walk.simps [of _ "?t _ _"] e e [unfolded One_nat_def])
  then show ?thesis
    by (simp add: get_context_for_id_def dd_table_from_root_def dd_example_def device_directory_new_def DDT3_LEVELS_def)
qed


end
