(* ===== verification/Spec2Isabelle.thy ===== *)
theory Spec2Isabelle
  imports Boot_Properties First_Stage Iommu_Core
begin

text \<open>
  Verification of Salus, a hypervisor for RISC-V that runs confidential guests beside an untrusted host. Its
  central promise is about memory: at any time a page of memory has one owner, moves to another owner only after
  it has been converted, flushed from all TLBs and cleaned, and is reachable only through the page tables of its
  owner, by its CPUs and by its devices. The development models the code that keeps this promise.

  \<^bold>\<open>The parts and how they interact.\<close> At boot a map of the physical memory is built (\<open>HwMemMap\<close>), from which the
  table of all pages is made (\<open>PageMap\<close>) and pages for the hypervisor itself are allocated (\<open>HypPageAlloc\<close>); what is
  left goes to the host, and the page tracker (\<open>PageTracker\<close>) takes over. From then on every change of a page's
  owner or state is a call of the tracker. The guest-stage page tables of a VM map tracked pages at guest addresses,
  with pages for the tables themselves from the VM's pool; the list of regions says which guest addresses may hold
  which kind of memory, and the TLB tracker says when a page that was unmapped can no longer be reached. The IOMMU
  translates the accesses and interrupts of devices through the same page tables and through MSI page tables.

  \<^bold>\<open>Conventions.\<close> Machine integers keep their width: \<open>u64\<close> is \<open>64 word\<close>, and arithmetic that the source does not
  check wraps, as in a release build. A function that may fail returns a \<open>result\<close>, with a constructor \<open>Panic\<close> for
  every failing \<open>unwrap\<close>, \<open>assert\<close> and index; one that also changes state returns the result with the new state, so the
  state an error leaves behind is part of the model. Memory is a map from word addresses to words. Type parameters,
  traits and closures are arguments. Data behind a lock is a value, and an operation that takes the lock once is one
  atomic step. Type-states of pages, which the compiler checks, are carried as values.

  \<^bold>\<open>The theories\<close>, from the bottom up, with the code they model (paths relative to \<open>src/\<close>):

  \<^item> \<open>Salus_Prelude\<close>: results, words, aligned values and lists; the laws of power-of-two sizes as a locale.
  \<open>Array_Vec\<close>: the operations of the crate \<open>arrayvec\<close> as a record of functions with their documented behaviour as
  hypothesis \<open>array_vec_ok\<close>, which an implementation by lists satisfies.
  \<^item> \<open>Riscv_Pages\<close>, \<open>Page_Types\<close>, \<open>Sequential_Pages\<close> (\<open>riscv-pages/src\<close>): page sizes, addresses, frame numbers, pages
  with their type-states, and runs of pages. Iterators enumerate what they should, also at the end of the address
  space; runs are built from exactly consecutive pages, and errors hand the pages back.
  \<^item> \<open>Hw_Mem_Map\<close> (\<open>page-tracking/src/hw_mem_map.rs\<close>): regions stay sorted and disjoint, and reserving changes the kind
  of exactly the range.
  \<^item> \<open>Page_Info\<close>, \<open>Page_Map\<close>, \<open>Page_Map_Iter\<close>, \<open>Page_Vec\<close> (\<open>page_info.rs\<close>, \<open>tlb_version.rs\<close>, \<open>collections/page_vec.rs\<close>): the
  state machine of one page as functions and as a step relation, with invariants over whole histories; the table of
  pages as built from the memory map; its iterator against the list of entries.
  \<^item> \<open>Page_Tracker\<close>, \<open>Tracker_Properties\<close> (\<open>page_tracker.rs\<close>): all calls, their invariant, their frame, and the refinement to
  stacks of owners (custody). A converted page is handed out exclusively; guest identities are never reused.
  \<^item> \<open>Page_List\<close> (\<open>page_list.rs\<close>): lists threaded through the tracker refine first-in first-out queues, a locale that
  page lists interpret.
  \<^item> \<open>Hyp_Page_Alloc\<close>, \<open>Boot_Properties\<close> (\<open>HypPageAlloc\<close> in \<open>page_tracker.rs\<close>): allocation at boot and the hand-over: the
  construction returns, and the tracker it returns satisfies the invariant that \<open>Tracker_Properties\<close> starts from.
  \<^item> \<open>Pte\<close>, \<open>Paging_Mode\<close>, \<open>Page_Table\<close> (\<open>riscv-page-tables/src\<close>): entries, the traits of paging modes with Sv48 and
  Sv48x4 as interpretations of their laws, and page tables in memory. \<open>Page_Table_Inv\<close> has the invariant of the tree,
  \<open>Page_Table_Ops\<close>, \<open>Page_Table_Lock\<close> and \<open>Page_Table_View\<close> relate the operations to a view from addresses to entries, and
  \<open>Guest_Stage\<close>, \<open>Guest_Ranges\<close>, \<open>Page_Table_Properties\<close> and \<open>First_Stage\<close> prove the operations on ranges against it. The
  supply of table pages and the operations on ranges are locales, interpreted for the guests' pool, for the
  hypervisor's own pages and for each operation.
  \<^item> \<open>Pte_Pool\<close>, \<open>Tlb_Tracker\<close>, \<open>Vm_Regions\<close> (\<open>src/vm_pages.rs\<close>, lines 29 to 592): the pool of table pages, the tracker of
  TLB versions over all histories, and the list of regions, which refines a map from addresses to kinds of memory.
  \<^item> \<open>Imsic_Geometry\<close>, \<open>Pci_Address\<close>, \<open>Volatile_Memory\<close>, \<open>Msi_Page_Table\<close>, \<open>Iommu_Queue\<close>, \<open>Device_Directory\<close>, \<open>Iommu_Core\<close>
  (\<open>drivers/src\<close>, \<open>data-model/src\<close>): the layout of interrupt files, the tables that redirect interrupts, the command queue,
  the tree of device contexts as a map from devices, and the driver that attaches devices to page tables of their
  owner only.

  \<^bold>\<open>Loops and bounds.\<close> Most loops are recursion on data or on a measure. Three may run forever and are partial
  functions with an \<open>option\<close> result, each with a theorem that says when it returns: \<open>follow_links\<close> (a cyclic list of
  pages), \<open>drain_loop\<close> (draining the allocator; it always returns) and \<open>wait_head\<close> (it returns exactly when the device
  reaches the submitted tail). Two loops count their turns: \<open>dd_fill\<close> takes as many as the directory has levels, each
  of which goes one level down, and \<open>update_all_loop\<close> as many as the list has regions, each of which moves on by a
  region or removes one; their theorems show that the count suffices. Beyond the types there are no bounds other than
  those of the source: 44-bit frame numbers, 56-bit physical addresses, the capacities of its arrays.

  \<^bold>\<open>Not modelled.\<close> The operations of \<open>VmPages\<close> and the orchestration of VMs and vCPUs (\<open>src/vm.rs\<close>, \<open>vm_cpu.rs\<close>,
  \<open>vm_pages.rs\<close> from line 593), which combine the modelled parts with registers, guest entry in assembly and SBI messages
  of a submodule that is not part of the sources; boot, traps and user mode; TLB fences, which are instructions; the
  probing and register access of device drivers; the device tree and attestation, which third-party crates carry out;
  the ELF loader, the allocator behind the standard library's interface, and boxes and reference counts in pages, which
  are raw-pointer code. Interleavings inside an operation are not modelled: almost all hold their lock
  throughout; attaching and detaching a device take the locks of the IDs, the directory and the command queue in turn.
  Memory barriers have no effect in a sequential model.
\<close>

end
